(* ===== verification/Prelude.thy ===== *)
theory Prelude
  imports Main "HOL-Library.Word"
begin

text \<open>
  Shared vocabulary of the development: the widths of the machine integers the C code uses,
  the faults a C function can end in, the error monad that sequences fallible steps, the
  byte-level memory operations behind \<^verbatim>\<open>memcpy\<close> and array indexing, the big-endian encodings
  used on the wire, and \<^verbatim>\<open>size_t\<close> arithmetic with its wrap-around.
\<close>

unbundle bit_operations_syntax

named_theorems fault_simps \<open>unfolding rules of the error monad and of memory accesses\<close>
named_theorems codec_simps \<open>encode/decode facts of the wire formats\<close>

type_synonym u8 = "8 word"
type_synonym u16 = "16 word"
type_synonym u32 = "32 word"
type_synonym u64 = "64 word"
type_synonym byte = u8

subsection \<open>Faults and the error monad\<close>

text \<open>
  \<^verbatim>\<open>Abort\<close> is a failed \<^verbatim>\<open>assert\<close> (\<^verbatim>\<open>lib/zassert.h\<close>: the daemon logs and aborts),
  \<^verbatim>\<open>OutOfBounds\<close> a memory access outside the accessed object, and \<^verbatim>\<open>NullDeref\<close> an access
  through a null or dangling pointer. The last two are undefined behaviour in C, so a theorem
  that a function never ends in one of them is a memory-safety statement.
\<close>

datatype fault = Abort | OutOfBounds | NullDeref

type_synonym 'a res = "fault + 'a"

fun bindE :: "'e + 'a \<Rightarrow> ('a \<Rightarrow> 'e + 'b) \<Rightarrow> 'e + 'b" where
  "bindE (Inl e) f = Inl e"
| "bindE (Inr x) f = f x"

definition assertE :: "bool \<Rightarrow> unit res" where
  "assertE b = (if b then Inr () else Inl Abort)"

fun foldE :: "('s \<Rightarrow> 'a \<Rightarrow> 'e + 's) \<Rightarrow> 's \<Rightarrow> 'a list \<Rightarrow> 'e + 's" where
  "foldE f s [] = Inr s"
| "foldE f s (x # xs) = bindE (f s x) (\<lambda>s'. foldE f s' xs)"

lemma bindE_eq_Inr [fault_simps]:
  "bindE m f = Inr y \<longleftrightarrow> (\<exists>x. m = Inr x \<and> f x = Inr y)"
  by (cases m) auto

lemma bindE_eq_Inl [fault_simps]:
  "bindE m f = Inl e \<longleftrightarrow> m = Inl e \<or> (\<exists>x. m = Inr x \<and> f x = Inl e)"
  by (cases m) auto

lemma bindE_assoc: "bindE (bindE m f) g = bindE m (\<lambda>x. bindE (f x) g)"
  by (cases m) auto

lemma bindE_Inr_id [simp]: "bindE m Inr = m"
  by (cases m) auto

lemma assertE_simps [simp]:
  "assertE b = Inr u \<longleftrightarrow> b"
  "assertE b = Inl e \<longleftrightarrow> \<not> b \<and> e = Abort"
  by (auto simp: assertE_def)

lemma assertE_True [simp]: "assertE True = Inr ()"
  by (simp add: assertE_def)

lemma bindE_assertE: "bindE (assertE b) f = (if b then f () else Inl Abort)"
  by (simp add: assertE_def)

subsection \<open>Memory blocks\<close>

text \<open>Reading and writing a run of bytes inside one allocated block.\<close>

definition mem_read :: "'a list \<Rightarrow> nat \<Rightarrow> nat \<Rightarrow> 'a list res" where
  "mem_read d off n = (if off + n \<le> length d then Inr (take n (drop off d)) else Inl OutOfBounds)"

definition mem_write :: "'a list \<Rightarrow> nat \<Rightarrow> 'a list \<Rightarrow> 'a list res" where
  "mem_write d off bs =
     (if off + length bs \<le> length d
      then Inr (take off d @ bs @ drop (off + length bs) d) else Inl OutOfBounds)"

lemma mem_read_Inr [fault_simps]:
  "mem_read d off n = Inr bs \<longleftrightarrow> off + n \<le> length d \<and> bs = take n (drop off d)"
  by (auto simp: mem_read_def)

lemma mem_read_Inl [fault_simps]:
  "mem_read d off n = Inl e \<longleftrightarrow> length d < off + n \<and> e = OutOfBounds"
  by (auto simp: mem_read_def)

lemma mem_write_Inr [fault_simps]:
  "mem_write d off bs = Inr d' \<longleftrightarrow>
     off + length bs \<le> length d \<and> d' = take off d @ bs @ drop (off + length bs) d"
  by (auto simp: mem_write_def)

lemma mem_write_Inl [fault_simps]:
  "mem_write d off bs = Inl e \<longleftrightarrow> length d < off + length bs \<and> e = OutOfBounds"
  by (auto simp: mem_write_def)

lemma length_splice [simp]:
  "off + length bs \<le> length d \<Longrightarrow> length (take off d @ bs @ drop (off + length bs) d) = length d"
  by simp

lemma take_splice [simp]:
  "n \<le> off \<Longrightarrow> off \<le> length d \<Longrightarrow> take n (take off d @ bs @ rest) = take n d"
  by (simp add: min_def)

lemma drop_splice [simp]:
  "off \<le> length d \<Longrightarrow> drop off (take off d @ rest) = rest"
  by simp

text \<open>One element of an array.\<close>

definition aget :: "'a list \<Rightarrow> nat \<Rightarrow> 'a res" where
  "aget xs i = (if i < length xs then Inr (xs ! i) else Inl OutOfBounds)"

definition aset :: "'a list \<Rightarrow> nat \<Rightarrow> 'a \<Rightarrow> 'a list res" where
  "aset xs i v = (if i < length xs then Inr (xs[i := v]) else Inl OutOfBounds)"

lemma aget_in [simp]: "i < length xs \<Longrightarrow> aget xs i = Inr (xs ! i)"
  by (simp add: aget_def)

lemma aset_in [simp]: "i < length xs \<Longrightarrow> aset xs i v = Inr (xs[i := v])"
  by (simp add: aset_def)

subsection \<open>Unsigned \<^verbatim>\<open>size_t\<close> arithmetic\<close>

text \<open>\<^verbatim>\<open>size_t\<close> values are naturals below \<open>2 ^ 64\<close>; sums and differences wrap.\<close>

definition SIZE_LIM :: nat where
  "SIZE_LIM = 2 ^ 64"

definition szadd :: "nat \<Rightarrow> nat \<Rightarrow> nat" where
  "szadd a b = (a + b) mod SIZE_LIM"

definition szsub :: "nat \<Rightarrow> nat \<Rightarrow> nat" where
  "szsub a b = (if b \<le> a then a - b else (SIZE_LIM + a - b) mod SIZE_LIM)"

lemma szadd_no_wrap [simp]: "a + b < SIZE_LIM \<Longrightarrow> szadd a b = a + b"
  by (simp add: szadd_def)

lemma szsub_no_wrap [simp]: "b \<le> a \<Longrightarrow> szsub a b = a - b"
  by (simp add: szsub_def)

lemma szadd_lt [simp]: "szadd a b < SIZE_LIM"
  by (simp add: szadd_def SIZE_LIM_def)

subsection \<open>Big-endian encodings\<close>

definition be8 :: "byte list \<Rightarrow> u8" where
  "be8 bs = bs ! 0"

definition be16 :: "byte list \<Rightarrow> u16" where
  "be16 bs = push_bit 8 (ucast (bs ! 0)) OR ucast (bs ! 1)"

definition be32 :: "byte list \<Rightarrow> u32" where
  "be32 bs = push_bit 24 (ucast (bs ! 0)) OR push_bit 16 (ucast (bs ! 1))
     OR push_bit 8 (ucast (bs ! 2)) OR ucast (bs ! 3)"

definition be64 :: "byte list \<Rightarrow> u64" where
  "be64 bs = push_bit 56 (ucast (bs ! 0)) OR push_bit 48 (ucast (bs ! 1))
     OR push_bit 40 (ucast (bs ! 2)) OR push_bit 32 (ucast (bs ! 3))
     OR push_bit 24 (ucast (bs ! 4)) OR push_bit 16 (ucast (bs ! 5))
     OR push_bit 8 (ucast (bs ! 6)) OR ucast (bs ! 7)"

definition bytes8 :: "u8 \<Rightarrow> byte list" where
  "bytes8 c = [c]"

definition bytes16 :: "u16 \<Rightarrow> byte list" where
  "bytes16 w = [ucast (drop_bit 8 w), ucast w]"

definition bytes32 :: "u32 \<Rightarrow> byte list" where
  "bytes32 l = [ucast (drop_bit 24 l), ucast (drop_bit 16 l), ucast (drop_bit 8 l), ucast l]"

definition bytes64 :: "u64 \<Rightarrow> byte list" where
  "bytes64 q = [ucast (drop_bit 56 q), ucast (drop_bit 48 q), ucast (drop_bit 40 q),
     ucast (drop_bit 32 q), ucast (drop_bit 24 q), ucast (drop_bit 16 q),
     ucast (drop_bit 8 q), ucast q]"

lemma bit_byte_of_word:
  fixes w :: "'a :: len word"
  shows "bit (push_bit k (ucast (ucast (drop_bit k w) :: byte)) :: 'a word) n
    \<longleftrightarrow> k \<le> n \<and> n < k + 8 \<and> bit w n"
  by (auto simp: bit_simps dest: bit_imp_le_length)

lemma bit_low_byte:
  fixes w :: "'a :: len word"
  shows "bit (ucast (ucast w :: byte) :: 'a word) n \<longleftrightarrow> n < 8 \<and> bit w n"
  by (auto simp: bit_simps dest: bit_imp_le_length)

lemma be8_bytes8 [codec_simps]: "be8 (bytes8 c) = c"
  by (simp add: be8_def bytes8_def)

lemma be16_bytes16 [codec_simps]: "be16 (bytes16 w) = w"
  by (rule bit_word_eqI)
    (auto simp: be16_def bytes16_def bit_or_iff bit_byte_of_word bit_low_byte)

lemma be32_bytes32 [codec_simps]: "be32 (bytes32 l) = l"
  by (rule bit_word_eqI)
    (auto simp: be32_def bytes32_def bit_or_iff bit_byte_of_word bit_low_byte)

lemma be64_bytes64 [codec_simps]: "be64 (bytes64 q) = q"
  by (rule bit_word_eqI)
    (auto simp: be64_def bytes64_def bit_or_iff bit_byte_of_word bit_low_byte)

lemma length_bytes [codec_simps]:
  "length (bytes8 c) = 1" "length (bytes16 w) = 2"
  "length (bytes32 l) = 4" "length (bytes64 q) = 8"
  by (simp_all add: bytes8_def bytes16_def bytes32_def bytes64_def)

end
