(* ===== verification/Prefix.thy ===== *)
theory Prefix
  imports Prelude
begin

text \<open>
  Address prefixes, \<^verbatim>\<open>lib/prefix.c\<close> and \<^verbatim>\<open>lib/prefix.h\<close>, in the \<^verbatim>\<open>HAVE_IPV6\<close> configuration.
  A \<^verbatim>\<open>struct prefix\<close> is a family, a bit length and the sixteen bytes of its address union in
  network byte order; the IPv4, IPv6 and link-state views are its first 4, 16 and 8 bytes.
  Byte accesses go through \<^verbatim>\<open>rd\<close>, so that an index past the union is the fault
  \<^verbatim>\<open>OutOfBounds\<close>. The lemmas relate the byte-and-mask code to the plain bit sequence
  \<^verbatim>\<open>pbits\<close> of a prefix.
\<close>

subsection \<open>Data\<close>

record prefix =
  family :: nat
  prefixlen :: nat
  u_prefix :: "byte list"

definition AF_UNSPEC :: nat where "AF_UNSPEC = 0"
definition AF_INET :: nat where "AF_INET = 2"
definition AF_INET6 :: nat where "AF_INET6 = 10"
definition AFI_IP :: nat where "AFI_IP = 1"
definition AFI_IP6 :: nat where "AFI_IP6 = 2"

definition IPV4_MAX_BITLEN :: nat where "IPV4_MAX_BITLEN = 32"
definition IPV6_MAX_BITLEN :: nat where "IPV6_MAX_BITLEN = 128"
definition IPV4_MAX_BYTELEN :: nat where "IPV4_MAX_BYTELEN = 4"
definition IPV6_MAX_BYTELEN :: nat where "IPV6_MAX_BYTELEN = 16"

definition PSIZE :: "nat \<Rightarrow> nat" where
  "PSIZE a = (a + 7) div 8"

definition maskbit :: "byte list" where
  "maskbit = [0x00, 0x80, 0xc0, 0xe0, 0xf0, 0xf8, 0xfc, 0xfe, 0xff]"

definition maskbytes6 :: "byte list list" where
  "maskbytes6 = [
      [0,0,0,0,0,0,0,0,0,0,0,0,0,0,0,0],
      [0x80,0,0,0,0,0,0,0,0,0,0,0,0,0,0,0],
      [0xc0,0,0,0,0,0,0,0,0,0,0,0,0,0,0,0],
      [0xe0,0,0,0,0,0,0,0,0,0,0,0,0,0,0,0],
      [0xf0,0,0,0,0,0,0,0,0,0,0,0,0,0,0,0],
      [0xf8,0,0,0,0,0,0,0,0,0,0,0,0,0,0,0],
      [0xfc,0,0,0,0,0,0,0,0,0,0,0,0,0,0,0],
      [0xfe,0,0,0,0,0,0,0,0,0,0,0,0,0,0,0],
      [0xff,0,0,0,0,0,0,0,0,0,0,0,0,0,0,0],
      [0xff,0x80,0,0,0,0,0,0,0,0,0,0,0,0,0,0],
      [0xff,0xc0,0,0,0,0,0,0,0,0,0,0,0,0,0,0],
      [0xff,0xe0,0,0,0,0,0,0,0,0,0,0,0,0,0,0],
      [0xff,0xf0,0,0,0,0,0,0,0,0,0,0,0,0,0,0],
      [0xff,0xf8,0,0,0,0,0,0,0,0,0,0,0,0,0,0],
      [0xff,0xfc,0,0,0,0,0,0,0,0,0,0,0,0,0,0],
      [0xff,0xfe,0,0,0,0,0,0,0,0,0,0,0,0,0,0],
      [0xff,0xff,0,0,0,0,0,0,0,0,0,0,0,0,0,0],
      [0xff,0xff,0x80,0,0,0,0,0,0,0,0,0,0,0,0,0],
      [0xff,0xff,0xc0,0,0,0,0,0,0,0,0,0,0,0,0,0],
      [0xff,0xff,0xe0,0,0,0,0,0,0,0,0,0,0,0,0,0],
      [0xff,0xff,0xf0,0,0,0,0,0,0,0,0,0,0,0,0,0],
      [0xff,0xff,0xf8,0,0,0,0,0,0,0,0,0,0,0,0,0],
      [0xff,0xff,0xfc,0,0,0,0,0,0,0,0,0,0,0,0,0],
      [0xff,0xff,0xfe,0,0,0,0,0,0,0,0,0,0,0,0,0],
      [0xff,0xff,0xff,0,0,0,0,0,0,0,0,0,0,0,0,0],
      [0xff,0xff,0xff,0x80,0,0,0,0,0,0,0,0,0,0,0,0],
      [0xff,0xff,0xff,0xc0,0,0,0,0,0,0,0,0,0,0,0,0],
      [0xff,0xff,0xff,0xe0,0,0,0,0,0,0,0,0,0,0,0,0],
      [0xff,0xff,0xff,0xf0,0,0,0,0,0,0,0,0,0,0,0,0],
      [0xff,0xff,0xff,0xf8,0,0,0,0,0,0,0,0,0,0,0,0],
      [0xff,0xff,0xff,0xfc,0,0,0,0,0,0,0,0,0,0,0,0],
      [0xff,0xff,0xff,0xfe,0,0,0,0,0,0,0,0,0,0,0,0],
      [0xff,0xff,0xff,0xff,0,0,0,0,0,0,0,0,0,0,0,0],
      [0xff,0xff,0xff,0xff,0x80,0,0,0,0,0,0,0,0,0,0,0],
      [0xff,0xff,0xff,0xff,0xc0,0,0,0,0,0,0,0,0,0,0,0],
      [0xff,0xff,0xff,0xff,0xe0,0,0,0,0,0,0,0,0,0,0,0],
      [0xff,0xff,0xff,0xff,0xf0,0,0,0,0,0,0,0,0,0,0,0],
      [0xff,0xff,0xff,0xff,0xf8,0,0,0,0,0,0,0,0,0,0,0],
      [0xff,0xff,0xff,0xff,0xfc,0,0,0,0,0,0,0,0,0,0,0],
      [0xff,0xff,0xff,0xff,0xfe,0,0,0,0,0,0,0,0,0,0,0],
      [0xff,0xff,0xff,0xff,0xff,0,0,0,0,0,0,0,0,0,0,0],
      [0xff,0xff,0xff,0xff,0xff,0x80,0,0,0,0,0,0,0,0,0,0],
      [0xff,0xff,0xff,0xff,0xff,0xc0,0,0,0,0,0,0,0,0,0,0],
      [0xff,0xff,0xff,0xff,0xff,0xe0,0,0,0,0,0,0,0,0,0,0],
      [0xff,0xff,0xff,0xff,0xff,0xf0,0,0,0,0,0,0,0,0,0,0],
      [0xff,0xff,0xff,0xff,0xff,0xf8,0,0,0,0,0,0,0,0,0,0],
      [0xff,0xff,0xff,0xff,0xff,0xfc,0,0,0,0,0,0,0,0,0,0],
      [0xff,0xff,0xff,0xff,0xff,0xfe,0,0,0,0,0,0,0,0,0,0],
      [0xff,0xff,0xff,0xff,0xff,0xff,0,0,0,0,0,0,0,0,0,0],
      [0xff,0xff,0xff,0xff,0xff,0xff,0x80,0,0,0,0,0,0,0,0,0],
      [0xff,0xff,0xff,0xff,0xff,0xff,0xc0,0,0,0,0,0,0,0,0,0],
      [0xff,0xff,0xff,0xff,0xff,0xff,0xe0,0,0,0,0,0,0,0,0,0],
      [0xff,0xff,0xff,0xff,0xff,0xff,0xf0,0,0,0,0,0,0,0,0,0],
      [0xff,0xff,0xff,0xff,0xff,0xff,0xf8,0,0,0,0,0,0,0,0,0],
      [0xff,0xff,0xff,0xff,0xff,0xff,0xfc,0,0,0,0,0,0,0,0,0],
      [0xff,0xff,0xff,0xff,0xff,0xff,0xfe,0,0,0,0,0,0,0,0,0],
      [0xff,0xff,0xff,0xff,0xff,0xff,0xff,0,0,0,0,0,0,0,0,0],
      [0xff,0xff,0xff,0xff,0xff,0xff,0xff,0x80,0,0,0,0,0,0,0,0],
      [0xff,0xff,0xff,0xff,0xff,0xff,0xff,0xc0,0,0,0,0,0,0,0,0],
      [0xff,0xff,0xff,0xff,0xff,0xff,0xff,0xe0,0,0,0,0,0,0,0,0],
      [0xff,0xff,0xff,0xff,0xff,0xff,0xff,0xf0,0,0,0,0,0,0,0,0],
      [0xff,0xff,0xff,0xff,0xff,0xff,0xff,0xf8,0,0,0,0,0,0,0,0],
      [0xff,0xff,0xff,0xff,0xff,0xff,0xff,0xfc,0,0,0,0,0,0,0,0],
      [0xff,0xff,0xff,0xff,0xff,0xff,0xff,0xfe,0,0,0,0,0,0,0,0],
      [0xff,0xff,0xff,0xff,0xff,0xff,0xff,0xff,0,0,0,0,0,0,0,0],
      [0xff,0xff,0xff,0xff,0xff,0xff,0xff,0xff,0x80,0,0,0,0,0,0,0],
      [0xff,0xff,0xff,0xff,0xff,0xff,0xff,0xff,0xc0,0,0,0,0,0,0,0],
      [0xff,0xff,0xff,0xff,0xff,0xff,0xff,0xff,0xe0,0,0,0,0,0,0,0],
      [0xff,0xff,0xff,0xff,0xff,0xff,0xff,0xff,0xf0,0,0,0,0,0,0,0],
      [0xff,0xff,0xff,0xff,0xff,0xff,0xff,0xff,0xf8,0,0,0,0,0,0,0],
      [0xff,0xff,0xff,0xff,0xff,0xff,0xff,0xff,0xfc,0,0,0,0,0,0,0],
      [0xff,0xff,0xff,0xff,0xff,0xff,0xff,0xff,0xfe,0,0,0,0,0,0,0],
      [0xff,0xff,0xff,0xff,0xff,0xff,0xff,0xff,0xff,0,0,0,0,0,0,0],
      [0xff,0xff,0xff,0xff,0xff,0xff,0xff,0xff,0xff,0x80,0,0,0,0,0,0],
      [0xff,0xff,0xff,0xff,0xff,0xff,0xff,0xff,0xff,0xc0,0,0,0,0,0,0],
      [0xff,0xff,0xff,0xff,0xff,0xff,0xff,0xff,0xff,0xe0,0,0,0,0,0,0],
      [0xff,0xff,0xff,0xff,0xff,0xff,0xff,0xff,0xff,0xf0,0,0,0,0,0,0],
      [0xff,0xff,0xff,0xff,0xff,0xff,0xff,0xff,0xff,0xf8,0,0,0,0,0,0],
      [0xff,0xff,0xff,0xff,0xff,0xff,0xff,0xff,0xff,0xfc,0,0,0,0,0,0],
      [0xff,0xff,0xff,0xff,0xff,0xff,0xff,0xff,0xff,0xfe,0,0,0,0,0,0],
      [0xff,0xff,0xff,0xff,0xff,0xff,0xff,0xff,0xff,0xff,0,0,0,0,0,0],
      [0xff,0xff,0xff,0xff,0xff,0xff,0xff,0xff,0xff,0xff,0x80,0,0,0,0,0],
      [0xff,0xff,0xff,0xff,0xff,0xff,0xff,0xff,0xff,0xff,0xc0,0,0,0,0,0],
      [0xff,0xff,0xff,0xff,0xff,0xff,0xff,0xff,0xff,0xff,0xe0,0,0,0,0,0],
      [0xff,0xff,0xff,0xff,0xff,0xff,0xff,0xff,0xff,0xff,0xf0,0,0,0,0,0],
      [0xff,0xff,0xff,0xff,0xff,0xff,0xff,0xff,0xff,0xff,0xf8,0,0,0,0,0],
      [0xff,0xff,0xff,0xff,0xff,0xff,0xff,0xff,0xff,0xff,0xfc,0,0,0,0,0],
      [0xff,0xff,0xff,0xff,0xff,0xff,0xff,0xff,0xff,0xff,0xfe,0,0,0,0,0],
      [0xff,0xff,0xff,0xff,0xff,0xff,0xff,0xff,0xff,0xff,0xff,0,0,0,0,0],
      [0xff,0xff,0xff,0xff,0xff,0xff,0xff,0xff,0xff,0xff,0xff,0x80,0,0,0,0],
      [0xff,0xff,0xff,0xff,0xff,0xff,0xff,0xff,0xff,0xff,0xff,0xc0,0,0,0,0],
      [0xff,0xff,0xff,0xff,0xff,0xff,0xff,0xff,0xff,0xff,0xff,0xe0,0,0,0,0],
      [0xff,0xff,0xff,0xff,0xff,0xff,0xff,0xff,0xff,0xff,0xff,0xf0,0,0,0,0],
      [0xff,0xff,0xff,0xff,0xff,0xff,0xff,0xff,0xff,0xff,0xff,0xf8,0,0,0,0],
      [0xff,0xff,0xff,0xff,0xff,0xff,0xff,0xff,0xff,0xff,0xff,0xfc,0,0,0,0],
      [0xff,0xff,0xff,0xff,0xff,0xff,0xff,0xff,0xff,0xff,0xff,0xfe,0,0,0,0],
      [0xff,0xff,0xff,0xff,0xff,0xff,0xff,0xff,0xff,0xff,0xff,0xff,0,0,0,0],
      [0xff,0xff,0xff,0xff,0xff,0xff,0xff,0xff,0xff,0xff,0xff,0xff,0x80,0,0,0],
      [0xff,0xff,0xff,0xff,0xff,0xff,0xff,0xff,0xff,0xff,0xff,0xff,0xc0,0,0,0],
      [0xff,0xff,0xff,0xff,0xff,0xff,0xff,0xff,0xff,0xff,0xff,0xff,0xe0,0,0,0],
      [0xff,0xff,0xff,0xff,0xff,0xff,0xff,0xff,0xff,0xff,0xff,0xff,0xf0,0,0,0],
      [0xff,0xff,0xff,0xff,0xff,0xff,0xff,0xff,0xff,0xff,0xff,0xff,0xf8,0,0,0],
      [0xff,0xff,0xff,0xff,0xff,0xff,0xff,0xff,0xff,0xff,0xff,0xff,0xfc,0,0,0],
      [0xff,0xff,0xff,0xff,0xff,0xff,0xff,0xff,0xff,0xff,0xff,0xff,0xfe,0,0,0],
      [0xff,0xff,0xff,0xff,0xff,0xff,0xff,0xff,0xff,0xff,0xff,0xff,0xff,0,0,0],
      [0xff,0xff,0xff,0xff,0xff,0xff,0xff,0xff,0xff,0xff,0xff,0xff,0xff,0x80,0,0],
      [0xff,0xff,0xff,0xff,0xff,0xff,0xff,0xff,0xff,0xff,0xff,0xff,0xff,0xc0,0,0],
      [0xff,0xff,0xff,0xff,0xff,0xff,0xff,0xff,0xff,0xff,0xff,0xff,0xff,0xe0,0,0],
      [0xff,0xff,0xff,0xff,0xff,0xff,0xff,0xff,0xff,0xff,0xff,0xff,0xff,0xf0,0,0],
      [0xff,0xff,0xff,0xff,0xff,0xff,0xff,0xff,0xff,0xff,0xff,0xff,0xff,0xf8,0,0],
      [0xff,0xff,0xff,0xff,0xff,0xff,0xff,0xff,0xff,0xff,0xff,0xff,0xff,0xfc,0,0],
      [0xff,0xff,0xff,0xff,0xff,0xff,0xff,0xff,0xff,0xff,0xff,0xff,0xff,0xfe,0,0],
      [0xff,0xff,0xff,0xff,0xff,0xff,0xff,0xff,0xff,0xff,0xff,0xff,0xff,0xff,0,0],
      [0xff,0xff,0xff,0xff,0xff,0xff,0xff,0xff,0xff,0xff,0xff,0xff,0xff,0xff,0x80,0],
      [0xff,0xff,0xff,0xff,0xff,0xff,0xff,0xff,0xff,0xff,0xff,0xff,0xff,0xff,0xc0,0],
      [0xff,0xff,0xff,0xff,0xff,0xff,0xff,0xff,0xff,0xff,0xff,0xff,0xff,0xff,0xe0,0],
      [0xff,0xff,0xff,0xff,0xff,0xff,0xff,0xff,0xff,0xff,0xff,0xff,0xff,0xff,0xf0,0],
      [0xff,0xff,0xff,0xff,0xff,0xff,0xff,0xff,0xff,0xff,0xff,0xff,0xff,0xff,0xf8,0],
      [0xff,0xff,0xff,0xff,0xff,0xff,0xff,0xff,0xff,0xff,0xff,0xff,0xff,0xff,0xfc,0],
      [0xff,0xff,0xff,0xff,0xff,0xff,0xff,0xff,0xff,0xff,0xff,0xff,0xff,0xff,0xfe,0],
      [0xff,0xff,0xff,0xff,0xff,0xff,0xff,0xff,0xff,0xff,0xff,0xff,0xff,0xff,0xff,0],
      [0xff,0xff,0xff,0xff,0xff,0xff,0xff,0xff,0xff,0xff,0xff,0xff,0xff,0xff,0xff,0x80],
      [0xff,0xff,0xff,0xff,0xff,0xff,0xff,0xff,0xff,0xff,0xff,0xff,0xff,0xff,0xff,0xc0],
      [0xff,0xff,0xff,0xff,0xff,0xff,0xff,0xff,0xff,0xff,0xff,0xff,0xff,0xff,0xff,0xe0],
      [0xff,0xff,0xff,0xff,0xff,0xff,0xff,0xff,0xff,0xff,0xff,0xff,0xff,0xff,0xff,0xf0],
      [0xff,0xff,0xff,0xff,0xff,0xff,0xff,0xff,0xff,0xff,0xff,0xff,0xff,0xff,0xff,0xf8],
      [0xff,0xff,0xff,0xff,0xff,0xff,0xff,0xff,0xff,0xff,0xff,0xff,0xff,0xff,0xff,0xfc],
      [0xff,0xff,0xff,0xff,0xff,0xff,0xff,0xff,0xff,0xff,0xff,0xff,0xff,0xff,0xff,0xfe],
      [0xff,0xff,0xff,0xff,0xff,0xff,0xff,0xff,0xff,0xff,0xff,0xff,0xff,0xff,0xff,0xff]]"

text \<open>One byte of a block, with the bound made explicit.\<close>

definition rd :: "byte list \<Rightarrow> nat \<Rightarrow> byte res" where
  "rd bs i = (if i < length bs then Inr (bs ! i) else Inl OutOfBounds)"

subsection \<open>Bits, families and comparisons\<close>

definition prefix_bit :: "byte list \<Rightarrow> nat \<Rightarrow> nat res" where
  "prefix_bit bs plen =
     (let offset = plen div 8; shift = 7 - plen mod 8
      in bindE (rd bs offset) (\<lambda>b. Inr (unat (drop_bit shift b AND 1))))"

definition afi2family :: "nat \<Rightarrow> nat" where
  "afi2family afi = (if afi = AFI_IP then AF_INET else if afi = AFI_IP6 then AF_INET6 else 0)"

definition family2afi :: "nat \<Rightarrow> nat" where
  "family2afi fam = (if fam = AF_INET then AFI_IP else if fam = AF_INET6 then AFI_IP6 else 0)"

text \<open>The test \<^verbatim>\<open>maskbit[shift] & (np[offset] ^ pp[offset])\<close> and the loop \<^verbatim>\<open>while (offset--)\<close>
  shared by \<^verbatim>\<open>prefix_match\<close> and \<^verbatim>\<open>prefix_cmp\<close>.\<close>

definition mask_differ :: "nat \<Rightarrow> byte list \<Rightarrow> byte list \<Rightarrow> nat \<Rightarrow> bool res" where
  "mask_differ shift np pp offset =
     bindE (rd np offset) (\<lambda>a. bindE (rd pp offset) (\<lambda>b.
       Inr (maskbit ! shift AND (a XOR b) \<noteq> 0)))"

fun same_bytes :: "byte list \<Rightarrow> byte list \<Rightarrow> nat \<Rightarrow> bool res" where
  "same_bytes np pp 0 = Inr True"
| "same_bytes np pp (Suc k) =
     bindE (rd np k) (\<lambda>a. bindE (rd pp k) (\<lambda>b.
       if a \<noteq> b then Inr False else same_bytes np pp k))"

definition prefix_match :: "prefix \<Rightarrow> prefix \<Rightarrow> bool res" where
  "prefix_match n p =
     (if prefixlen n > prefixlen p then Inr False
      else let np = u_prefix n; pp = u_prefix p;
               offset = prefixlen n div 8; shift = prefixlen n mod 8
           in bindE (if shift \<noteq> 0 then mask_differ shift np pp offset else Inr False) (\<lambda>d.
                if d then Inr False else same_bytes np pp offset))"

definition prefix_copy :: "prefix \<Rightarrow> prefix \<Rightarrow> prefix res" where
  "prefix_copy dest src =
     (let dest' = dest\<lparr>family := family src, prefixlen := prefixlen src\<rparr>;
          put = (\<lambda>n. Inr (dest'\<lparr>u_prefix := take n (u_prefix src) @ drop n (u_prefix dest)\<rparr>))
      in if family src = AF_INET then put 4
         else if family src = AF_INET6 then put 16
         else if family src = AF_UNSPEC then put 8
         else Inl Abort)"

definition prefix_same :: "prefix \<Rightarrow> prefix \<Rightarrow> bool" where
  "prefix_same p1 p2 =
     (if family p1 = family p2 \<and> prefixlen p1 = prefixlen p2
      then if family p1 = AF_INET \<and> take 4 (u_prefix p1) = take 4 (u_prefix p2) then True
           else if family p1 = AF_INET6 \<and> take 16 (u_prefix p1) = take 16 (u_prefix p2) then True
           else False
      else False)"

definition prefix_cmp :: "prefix \<Rightarrow> prefix \<Rightarrow> int res" where
  "prefix_cmp p1 p2 =
     (let pp1 = u_prefix p1; pp2 = u_prefix p2 in
      if family p1 \<noteq> family p2 \<or> prefixlen p1 \<noteq> prefixlen p2 then Inr 1
      else let offset = prefixlen p1 div 8; shift = prefixlen p1 mod 8
           in bindE (if shift \<noteq> 0 then mask_differ shift pp1 pp2 offset else Inr False) (\<lambda>d.
                if d then Inr 1
                else bindE (same_bytes pp1 pp2 offset) (\<lambda>s. Inr (if s then 0 else 1))))"

text \<open>\<^verbatim>\<open>prefix_common_bits\<close>: the byte loop, then the bit loop on the first differing byte.\<close>

fun first_diff_byte :: "byte list \<Rightarrow> byte list \<Rightarrow> nat \<Rightarrow> nat \<Rightarrow> nat res" where
  "first_diff_byte pp1 pp2 pos 0 = Inr pos"
| "first_diff_byte pp1 pp2 pos (Suc left) =
     bindE (rd pp1 pos) (\<lambda>a. bindE (rd pp2 pos) (\<lambda>b.
       if a \<noteq> b then Inr pos else first_diff_byte pp1 pp2 (Suc pos) left))"

fun first_set_bit :: "byte \<Rightarrow> nat \<Rightarrow> nat \<Rightarrow> nat" where
  "first_set_bit x b 0 = b"
| "first_set_bit x b (Suc left) =
     (if x AND push_bit (7 - b) 1 \<noteq> 0 then b else first_set_bit x (Suc b) left)"

definition prefix_blen :: "prefix \<Rightarrow> nat" where
  "prefix_blen p = (if family p = AF_INET then IPV4_MAX_BYTELEN
     else if family p = AF_INET6 then IPV6_MAX_BYTELEN else 0)"

definition prefix_common_bits :: "prefix \<Rightarrow> prefix \<Rightarrow> int res" where
  "prefix_common_bits p1 p2 =
     (let pp1 = u_prefix p1; pp2 = u_prefix p2;
          len = (if family p1 = AF_INET6 then IPV6_MAX_BYTELEN
                 else if family p1 = AF_INET then IPV4_MAX_BYTELEN else 0)
      in if family p1 \<noteq> family p2 \<or> len = 0 then Inr (-1)
         else bindE (first_diff_byte pp1 pp2 0 len) (\<lambda>pos.
                if pos = len then Inr (int (pos * 8))
                else bindE (rd pp1 pos) (\<lambda>a. bindE (rd pp2 pos) (\<lambda>b.
                  Inr (int (pos * 8 + first_set_bit (a XOR b) 0 8))))))"

definition prefix_family_str :: "prefix \<Rightarrow> string" where
  "prefix_family_str p = (if family p = AF_INET then ''inet''
     else if family p = AF_INET6 then ''inet6'' else ''unspec'')"

subsection \<open>Masks\<close>

definition masklen2ip :: "int \<Rightarrow> byte list res" where
  "masklen2ip masklen =
     (if 0 \<le> masklen \<and> masklen \<le> int IPV4_MAX_BITLEN
      then Inr (bytes32 (ucast (push_bit (32 - nat masklen) (0xffffffff :: u64))))
      else Inl Abort)"

text \<open>\<^verbatim>\<open>__builtin_clz\<close> on a non-zero argument: the number of leading zero bits.\<close>

definition clz32 :: "u32 \<Rightarrow> nat" where
  "clz32 w = length (takeWhile (\<lambda>i. \<not> bit w (31 - i)) [0..<32])"

definition ip_masklen :: "byte list \<Rightarrow> nat" where
  "ip_masklen netmask =
     (let tmp = NOT (be32 netmask) in if tmp \<noteq> 0 then clz32 tmp else 32)"

definition and_bytes :: "byte list \<Rightarrow> byte list \<Rightarrow> byte list" where
  "and_bytes xs ys = map2 (AND) xs ys"

definition set_prefix4 :: "prefix \<Rightarrow> byte list \<Rightarrow> prefix" where
  "set_prefix4 p a = p\<lparr>u_prefix := a @ drop 4 (u_prefix p)\<rparr>"

definition apply_mask_ipv4 :: "prefix \<Rightarrow> prefix res" where
  "apply_mask_ipv4 p =
     bindE (masklen2ip (int (prefixlen p))) (\<lambda>mask.
       Inr (set_prefix4 p (and_bytes (take 4 (u_prefix p)) mask)))"

definition prefix_ipv4_any :: "prefix \<Rightarrow> bool" where
  "prefix_ipv4_any p = (take 4 (u_prefix p) = [0, 0, 0, 0] \<and> prefixlen p = 0)"

text \<open>The two loops of \<^verbatim>\<open>ip6_masklen\<close>: the first one reads \<^verbatim>\<open>*pnt\<close> before it tests
  \<^verbatim>\<open>len\<close>, the second shifts one byte left until nothing is left of it.\<close>

function ff_bytes :: "byte list \<Rightarrow> nat \<Rightarrow> nat res" where
  "ff_bytes bs len =
     bindE (rd bs (len div 8)) (\<lambda>b.
       if b = 0xff \<and> len < IPV6_MAX_BITLEN then ff_bytes bs (len + 8) else Inr len)"
  by pat_completeness auto
termination
  by (relation "measure (\<lambda>(bs, len). IPV6_MAX_BITLEN - len)") auto

lemma shl_byte_decreases:
  fixes v :: byte
  assumes "v \<noteq> 0"
  shows "card {i. i < 8 \<and> (\<exists>j\<le>i. bit (push_bit 1 v) j)} < card {i. i < 8 \<and> (\<exists>j\<le>i. bit v j)}"
proof (rule psubset_card_mono)
  obtain k where k: "bit v k" and least: "\<And>j. j < k \<Longrightarrow> \<not> bit v j"
  proof -
    from assms obtain n where "bit v n"
      using bit_word_eqI[of v 0] by auto
    then show ?thesis
      using that LeastI[of "bit v" n] not_less_Least by blast
  qed
  have k8: "k < 8" using bit_imp_le_length [OF k] by simp
  have sub: "{i. i < 8 \<and> (\<exists>j\<le>i. bit (push_bit 1 v) j)} \<subseteq> {i. i < 8 \<and> (\<exists>j\<le>i. bit v j)}"
  proof (rule subsetI)
    fix i assume "i \<in> {i. i < 8 \<and> (\<exists>j\<le>i. bit (push_bit 1 v) j)}"
    then obtain j where "i < 8" "j \<le> i" "bit v (j - 1)"
      unfolding bit_push_bit_iff by auto
    then show "i \<in> {i. i < 8 \<and> (\<exists>j\<le>i. bit v j)}"
      using le_trans[OF diff_le_self] by blast
  qed
  have notin: "k \<notin> {i. i < 8 \<and> (\<exists>j\<le>i. bit (push_bit 1 v) j)}"
  proof
    assume "k \<in> {i. i < 8 \<and> (\<exists>j\<le>i. bit (push_bit 1 v) j)}"
    then obtain j where "1 \<le> j" "j \<le> k" "bit v (j - 1)"
      unfolding bit_push_bit_iff by auto
    with least[of "j - 1"] show False by simp
  qed
  show "{i. i < 8 \<and> (\<exists>j\<le>i. bit (push_bit 1 v) j)} \<subset> {i. i < 8 \<and> (\<exists>j\<le>i. bit v j)}"
    using sub notin k k8 by blast
qed simp
function shift_out :: "byte \<Rightarrow> nat \<Rightarrow> nat" where
  "shift_out val len = (if val \<noteq> 0 then shift_out (push_bit 1 val) (len + 1) else len)"
  by pat_completeness auto
termination
proof (relation "measure (\<lambda>(v, len). card {i. i < 8 \<and> (\<exists>j\<le>i. bit v j)})")
  fix val :: byte and len :: nat
  assume "val \<noteq> 0"
  then show "((push_bit 1 val, len + 1), val, len)
      \<in> measure (\<lambda>(v, len). card {i. i < 8 \<and> (\<exists>j\<le>i. bit v j)})"
    unfolding in_measure case_prod_conv by (rule shl_byte_decreases)
qed simp

definition ip6_masklen :: "byte list \<Rightarrow> nat res" where
  "ip6_masklen netmask =
     bindE (ff_bytes netmask 0) (\<lambda>len.
       if len < IPV6_MAX_BITLEN
       then bindE (rd netmask (len div 8)) (\<lambda>val. Inr (shift_out val len))
       else Inr len)"

definition masklen2ip6 :: "int \<Rightarrow> byte list res" where
  "masklen2ip6 masklen =
     (if 0 \<le> masklen \<and> masklen \<le> int IPV6_MAX_BITLEN
      then Inr (maskbytes6 ! nat masklen) else Inl Abort)"

definition apply_mask_ipv6 :: "prefix \<Rightarrow> prefix" where
  "apply_mask_ipv6 p =
     (let index = prefixlen p div 8 in
      if index < 16
      then let bs = u_prefix p; offset = prefixlen p mod 8
           in p\<lparr>u_prefix := take index bs @ [bs ! index AND maskbit ! offset] @ replicate (15 - index) 0\<rparr>
      else p)"

definition apply_mask :: "prefix \<Rightarrow> prefix res" where
  "apply_mask p = (if family p = AF_INET then apply_mask_ipv4 p
     else if family p = AF_INET6 then Inr (apply_mask_ipv6 p) else Inr p)"

definition IN_CLASSA :: "u32 \<Rightarrow> bool" where "IN_CLASSA a = (a AND 0x80000000 = 0)"
definition IN_CLASSB :: "u32 \<Rightarrow> bool" where "IN_CLASSB a = (a AND 0xc0000000 = 0x80000000)"
definition IN_CLASSC :: "u32 \<Rightarrow> bool" where "IN_CLASSC a = (a AND 0xe0000000 = 0xc0000000)"

definition apply_classful_mask_ipv4 :: "prefix \<Rightarrow> prefix res" where
  "apply_classful_mask_ipv4 p =
     (let destination = be32 (take 4 (u_prefix p)) in
      if prefixlen p = IPV4_MAX_BITLEN then Inr p
      else if IN_CLASSC destination then apply_mask_ipv4 (p\<lparr>prefixlen := 24\<rparr>)
      else if IN_CLASSB destination then apply_mask_ipv4 (p\<lparr>prefixlen := 16\<rparr>)
      else apply_mask_ipv4 (p\<lparr>prefixlen := 8\<rparr>))"

definition ipv4_network_addr :: "u32 \<Rightarrow> int \<Rightarrow> u32 res" where
  "ipv4_network_addr hostaddr masklen =
     bindE (masklen2ip masklen) (\<lambda>mask. Inr (hostaddr AND be32 mask))"

definition ipv4_broadcast_addr :: "u32 \<Rightarrow> int \<Rightarrow> u32 res" where
  "ipv4_broadcast_addr hostaddr masklen =
     bindE (masklen2ip masklen) (\<lambda>mask.
       Inr (if masklen \<noteq> int IPV4_MAX_BITLEN - 1
            then hostaddr OR NOT (be32 mask)
            else hostaddr XOR NOT (be32 mask)))"

subsection \<open>Text form\<close>

text \<open>
  C strings are lists of characters without the terminating NUL. \<^verbatim>\<open>atoi\<close> is the C library
  function: white space, an optional sign, decimal digits up to the first other character; the
  value is clamped to \<^verbatim>\<open>long\<close> and truncated to \<^verbatim>\<open>int\<close>. The address converters
  \<^verbatim>\<open>inet_aton\<close>, \<^verbatim>\<open>inet_pton\<close> and \<^verbatim>\<open>inet_ntop\<close> are parameters.
\<close>

definition isspace :: "char \<Rightarrow> bool" where
  "isspace c = (c = CHR '' '' \<or> (9 \<le> (of_char c :: nat) \<and> (of_char c :: nat) \<le> 13))"

definition isdigit :: "char \<Rightarrow> bool" where
  "isdigit c = (48 \<le> (of_char c :: nat) \<and> (of_char c :: nat) \<le> 57)"

fun digits_value :: "int \<Rightarrow> string \<Rightarrow> int" where
  "digits_value acc [] = acc"
| "digits_value acc (c # cs) =
     (if isdigit c then digits_value (acc * 10 + (int (of_char c) - 48)) cs else acc)"

definition long_clamp :: "int \<Rightarrow> int" where
  "long_clamp v = max (- (2 ^ 63)) (min (2 ^ 63 - 1) v)"

definition to_int :: "int \<Rightarrow> int" where
  "to_int v = (v + 2 ^ 31) mod 2 ^ 32 - 2 ^ 31"

definition atoi :: "string \<Rightarrow> int" where
  "atoi str = to_int (long_clamp (case dropWhile isspace str of
       [] \<Rightarrow> 0
     | c # cs \<Rightarrow> if c = CHR ''-'' then - digits_value 0 cs
                else if c = CHR ''+'' then digits_value 0 cs
                else digits_value 0 (c # cs)))"

definition to_u_char :: "int \<Rightarrow> nat" where
  "to_u_char v = nat (v mod 256)"

definition strchr :: "string \<Rightarrow> char \<Rightarrow> (string \<times> string) option" where
  "strchr str c = (case dropWhile (\<lambda>x. x \<noteq> c) str of
       [] \<Rightarrow> None | _ # rest \<Rightarrow> Some (takeWhile (\<lambda>x. x \<noteq> c) str, rest))"

definition str2prefix_ipv4 :: "(string \<Rightarrow> byte list option) \<Rightarrow> string \<Rightarrow> prefix \<Rightarrow> nat \<times> prefix" where
  "str2prefix_ipv4 inet_aton str p =
     (case strchr str CHR ''/'' of
        None \<Rightarrow>
          (case inet_aton str of
             None \<Rightarrow> (0, p)
           | Some a \<Rightarrow> (1, (set_prefix4 p a)\<lparr>family := AF_INET, prefixlen := IPV4_MAX_BITLEN\<rparr>))
      | Some (cp, rest) \<Rightarrow>
          let (ret, p') = (case inet_aton cp of None \<Rightarrow> (0, p) | Some a \<Rightarrow> (1, set_prefix4 p a));
              plen = to_u_char (atoi rest)
          in if plen > IPV4_MAX_BITLEN then (0, p')
             else (ret, p'\<lparr>family := AF_INET, prefixlen := plen\<rparr>))"

definition str2prefix_ipv6 :: "(string \<Rightarrow> byte list option) \<Rightarrow> string \<Rightarrow> prefix \<Rightarrow> nat \<times> prefix" where
  "str2prefix_ipv6 inet_pton str p =
     (case strchr str CHR ''/'' of
        None \<Rightarrow>
          (case inet_pton str of
             None \<Rightarrow> (0, p)
           | Some a \<Rightarrow> (1, p\<lparr>u_prefix := a, prefixlen := IPV6_MAX_BITLEN, family := AF_INET6\<rparr>))
      | Some (cp, rest) \<Rightarrow>
          (case inet_pton cp of
             None \<Rightarrow> (0, p)
           | Some a \<Rightarrow>
               let plen = to_u_char (atoi rest)
               in if plen > IPV6_MAX_BITLEN then (0, p\<lparr>u_prefix := a\<rparr>)
                  else (1, p\<lparr>u_prefix := a, prefixlen := plen, family := AF_INET6\<rparr>)))"

definition str2prefix :: "(string \<Rightarrow> byte list option) \<Rightarrow> (string \<Rightarrow> byte list option) \<Rightarrow>
    string \<Rightarrow> prefix \<Rightarrow> nat \<times> prefix" where
  "str2prefix inet_aton inet_pton str p =
     (let (ret, p') = str2prefix_ipv4 inet_aton str p in
      if ret \<noteq> 0 then (ret, p')
      else let (ret', p'') = str2prefix_ipv6 inet_pton str p' in
           if ret' \<noteq> 0 then (ret', p'') else (0, p''))"

text \<open>\<^verbatim>\<open>printf("%d")\<close> of a non-negative value, and the \<^verbatim>\<open>snprintf\<close> truncation.\<close>

fun dec_str :: "nat \<Rightarrow> string" where
  "dec_str n = (if n < 10 then [char_of (48 + n)] else dec_str (n div 10) @ [char_of (48 + n mod 10)])"

definition prefix2str :: "(nat \<Rightarrow> byte list \<Rightarrow> string) \<Rightarrow> prefix \<Rightarrow> nat \<Rightarrow> string" where
  "prefix2str inet_ntop p sz =
     take (sz - 1) (inet_ntop (family p) (u_prefix p) @ ''/'' @ dec_str (prefixlen p))"

definition all_digit :: "string \<Rightarrow> bool" where
  "all_digit str = list_all isdigit str"

definition netmask_str2prefix_str ::
    "(string \<Rightarrow> byte list option) \<Rightarrow> string \<Rightarrow> string option \<Rightarrow> string option" where
  "netmask_str2prefix_str inet_aton net_str mask_str =
     (case inet_aton net_str of
        None \<Rightarrow> None
      | Some network \<Rightarrow>
          (case mask_str of
             Some ms \<Rightarrow>
               (case inet_aton ms of
                  None \<Rightarrow> None
                | Some msk \<Rightarrow> Some (net_str @ ''/'' @ dec_str (ip_masklen msk)))
           | None \<Rightarrow>
               let destination = be32 network in
               if destination = 0 then Some (net_str @ ''/'' @ dec_str 0)
               else if IN_CLASSC destination then Some (net_str @ ''/'' @ dec_str 24)
               else if IN_CLASSB destination then Some (net_str @ ''/'' @ dec_str 16)
               else if IN_CLASSA destination then Some (net_str @ ''/'' @ dec_str 8)
               else None))"

subsection \<open>Socket addresses\<close>

text \<open>The part of \<^verbatim>\<open>union sockunion\<close> these conversions use: the family and the address bytes
  of its \<^verbatim>\<open>sin\<close> and \<^verbatim>\<open>sin6\<close> views.\<close>

record sockunion =
  sa_family :: nat
  sin_addr :: "byte list"
  sin6_addr :: "byte list"

definition prefix_new :: prefix where
  "prefix_new = \<lparr>family = 0, prefixlen = 0, u_prefix = replicate 16 0\<rparr>"

definition prefix_ipv4_new :: prefix where
  "prefix_ipv4_new = prefix_new\<lparr>family := AF_INET\<rparr>"

definition prefix_ipv6_new :: prefix where
  "prefix_ipv6_new = prefix_new\<lparr>family := AF_INET6\<rparr>"

definition sockunion2prefix :: "sockunion \<Rightarrow> sockunion \<Rightarrow> prefix option res" where
  "sockunion2prefix dest msk =
     (if sa_family dest = AF_INET
      then Inr (Some ((set_prefix4 prefix_ipv4_new (sin_addr dest))
             \<lparr>prefixlen := ip_masklen (sin_addr msk)\<rparr>))
      else if sa_family dest = AF_INET6
      then bindE (ip6_masklen (sin6_addr msk)) (\<lambda>n.
             Inr (Some (prefix_ipv6_new\<lparr>prefixlen := n, u_prefix := sin6_addr dest\<rparr>)))
      else Inr None)"

definition sockunion2hostprefix :: "sockunion \<Rightarrow> prefix option" where
  "sockunion2hostprefix su =
     (if sa_family su = AF_INET
      then Some ((set_prefix4 prefix_ipv4_new (sin_addr su))\<lparr>prefixlen := IPV4_MAX_BITLEN\<rparr>)
      else if sa_family su = AF_INET6
      then Some (prefix_ipv6_new\<lparr>prefixlen := IPV6_MAX_BITLEN, u_prefix := sin6_addr su\<rparr>)
      else None)"

definition prefix2sockunion :: "prefix \<Rightarrow> sockunion" where
  "prefix2sockunion p =
     (let su = \<lparr>sa_family = family p, sin_addr = replicate 4 0, sin6_addr = replicate 16 0\<rparr>;
          su' = (if family p = AF_INET then su\<lparr>sin_addr := take 4 (u_prefix p)\<rparr> else su)
      in if family p = AF_INET6 then su'\<lparr>sin6_addr := take 16 (u_prefix p)\<rparr> else su')"

subsection \<open>The bits of a prefix\<close>

text \<open>Bit \<open>i\<close> of an address, most significant first, and the bit string of a prefix.\<close>

definition abit :: "byte list \<Rightarrow> nat \<Rightarrow> bool" where
  "abit bs i = bit (bs ! (i div 8)) (7 - i mod 8)"

definition pbits :: "prefix \<Rightarrow> bool list" where
  "pbits p = map (abit (u_prefix p)) [0..<prefixlen p]"

text \<open>A well-formed prefix: a full address union and a length its family allows.\<close>

definition max_bits :: "nat \<Rightarrow> nat" where
  "max_bits fam = (if fam = AF_INET then 32 else if fam = AF_INET6 then 128
     else if fam = AF_UNSPEC then 64 else 0)"

definition wf_prefix :: "prefix \<Rightarrow> bool" where
  "wf_prefix p \<longleftrightarrow> length (u_prefix p) = 16 \<and>
     family p \<in> {AF_UNSPEC, AF_INET, AF_INET6} \<and> prefixlen p \<le> max_bits (family p)"

lemma length_pbits [simp]: "length (pbits p) = prefixlen p"
  by (simp add: pbits_def)

lemma nth_pbits [simp]: "i < prefixlen p \<Longrightarrow> pbits p ! i = abit (u_prefix p) i"
  by (simp add: pbits_def)

lemma wf_prefix_bounds:
  assumes "wf_prefix p" shows "length (u_prefix p) = 16" "prefixlen p \<le> 128"
  using assms by (auto simp: wf_prefix_def max_bits_def split: if_splits)

lemma rd_in [simp]: "i < length bs \<Longrightarrow> rd bs i = Inr (bs ! i)"
  by (simp add: rd_def)

lemma byte_eq_iff: "(a :: byte) = b \<longleftrightarrow> (\<forall>i<8. bit a (7 - i) = bit b (7 - i))"
proof
  assume *: "\<forall>i<8. bit a (7 - i) = bit b (7 - i)"
  show "a = b"
  proof (rule bit_word_eqI)
    fix n assume "n < LENGTH(8)"
    then have n: "7 - n < 8" "7 - (7 - n) = n" by auto
    from * n(1) have "bit a (7 - (7 - n)) = bit b (7 - (7 - n))" by blast
    then show "bit a n = bit b n" by (simp only: n(2))
  qed
qed simp

lemma maskbit_bit:
  assumes "s < 9" "k < 8" shows "bit (maskbit ! s) k \<longleftrightarrow> 8 - s \<le> k"
proof -
  have "\<forall>s \<in> set [0..<9]. \<forall>k \<in> set [0..<8]. bit (maskbit ! s) k = (8 - s \<le> k)"
    unfolding maskbit_def by code_simp
  moreover have "s \<in> set [0..<9]" "k \<in> set [0..<8]"
    using assms by (auto simp del: upt.simps)
  ultimately show ?thesis by blast
qed

lemma abit_in_byte: "i < 8 \<Longrightarrow> abit bs (8 * k + i) = bit (bs ! k) (7 - i)"
  by (simp add: abit_def)

lemma mask_differ_spec:
  assumes "shift < 8" "offset < length np" "offset < length pp"
  shows "mask_differ shift np pp offset =
     Inr (\<exists>i < shift. abit np (8 * offset + i) \<noteq> abit pp (8 * offset + i))"
proof -
  let ?m = "maskbit ! shift" and ?x = "np ! offset XOR pp ! offset"
  have "(?m AND ?x \<noteq> 0) \<longleftrightarrow> (\<exists>k<8. bit ?m k \<and> bit ?x k)"
    by (auto simp: bit_eq_iff bit_and_iff dest: bit_imp_le_length)
  also have "\<dots> \<longleftrightarrow> (\<exists>k<8. 8 - shift \<le> k \<and> bit (np ! offset) k \<noteq> bit (pp ! offset) k)"
    using assms(1) by (auto simp: maskbit_bit bit_xor_iff)
  also have "\<dots> \<longleftrightarrow> (\<exists>i < shift. bit (np ! offset) (7 - i) \<noteq> bit (pp ! offset) (7 - i))"
  proof
    assume "\<exists>k<8. 8 - shift \<le> k \<and> bit (np ! offset) k \<noteq> bit (pp ! offset) k"
    then obtain k where "k < 8" "8 - shift \<le> k" "bit (np ! offset) k \<noteq> bit (pp ! offset) k"
      by blast
    then show "\<exists>i < shift. bit (np ! offset) (7 - i) \<noteq> bit (pp ! offset) (7 - i)"
      using assms(1) by (intro exI[of _ "7 - k"]) auto
  next
    assume "\<exists>i < shift. bit (np ! offset) (7 - i) \<noteq> bit (pp ! offset) (7 - i)"
    then obtain i where "i < shift" "bit (np ! offset) (7 - i) \<noteq> bit (pp ! offset) (7 - i)"
      by blast
    then show "\<exists>k<8. 8 - shift \<le> k \<and> bit (np ! offset) k \<noteq> bit (pp ! offset) k"
      using assms(1) by (intro exI[of _ "7 - i"]) auto
  qed
  finally show ?thesis
    using assms by (auto simp: mask_differ_def abit_in_byte)
qed

lemma same_bytes_nth:
  "k \<le> length np \<Longrightarrow> k \<le> length pp \<Longrightarrow>
     same_bytes np pp k = Inr (\<forall>j<k. np ! j = pp ! j)"
  by (induction k) (auto simp: less_Suc_eq)

lemma bytes_eq_bits:
  "(\<forall>j<k. np ! j = pp ! j) \<longleftrightarrow> (\<forall>i<8 * k. abit np i = abit pp i)"
proof
  assume L: "\<forall>j<k. np ! j = pp ! j"
  show "\<forall>i<8 * k. abit np i = abit pp i"
  proof (intro allI impI)
    fix i assume "i < 8 * k"
    then have "i div 8 < k" by auto
    with L show "abit np i = abit pp i" by (simp add: abit_def)
  qed
next
  assume R: "\<forall>i<8 * k. abit np i = abit pp i"
  show "\<forall>j<k. np ! j = pp ! j"
  proof (intro allI impI)
    fix j assume "j < k"
    then have "8 * j + i < 8 * k" if "i < 8" for i using that by linarith
    with R have "bit (np ! j) (7 - i) = bit (pp ! j) (7 - i)" if "i < 8" for i
      using that by (metis abit_in_byte)
    then show "np ! j = pp ! j" by (simp add: byte_eq_iff)
  qed
qed

lemma all_less_split:
  fixes n :: nat
  shows "(\<forall>i<n. P i) \<longleftrightarrow> (\<forall>i<8 * (n div 8). P i) \<and> (\<forall>i<n mod 8. P (8 * (n div 8) + i))"
proof -
  have "P i" if "i < n" "\<forall>i<8 * (n div 8). P i" "\<forall>i<n mod 8. P (8 * (n div 8) + i)" for i
  proof (cases "i < 8 * (n div 8)")
    case False
    then have "i - 8 * (n div 8) < n mod 8" using that(1) by (metis add_diff_inverse_nat add_less_cancel_left mult_div_mod_eq)
    with that(3) False show ?thesis by (metis add_diff_inverse_nat)
  qed (use that in simp)
  moreover have "i < n" if "i < 8 * (n div 8)" for i using that by auto
  moreover have "8 * (n div 8) + i < n" if "i < n mod 8" for i
    using that by (metis mult_div_mod_eq nat_add_left_cancel_less)
  ultimately show ?thesis by blast
qed

text \<open>The comparison core of \<^verbatim>\<open>prefix_match\<close> and \<^verbatim>\<open>prefix_cmp\<close>: the first \<open>n\<close> bits agree.\<close>

lemma bits_agree_core:
  assumes "n \<le> 8 * length np" "n \<le> 8 * length pp"
  shows "bindE (if n mod 8 \<noteq> 0 then mask_differ (n mod 8) np pp (n div 8) else Inr False)
           (\<lambda>d. if d then Inr False else same_bytes np pp (n div 8)) =
         Inr (\<forall>i<n. abit np i = abit pp i)"
proof -
  have le: "n div 8 \<le> length np" "n div 8 \<le> length pp" using assms by auto
  have lt: "n div 8 < length np" "n div 8 < length pp" if "n mod 8 \<noteq> 0"
    using assms that div_mult_mod_eq[of n 8] by linarith+
  show ?thesis
    using le lt
    by (auto simp: mask_differ_spec same_bytes_nth bytes_eq_bits all_less_split[of n])
qed

lemma prefix_match_agree:
  assumes "prefixlen n \<le> 8 * length (u_prefix n)" "prefixlen p \<le> 8 * length (u_prefix p)"
  shows "prefix_match n p = Inr (prefixlen n \<le> prefixlen p \<and>
           (\<forall>i<prefixlen n. abit (u_prefix n) i = abit (u_prefix p) i))"
  using assms bits_agree_core[of "prefixlen n" "u_prefix n" "u_prefix p"]
  by (auto simp: prefix_match_def Let_def)

lemma bit_and_1: "unat (drop_bit s (b :: byte) AND 1) = of_bool (bit b s)"
  by (simp add: and_one_eq bit_iff_odd_drop_bit mod_2_eq_odd)

lemma prefix_bit_abit: "i < 8 * length bs \<Longrightarrow> prefix_bit bs i = Inr (of_bool (abit bs i))"
  by (auto simp: prefix_bit_def abit_def bit_and_1 less_mult_imp_div_less mult.commute)

lemma prefix_cmp_agree:
  assumes "prefixlen p \<le> 8 * length (u_prefix p)" "prefixlen q \<le> 8 * length (u_prefix q)"
  shows "prefix_cmp p q = Inr (if family p = family q \<and> prefixlen p = prefixlen q \<and>
           (\<forall>i<prefixlen p. abit (u_prefix p) i = abit (u_prefix q) i) then 0 else 1)"
proof (cases "family p = family q \<and> prefixlen p = prefixlen q")
  case True
  let ?n = "prefixlen q" and ?x = "u_prefix p" and ?y = "u_prefix q"
  have "prefix_cmp p q =
      bindE (bindE (if ?n mod 8 \<noteq> 0 then mask_differ (?n mod 8) ?x ?y (?n div 8) else Inr False)
        (\<lambda>d. if d then Inr False else same_bytes ?x ?y (?n div 8))) (\<lambda>s. Inr (if s then 0 else 1))"
    using True by (cases "mask_differ (?n mod 8) ?x ?y (?n div 8)")
      (auto simp: prefix_cmp_def Let_def)
  also have "\<dots> = Inr (if \<forall>i<?n. abit ?x i = abit ?y i then 0 else 1)"
    using assms True by (subst bits_agree_core) auto
  finally show ?thesis using True by simp
qed (auto simp: prefix_cmp_def)

lemma pbits_eq_iff:
  "pbits p = pbits q \<longleftrightarrow> prefixlen p = prefixlen q \<and>
     (\<forall>i<prefixlen p. abit (u_prefix p) i = abit (u_prefix q) i)"
  by (auto simp: list_eq_iff_nth_eq)

lemma pbits_prefix_iff:
  "take (prefixlen n) (pbits p) = pbits n \<longleftrightarrow> prefixlen n \<le> prefixlen p \<and>
     (\<forall>i<prefixlen n. abit (u_prefix n) i = abit (u_prefix p) i)"
  by (auto simp: list_eq_iff_nth_eq min_def split: if_splits)

lemma bytes32_nth: "j < 4 \<Longrightarrow> bytes32 l ! j = ucast (drop_bit (24 - 8 * j) l)"
  by (auto simp: bytes32_def less_Suc_eq numeral_eq_Suc)

lemma abit_bytes32:
  assumes "i < 32" shows "abit (bytes32 l) i = bit l (31 - i)"
proof -
  have j: "i div 8 < 4" using assms by auto
  have "24 - 8 * (i div 8) + (7 - i mod 8) = 31 - i"
    using j div_mult_mod_eq[of i 8] mod_less_divisor[of 8 i] by linarith
  moreover have "7 - i mod 8 < 8" by arith
  ultimately show ?thesis
    using j by (simp add: abit_def bytes32_nth bit_simps)
qed

lemma netmask_bit:
  assumes "m \<le> 32" "k < 32"
  shows "bit (ucast (push_bit (32 - m) (0xffffffff :: u64)) :: u32) k \<longleftrightarrow> 32 - m \<le> k"
proof -
  have "\<forall>j \<in> set [0..<32]. bit (0xffffffff :: u64) j"
    by code_simp
  then have lo: "bit (0xffffffff :: u64) j" if "j < 32" for j
    using that by (simp del: upt.simps)
  have shift: "bit (ucast (push_bit s x) :: u32) k \<longleftrightarrow> s \<le> k \<and> bit x (k - s)" for s and x :: u64
    using assms(2) by (auto simp: bit_simps)
  show ?thesis unfolding shift using assms lo[of "k - (32 - m)"] by auto
qed

lemma masklen2ip_bits:
  assumes "m \<le> 32"
  obtains bs where "masklen2ip (int m) = Inr bs" "length bs = 4"
    "\<And>i. i < 32 \<Longrightarrow> abit bs i \<longleftrightarrow> i < m"
proof
  let ?bs = "bytes32 (ucast (push_bit (32 - m) (0xffffffff :: u64)))"
  show "masklen2ip (int m) = Inr ?bs"
    using assms by (simp add: masklen2ip_def IPV4_MAX_BITLEN_def)
  show "length ?bs = 4" by (simp add: codec_simps)
  show "abit ?bs i \<longleftrightarrow> i < m" if "i < 32" for i
    using assms that by (simp add: abit_bytes32 netmask_bit) arith
qed

lemma takeWhile_upt:
  assumes "n \<le> m" "\<And>i. i < n \<Longrightarrow> P i" "n < m \<Longrightarrow> \<not> P n"
  shows "takeWhile P [0..<m] = [0..<n]"
proof (cases "n < m")
  case True
  then have "[0..<m] = [0..<n] @ n # [Suc n..<m]"
    by (metis assms(1) le_add_diff_inverse less_eq_nat.simps(1) upt_add_eq_append upt_conv_Cons)
  then show ?thesis using assms True by (simp only:) (subst takeWhile_append2, auto)
next
  case False
  with assms show ?thesis by (simp add: takeWhile_eq_all_conv)
qed

lemma clz32_eqI:
  assumes "n < 32" "\<And>i. i < n \<Longrightarrow> \<not> bit w (31 - i)" "bit w (31 - n)"
  shows "clz32 w = n"
  unfolding clz32_def using assms by (subst takeWhile_upt[of n]) auto

lemma byte_no_high: "8 \<le> k \<Longrightarrow> \<not> bit (b :: byte) k"
  using bit_imp_le_length[of b k] by auto

lemma be32_bits:
  assumes "length bs = 4" "i < 32" shows "bit (be32 bs) (31 - i) = abit bs i"
proof -
  have "bs = bytes32 (be32 bs)"
  proof (rule nth_equalityI)
    show "length bs = length (bytes32 (be32 bs))" using assms by (simp add: codec_simps)
    fix j assume "j < length bs"
    then have "j = 0 \<or> j = 1 \<or> j = 2 \<or> j = 3" using assms(1) by auto
    then show "bs ! j = bytes32 (be32 bs) ! j"
      by (elim disjE) (auto intro!: bit_word_eqI simp: bytes32_def be32_def bit_simps byte_no_high)
  qed
  then show ?thesis using abit_bytes32[OF assms(2), of "be32 bs"] by simp
qed

lemma ip_masklen_of_mask:
  assumes "length bs = 4" "n \<le> 32" "\<And>i. i < 32 \<Longrightarrow> abit bs i \<longleftrightarrow> i < n"
  shows "ip_masklen bs = n"
proof -
  have b: "bit (NOT (be32 bs)) (31 - i) \<longleftrightarrow> n \<le> i" if "i < 32" for i
    using be32_bits[OF assms(1) that] assms(3)[OF that] that by (auto simp: bit_not_iff)
  show ?thesis
  proof (cases "n < 32")
    case True
    then have "NOT (be32 bs) \<noteq> 0" using b[of n] by auto
    moreover have "clz32 (NOT (be32 bs)) = n"
      by (rule clz32_eqI[OF True]) (use b True in auto)
    ultimately show ?thesis by (simp add: ip_masklen_def)
  next
    case False
    then have n: "n = 32" using assms(2) by simp
    have "NOT (be32 bs) = 0"
    proof (rule bit_word_eqI)
      fix k assume "k < LENGTH(32)"
      then have "31 - (31 - k) = k" "31 - k < 32" by auto
      then show "bit (NOT (be32 bs)) k = bit 0 k" using b[of "31 - k"] n by simp
    qed
    then show ?thesis using n by (simp add: ip_masklen_def)
  qed
qed

declare dec_str.simps [simp del] ff_bytes.simps [simp del] shift_out.simps [simp del]

subsection \<open>Masking\<close>

lemma abit_append:
  "abit (xs @ ys) i = (if i < 8 * length xs then abit xs i else abit ys (i - 8 * length xs))"
proof (cases "i < 8 * length xs")
  case True
  then have "i div 8 < length xs" by auto
  with True show ?thesis by (simp add: abit_def nth_append)
next
  case False
  then obtain j where i: "i = 8 * length xs + j" using le_Suc_ex not_less by blast
  then have "\<not> i div 8 < length xs" "(i - 8 * length xs) div 8 = i div 8 - length xs"
    "(i - 8 * length xs) mod 8 = i mod 8"
    by simp_all
  with False show ?thesis by (simp add: abit_def nth_append)
qed

lemma abit_and_bytes:
  assumes "i < 8 * length xs" "length ys = length xs"
  shows "abit (and_bytes xs ys) i \<longleftrightarrow> abit xs i \<and> abit ys i"
proof -
  have "i div 8 < length xs" using assms by auto
  then show ?thesis using assms by (simp add: abit_def and_bytes_def bit_and_iff)
qed

lemma abit_take: "i < 8 * n \<Longrightarrow> abit (take n xs) i = abit xs i"
  by (simp add: abit_def less_mult_imp_div_less mult.commute)

lemma apply_mask_ipv4_bits:
  assumes "length (u_prefix p) = 16" "prefixlen p \<le> 32"
  obtains q where "apply_mask_ipv4 p = Inr q"
    "family q = family p" "prefixlen q = prefixlen p" "length (u_prefix q) = 16"
    "\<And>i. i < 32 \<Longrightarrow> abit (u_prefix q) i \<longleftrightarrow> i < prefixlen p \<and> abit (u_prefix p) i"
proof -
  obtain bs where bs: "masklen2ip (int (prefixlen p)) = Inr bs" "length bs = 4"
    "\<And>i. i < 32 \<Longrightarrow> abit bs i \<longleftrightarrow> i < prefixlen p"
    using masklen2ip_bits assms(2) by blast
  let ?q = "set_prefix4 p (and_bytes (take 4 (u_prefix p)) bs)"
  have "apply_mask_ipv4 p = Inr ?q" using bs by (simp add: apply_mask_ipv4_def)
  moreover have "abit (u_prefix ?q) i \<longleftrightarrow> i < prefixlen p \<and> abit (u_prefix p) i" if "i < 32" for i
    using that assms bs
    by (auto simp: set_prefix4_def abit_append and_bytes_def[symmetric] abit_and_bytes abit_take)
      (auto simp: and_bytes_def)
  ultimately show ?thesis
    using that assms bs(2) by (simp add: set_prefix4_def and_bytes_def)
qed
lemma abit_replicate_0: "i < 8 * n \<Longrightarrow> \<not> abit (replicate n 0) i"
  by (simp add: abit_def less_mult_imp_div_less mult.commute)

lemma abit_Cons: "abit (b # bs) i = (if i < 8 then bit b (7 - i) else abit bs (i - 8))"
  using abit_append[of "[b]" bs i] abit_in_byte[of i "[b]" 0] by auto

lemma mask_pos: "j < 8 \<Longrightarrow> s < 8 \<Longrightarrow> 8 - s \<le> 7 - j \<longleftrightarrow> j < (s :: nat)"
  by arith

lemma apply_mask_ipv6_bits:
  assumes "length (u_prefix p) = 16" "prefixlen p \<le> 128"
  shows "family (apply_mask_ipv6 p) = family p" "prefixlen (apply_mask_ipv6 p) = prefixlen p"
    "length (u_prefix (apply_mask_ipv6 p)) = 16"
    "i < 128 \<Longrightarrow> abit (u_prefix (apply_mask_ipv6 p)) i \<longleftrightarrow> i < prefixlen p \<and> abit (u_prefix p) i"
proof -
  let ?k = "prefixlen p div 8" and ?s = "prefixlen p mod 8" and ?bs = "u_prefix p"
  show "family (apply_mask_ipv6 p) = family p" "prefixlen (apply_mask_ipv6 p) = prefixlen p"
    "length (u_prefix (apply_mask_ipv6 p)) = 16"
    using assms by (auto simp: apply_mask_ipv6_def Let_def)
  assume i: "i < 128"
  show "abit (u_prefix (apply_mask_ipv6 p)) i \<longleftrightarrow> i < prefixlen p \<and> abit ?bs i"
  proof (cases "?k < 16")
    case False
    with assms i show ?thesis by (auto simp: apply_mask_ipv6_def)
  next
    case True
    let ?b = "?bs ! ?k AND maskbit ! ?s"
    consider (lo) "i < 8 * ?k" | (mid) "8 * ?k \<le> i" "i < 8 * ?k + 8" | (hi) "8 * ?k + 8 \<le> i"
      by linarith
    then show ?thesis
    proof cases
      case lo
      then show ?thesis using True assms i
        by (auto simp: apply_mask_ipv6_def Let_def abit_append abit_take)
    next
      case mid
      have lt: "(i - 8 * ?k) < 8" and eq: "i = 8 * ?k + (i - 8 * ?k)" using mid by auto
      have "abit (u_prefix (apply_mask_ipv6 p)) i = bit ?b (7 - (i - 8 * ?k))"
        using True assms i mid lt abit_in_byte[OF lt, of "?b # replicate (15 - ?k) 0" 0]
        by (auto simp: apply_mask_ipv6_def Let_def abit_append)
      moreover have "bit ?b (7 - (i - 8 * ?k)) \<longleftrightarrow> i - 8 * ?k < ?s \<and> bit (?bs ! ?k) (7 - (i - 8 * ?k))"
        using lt by (auto simp: bit_and_iff maskbit_bit mask_pos)
      moreover have "abit ?bs i = bit (?bs ! ?k) (7 - (i - 8 * ?k))"
        using abit_in_byte[OF lt, of ?bs ?k] eq by simp
      moreover have "i - 8 * ?k < ?s \<longleftrightarrow> i < prefixlen p"
        using mid div_mult_mod_eq[of "prefixlen p" 8] by linarith
      ultimately show ?thesis by simp
    next
      case hi
      have "\<not> abit (replicate (15 - ?k) 0) (i - 8 * (?k + 1))"
        by (rule abit_replicate_0) (use i hi True in auto)
      moreover have "prefixlen p \<le> i"
        using hi div_mult_mod_eq[of "prefixlen p" 8] mod_less_divisor[of 8 "prefixlen p"] by linarith
      ultimately show ?thesis using True assms i hi
        by (auto simp: apply_mask_ipv6_def Let_def abit_append abit_Cons add.commute)
    qed
  qed
qed

lemma same_abits_same_bytes:
  assumes "length xs = length ys" "\<And>i. i < 8 * length xs \<Longrightarrow> abit xs i = abit ys i"
  shows "xs = ys"
  using assms bytes_eq_bits[of "length xs" xs ys] by (simp add: list_eq_iff_nth_eq)

text \<open>Canonical network prefixes: no bit set beyond the prefix length.\<close>

definition canonical :: "prefix \<Rightarrow> bool" where
  "canonical p \<longleftrightarrow> (\<forall>i. prefixlen p \<le> i \<and> i < max_bits (family p) \<longrightarrow> \<not> abit (u_prefix p) i)"

lemma set_prefix4_id: "4 \<le> length (u_prefix p) \<Longrightarrow> take 4 (u_prefix p) = a \<Longrightarrow> set_prefix4 p a = p"
  by (auto simp: set_prefix4_def)

lemma apply_mask_ipv4_fixpoint:
  assumes "length (u_prefix p) = 16" "prefixlen p \<le> 32"
    "\<And>i. i < 32 \<Longrightarrow> abit (u_prefix p) i \<Longrightarrow> i < prefixlen p"
  shows "apply_mask_ipv4 p = Inr p"
proof -
  obtain bs where bs: "masklen2ip (int (prefixlen p)) = Inr bs" "length bs = 4"
    "\<And>i. i < 32 \<Longrightarrow> abit bs i \<longleftrightarrow> i < prefixlen p"
    using masklen2ip_bits assms(2) by blast
  have "and_bytes (take 4 (u_prefix p)) bs = take 4 (u_prefix p)"
  proof (rule same_abits_same_bytes)
    fix i assume "i < 8 * length (and_bytes (take 4 (u_prefix p)) bs)"
    then have i: "i < 32" using assms(1) bs(2) by (simp add: and_bytes_def)
    then show "abit (and_bytes (take 4 (u_prefix p)) bs) i = abit (take 4 (u_prefix p)) i"
      using assms bs by (subst abit_and_bytes) (auto simp: abit_take)
  qed (use assms(1) bs(2) in \<open>simp add: and_bytes_def\<close>)
  with bs assms(1) show ?thesis by (simp add: apply_mask_ipv4_def set_prefix4_id)
qed

lemma apply_mask_ipv6_fixpoint:
  assumes "length (u_prefix p) = 16" "prefixlen p \<le> 128"
    "\<And>i. i < 128 \<Longrightarrow> abit (u_prefix p) i \<Longrightarrow> i < prefixlen p"
  shows "apply_mask_ipv6 p = p"
proof -
  note b = apply_mask_ipv6_bits[OF assms(1,2)]
  have "u_prefix (apply_mask_ipv6 p) = u_prefix p"
    by (rule same_abits_same_bytes) (use b assms in auto)
  then show ?thesis using b(1,2) by (cases p) (auto simp: apply_mask_ipv6_def Let_def)
qed

subsection \<open>Decimal text\<close>

lemma digits_value_append:
  "list_all isdigit xs \<Longrightarrow> digits_value acc (xs @ ys) = digits_value (digits_value acc xs) ys"
  by (induction xs arbitrary: acc) auto

lemma of_char_digit: "d < 10 \<Longrightarrow> (of_char (char_of (48 + d :: nat) :: char) :: nat) = 48 + d"
  by (simp add: of_char_of)

lemma isdigit_digit: "d < 10 \<Longrightarrow> isdigit (char_of (48 + d :: nat))"
  by (simp add: isdigit_def of_char_digit)

lemma dec_str_digits: "list_all isdigit (dec_str n)"
  by (induction n rule: dec_str.induct) (subst dec_str.simps, auto simp: isdigit_digit)

lemma digits_value_dec_str: "digits_value 0 (dec_str n) = int n"
proof (induction n rule: dec_str.induct)
  case (1 n)
  show ?case
  proof (cases "n < 10")
    case True
    then show ?thesis by (subst dec_str.simps) (simp add: isdigit_digit of_char_digit)
  next
    case False
    then have IH: "digits_value 0 (dec_str (n div 10)) = int (n div 10)" using 1 by simp
    have "digits_value 0 (dec_str n) = int (n div 10) * 10 + int (n mod 10)"
      using False by (subst dec_str.simps)
        (simp add: digits_value_append[OF dec_str_digits] IH isdigit_digit of_char_digit)
    then show ?thesis using div_mult_mod_eq[of n 10] by linarith
  qed
qed

lemma dec_str_nonempty: "dec_str n \<noteq> []"
  by (subst dec_str.simps) auto

lemma isdigit_not: "isdigit c \<Longrightarrow> \<not> isspace c \<and> c \<noteq> CHR ''-'' \<and> c \<noteq> CHR ''+'' \<and> c \<noteq> CHR ''/''"
  by (auto simp: isdigit_def isspace_def)

lemma atoi_dec_str:
  assumes "n < 2 ^ 31" shows "atoi (dec_str n) = int n"
proof -
  obtain c cs where c: "dec_str n = c # cs" using dec_str_nonempty[of n] by (cases "dec_str n") auto
  then have "isdigit c" using dec_str_digits[of n] by simp
  note nc = isdigit_not[OF this]
  have "atoi (dec_str n) = to_int (long_clamp (digits_value 0 (dec_str n)))"
    using c nc by (simp add: atoi_def)
  also have "\<dots> = int n"
    using assms by (simp add: digits_value_dec_str long_clamp_def to_int_def)
  finally show ?thesis .
qed
subsection \<open>Properties\<close>

text \<open>C24: \<^verbatim>\<open>prefix_match\<close> on two well-formed prefixes never reads outside the address
  union and answers exactly whether the bit string of \<^verbatim>\<open>n\<close> is an initial segment of the bit
  string of \<^verbatim>\<open>p\<close>.\<close>

lemma prefix_match_iff_bits:
  assumes "wf_prefix n" "wf_prefix p"
  shows "prefix_match n p = Inr (take (prefixlen n) (pbits p) = pbits n)"
  using assms prefix_match_agree[of n p] wf_prefix_bounds[of n] wf_prefix_bounds[of p]
  by (simp add: pbits_prefix_iff)

lemma prefix_match_iff_bits_witness:
  "prefix_match (prefix_new\<lparr>family := AF_INET, prefixlen := 9\<rparr>)
     (prefix_new\<lparr>family := AF_INET, prefixlen := 20\<rparr>) = Inr True"
proof -
  let ?n = "prefix_new\<lparr>family := AF_INET, prefixlen := 9\<rparr>"
  let ?p = "prefix_new\<lparr>family := AF_INET, prefixlen := 20\<rparr>"
  have "wf_prefix ?n" "wf_prefix ?p" by (simp_all add: wf_prefix_def prefix_new_def max_bits_def)
  moreover have "take (prefixlen ?n) (pbits ?p) = pbits ?n"
    unfolding pbits_prefix_iff by (simp add: prefix_new_def)
  ultimately show ?thesis using prefix_match_iff_bits[of ?n ?p] by simp
qed

text \<open>\<^verbatim>\<open>prefix_cmp\<close> returns 0 exactly when the two prefixes have the same family and the
  same network bits, whatever their host bits, and 1 otherwise; it never reads out of bounds.\<close>

lemma prefix_cmp_iff_bits:
  assumes "wf_prefix p" "wf_prefix q"
  shows "prefix_cmp p q = Inr (if family p = family q \<and> pbits p = pbits q then 0 else 1)"
  using assms prefix_cmp_agree[of p q] wf_prefix_bounds[of p] wf_prefix_bounds[of q]
  by (simp add: pbits_eq_iff)

lemma prefix_cmp_iff_bits_witness:
  "prefix_cmp (prefix_new\<lparr>family := AF_INET, prefixlen := 8, u_prefix := 10 # replicate 15 1\<rparr>)
     (prefix_new\<lparr>family := AF_INET, prefixlen := 8, u_prefix := 10 # replicate 15 2\<rparr>) = Inr 0"
proof -
  let ?p = "prefix_new\<lparr>family := AF_INET, prefixlen := 8, u_prefix := 10 # replicate 15 1\<rparr>"
  let ?q = "prefix_new\<lparr>family := AF_INET, prefixlen := 8, u_prefix := 10 # replicate 15 2\<rparr>"
  have "wf_prefix ?p" "wf_prefix ?q" by (simp_all add: wf_prefix_def max_bits_def)
  from prefix_cmp_iff_bits[OF this] show ?thesis
    by (simp add: pbits_eq_iff abit_Cons)
qed

text \<open>C36: \<^verbatim>\<open>apply_mask\<close> on a well-formed IPv4 or IPv6 prefix returns a prefix of the same
  family and network bits with every host bit cleared, and masking again changes nothing.\<close>

lemma apply_mask_canonical:
  assumes "wf_prefix p" "family p \<in> {AF_INET, AF_INET6}"
  shows "\<exists>q. apply_mask p = Inr q \<and> wf_prefix q \<and> family q = family p \<and> pbits q = pbits p
           \<and> canonical q \<and> apply_mask q = Inr q"
proof (cases "family p = AF_INET")
  case True
  then have len: "length (u_prefix p) = 16" "prefixlen p \<le> 32"
    using assms(1) by (auto simp: wf_prefix_def max_bits_def)
  obtain q where q: "apply_mask_ipv4 p = Inr q" "family q = family p" "prefixlen q = prefixlen p"
    "length (u_prefix q) = 16"
    "\<And>i. i < 32 \<Longrightarrow> abit (u_prefix q) i \<longleftrightarrow> i < prefixlen p \<and> abit (u_prefix p) i"
    using apply_mask_ipv4_bits[OF len] by blast
  have "apply_mask_ipv4 q = Inr q"
    by (rule apply_mask_ipv4_fixpoint) (use q len in auto)
  then show ?thesis using True q len assms(1)
    by (auto simp: apply_mask_def wf_prefix_def pbits_eq_iff canonical_def max_bits_def)
next
  case False
  then have fam: "family p = AF_INET6" "AF_INET6 \<noteq> AF_INET" using assms(2) by auto
  then have len: "length (u_prefix p) = 16" "prefixlen p \<le> 128"
    using assms(1) by (auto simp: wf_prefix_def max_bits_def split: if_splits)
  note q = apply_mask_ipv6_bits[OF len]
  have "apply_mask_ipv6 (apply_mask_ipv6 p) = apply_mask_ipv6 p"
    by (rule apply_mask_ipv6_fixpoint) (use q len in auto)
  then show ?thesis using fam q len assms(1)
    by (auto simp: apply_mask_def wf_prefix_def pbits_eq_iff canonical_def max_bits_def)
qed

lemma apply_mask_canonical_witness:
  "\<exists>q. apply_mask (prefix_new\<lparr>family := AF_INET6, prefixlen := 33\<rparr>) = Inr q \<and> wf_prefix q
     \<and> canonical q \<and> apply_mask q = Inr q"
proof -
  have "wf_prefix (prefix_new\<lparr>family := AF_INET6, prefixlen := 33\<rparr>)"
    by (simp add: wf_prefix_def prefix_new_def max_bits_def AF_INET_def AF_INET6_def)
  from apply_mask_canonical[OF this] show ?thesis by auto
qed

text \<open>every IPv4 mask length 0..32 survives the conversion to a netmask by
  \<^verbatim>\<open>masklen2ip\<close> and back by \<^verbatim>\<open>ip_masklen\<close>.\<close>

lemma masklen_roundtrip_ipv4:
  assumes "n \<le> 32"
  shows "\<exists>bs. masklen2ip (int n) = Inr bs \<and> ip_masklen bs = n"
  using masklen2ip_bits[OF assms] ip_masklen_of_mask assms by metis

lemma masklen_roundtrip_ipv4_witness:
  "\<exists>bs. masklen2ip (int 23) = Inr bs \<and> ip_masklen bs = 23"
  using masklen_roundtrip_ipv4[of 23] by simp

text \<open>on the netmasks of the table \<^verbatim>\<open>maskbytes6\<close>, \<^verbatim>\<open>ip6_masklen\<close> recovers
  each length 0..127; on the all-ones mask of length 128 its first loop reads the byte after the
  sixteen bytes of the address.\<close>

lemma ip6_masklen_of_table:
  "map ip6_masklen maskbytes6 = map Inr [0..<128] @ [Inl OutOfBounds]"
  by code_simp

lemma strchr_append: "c \<notin> set xs \<Longrightarrow> strchr (xs @ c # ys) c = Some (xs, ys)"
proof -
  assume "c \<notin> set xs"
  then have "dropWhile (\<lambda>x. x \<noteq> c) (xs @ c # ys) = c # ys"
    "takeWhile (\<lambda>x. x \<noteq> c) (xs @ c # ys) = xs"
    by (induction xs) auto
  then show ?thesis by (simp add: strchr_def)
qed

text \<open>C28: an IPv4 prefix printed by \<^verbatim>\<open>prefix2str\<close> into a large enough buffer is read
  back by \<^verbatim>\<open>str2prefix\<close> as the same prefix, when \<^verbatim>\<open>inet_aton\<close> reads what
  \<^verbatim>\<open>inet_ntop\<close> printed for its address and that text has no slash.\<close>

lemma prefix2str_str2prefix_roundtrip:
  assumes "wf_prefix p" "family p = AF_INET"
    and "inet_aton (inet_ntop AF_INET (u_prefix p)) = Some (take 4 (u_prefix p))"
    and "CHR ''/'' \<notin> set (inet_ntop AF_INET (u_prefix p))"
    and "length (inet_ntop AF_INET (u_prefix p)) + 4 \<le> sz"
  shows "\<exists>q. str2prefix inet_aton inet_pton (prefix2str inet_ntop p sz) prefix_new = (1, q)
           \<and> prefix_same q p"
proof -
  have len: "length (u_prefix p) = 16" "prefixlen p \<le> 32"
    using assms(1,2) by (auto simp: wf_prefix_def max_bits_def)
  have "length (dec_str (prefixlen p)) \<le> 2"
    using len(2) by (subst dec_str.simps, subst dec_str.simps) auto
  then have text_form: "prefix2str inet_ntop p sz =
      inet_ntop AF_INET (u_prefix p) @ CHR ''/'' # dec_str (prefixlen p)"
    using assms(2,5) by (simp add: prefix2str_def)
  have "to_u_char (atoi (dec_str (prefixlen p))) = prefixlen p"
    using len(2) by (simp add: atoi_dec_str to_u_char_def)
  then show ?thesis
    using len assms(2-4)
    by (simp add: text_form str2prefix_def str2prefix_ipv4_def strchr_append IPV4_MAX_BITLEN_def
        prefix_same_def set_prefix4_def)
qed

lemma prefix2str_str2prefix_roundtrip_witness:
  "\<exists>q. str2prefix (\<lambda>s. if s = ''10.0.0.0'' then Some [10, 0, 0, 0] else None) (\<lambda>s. None)
         (prefix2str (\<lambda>fam bs. ''10.0.0.0'')
           (prefix_new\<lparr>family := AF_INET, prefixlen := 24, u_prefix := [10, 0, 0, 0, 0, 0, 0, 0, 0, 0, 0, 0, 0, 0, 0, 0]\<rparr>) 51)
         prefix_new = (1, q) \<and>
       prefix_same q (prefix_new\<lparr>family := AF_INET, prefixlen := 24, u_prefix := [10, 0, 0, 0, 0, 0, 0, 0, 0, 0, 0, 0, 0, 0, 0, 0]\<rparr>)"
  by (rule prefix2str_str2prefix_roundtrip)
    (simp_all add: wf_prefix_def max_bits_def prefix_new_def)

text \<open>\<^verbatim>\<open>str2prefix_ipv4\<close> truncates the prefix length to 8 bits before it tests
  it, so the text 10.0.0.0/264 is accepted as 10.0.0.0/8 although 264 exceeds 32.\<close>

lemma str2prefix_ipv4_length_wraps:
  assumes "inet_aton ''10.0.0.0'' = Some [10, 0, 0, 0]"
  shows "\<exists>q. str2prefix_ipv4 inet_aton ''10.0.0.0/264'' prefix_new = (1, q) \<and> prefixlen q = 8"
proof -
  have "strchr ''10.0.0.0/264'' CHR ''/'' = Some (''10.0.0.0'', ''264'')" by code_simp
  moreover have "to_u_char (atoi ''264'') = 8" by code_simp
  ultimately show ?thesis using assms by (simp add: str2prefix_ipv4_def IPV4_MAX_BITLEN_def)
qed
lemma str2prefix_ipv4_length_wraps_witness:
  "\<exists>q. str2prefix_ipv4 (\<lambda>s. if s = ''10.0.0.0'' then Some [10, 0, 0, 0] else None)
     ''10.0.0.0/264'' prefix_new = (1, q) \<and> prefixlen q = 8"
  by (rule str2prefix_ipv4_length_wraps) simp


end
