(* ===== verification/Stream_Buf.thy ===== *)
theory Stream_Buf
  imports Prefix
begin

text \<open>
  Stream buffers, \<^verbatim>\<open>lib/stream.c\<close> and \<^verbatim>\<open>lib/stream.h\<close>: the byte buffers every Quagga protocol
  message is built in and parsed from, with \<^verbatim>\<open>readn\<close> of \<^verbatim>\<open>lib/network.c\<close> and the stream FIFO.
  The record fields are those of \<^verbatim>\<open>struct stream\<close>; offsets are \<^verbatim>\<open>size_t\<close> values whose sums wrap.
  Every operation starts with \<^verbatim>\<open>STREAM_VERIFY_SANE\<close>, and \<^verbatim>\<open>STREAM_BOUND_WARN\<close> ends in
  \<^verbatim>\<open>assert (0)\<close>; both are the fault \<^verbatim>\<open>Abort\<close>, so the statements after them are unreachable.
\<close>

subsection \<open>The buffer\<close>

record stream =
  s_getp :: nat
  s_endp :: nat
  s_size :: nat
  s_data :: "byte list"

definition GETP_VALID :: "stream \<Rightarrow> nat \<Rightarrow> bool" where
  "GETP_VALID s g = (g \<le> s_endp s)"

definition ENDP_VALID :: "stream \<Rightarrow> nat \<Rightarrow> bool" where
  "ENDP_VALID s e = (e \<le> s_size s)"

definition STREAM_VERIFY_SANE :: "stream \<Rightarrow> unit res" where
  "STREAM_VERIFY_SANE s =
     bindE (assertE (GETP_VALID s (s_getp s))) (\<lambda>_. assertE (ENDP_VALID s (s_endp s)))"

definition STREAM_WRITEABLE :: "stream \<Rightarrow> nat" where
  "STREAM_WRITEABLE s = szsub (s_size s) (s_endp s)"

definition STREAM_READABLE :: "stream \<Rightarrow> nat" where
  "STREAM_READABLE s = szsub (s_endp s) (s_getp s)"

definition CHECK_SIZE :: "stream \<Rightarrow> nat \<Rightarrow> nat" where
  "CHECK_SIZE s z = (if szadd (s_endp s) z > s_size s then szsub (s_size s) (s_endp s) else z)"

text \<open>Allocation: \<^verbatim>\<open>XMALLOC\<close> does not initialise, so the content of a fresh block is an
  argument \<open>junk\<close>; an allocation failure ends in \<^verbatim>\<open>zerror\<close>, which aborts, and is not modelled.\<close>

definition stream_new :: "(nat \<Rightarrow> byte) \<Rightarrow> nat \<Rightarrow> stream res" where
  "stream_new junk sz =
     bindE (assertE (sz > 0)) (\<lambda>_.
       Inr \<lparr>s_getp = 0, s_endp = 0, s_size = sz, s_data = map junk [0..<sz]\<rparr>)"

definition stream_copy :: "stream \<Rightarrow> stream \<Rightarrow> stream res" where
  "stream_copy new src =
     bindE (STREAM_VERIFY_SANE src) (\<lambda>_.
     bindE (assertE (s_size new \<ge> s_endp src)) (\<lambda>_.
     bindE (mem_read (s_data src) 0 (s_endp src)) (\<lambda>bs.
     bindE (mem_write (s_data new) 0 bs) (\<lambda>d.
       Inr (new\<lparr>s_endp := s_endp src, s_getp := s_getp src, s_data := d\<rparr>)))))"

definition stream_dup :: "(nat \<Rightarrow> byte) \<Rightarrow> stream \<Rightarrow> stream res" where
  "stream_dup junk s =
     bindE (STREAM_VERIFY_SANE s) (\<lambda>_.
     bindE (stream_new junk (s_endp s)) (\<lambda>new. stream_copy new s))"

text \<open>\<^verbatim>\<open>realloc\<close> keeps the common initial part; \<^verbatim>\<open>zrealloc\<close> aborts on a null result, which is
  what \<^verbatim>\<open>realloc (ptr, 0)\<close> returns.\<close>

definition stream_resize :: "(nat \<Rightarrow> byte) \<Rightarrow> stream \<Rightarrow> nat \<Rightarrow> (nat \<times> stream) res" where
  "stream_resize junk s newsize =
     bindE (STREAM_VERIFY_SANE s) (\<lambda>_.
     bindE (assertE (newsize > 0)) (\<lambda>_.
       let d = take newsize (s_data s) @ map junk [length (s_data s)..<newsize];
           s1 = s\<lparr>s_data := d, s_size := newsize\<rparr>;
           s2 = (if s_endp s1 > s_size s1 then s1\<lparr>s_endp := s_size s1\<rparr> else s1);
           s3 = (if s_getp s2 > s_endp s2 then s2\<lparr>s_getp := s_endp s2\<rparr> else s2)
       in bindE (STREAM_VERIFY_SANE s3) (\<lambda>_. Inr (s_size s3, s3))))"

definition stream_get_getp :: "stream \<Rightarrow> nat res" where
  "stream_get_getp s = bindE (STREAM_VERIFY_SANE s) (\<lambda>_. Inr (s_getp s))"

definition stream_get_endp :: "stream \<Rightarrow> nat res" where
  "stream_get_endp s = bindE (STREAM_VERIFY_SANE s) (\<lambda>_. Inr (s_endp s))"

definition stream_get_size :: "stream \<Rightarrow> nat res" where
  "stream_get_size s = bindE (STREAM_VERIFY_SANE s) (\<lambda>_. Inr (s_size s))"

definition stream_set_getp :: "stream \<Rightarrow> nat \<Rightarrow> stream res" where
  "stream_set_getp s pos =
     bindE (STREAM_VERIFY_SANE s) (\<lambda>_.
     bindE (assertE (GETP_VALID s pos)) (\<lambda>_. Inr (s\<lparr>s_getp := pos\<rparr>)))"

definition stream_set_endp :: "stream \<Rightarrow> nat \<Rightarrow> stream res" where
  "stream_set_endp s pos =
     bindE (STREAM_VERIFY_SANE s) (\<lambda>_.
     bindE (assertE (GETP_VALID s pos)) (\<lambda>_. Inr (s\<lparr>s_endp := pos\<rparr>)))"

definition stream_forward_getp :: "stream \<Rightarrow> nat \<Rightarrow> stream res" where
  "stream_forward_getp s sz =
     bindE (STREAM_VERIFY_SANE s) (\<lambda>_.
     bindE (assertE (GETP_VALID s (szadd (s_getp s) sz))) (\<lambda>_.
       Inr (s\<lparr>s_getp := szadd (s_getp s) sz\<rparr>)))"

definition stream_forward_endp :: "stream \<Rightarrow> nat \<Rightarrow> stream res" where
  "stream_forward_endp s sz =
     bindE (STREAM_VERIFY_SANE s) (\<lambda>_.
     bindE (assertE (ENDP_VALID s (szadd (s_endp s) sz))) (\<lambda>_.
       Inr (s\<lparr>s_endp := szadd (s_endp s) sz\<rparr>)))"

subsection \<open>Getting\<close>

text \<open>\<^verbatim>\<open>stream_get\<close> returns the bytes copied to its destination. The typed getters read the
  same number of bytes at the read pointer and combine them; the \<^verbatim>\<open>_from\<close> variants read at an
  explicit offset and leave the read pointer alone.\<close>

definition stream_get :: "stream \<Rightarrow> nat \<Rightarrow> (byte list \<times> stream) res" where
  "stream_get s sz =
     bindE (STREAM_VERIFY_SANE s) (\<lambda>_.
     bindE (assertE (\<not> STREAM_READABLE s < sz)) (\<lambda>_.
     bindE (mem_read (s_data s) (s_getp s) sz) (\<lambda>bs.
       Inr (bs, s\<lparr>s_getp := szadd (s_getp s) sz\<rparr>))))"

definition stream_peek :: "stream \<Rightarrow> nat \<Rightarrow> nat \<Rightarrow> byte list res" where
  "stream_peek s from sz =
     bindE (STREAM_VERIFY_SANE s) (\<lambda>_.
     bindE (assertE (GETP_VALID s (szadd from sz))) (\<lambda>_. mem_read (s_data s) from sz))"

definition stream_getc :: "stream \<Rightarrow> (u8 \<times> stream) res" where
  "stream_getc s = bindE (stream_get s 1) (\<lambda>(bs, s'). Inr (be8 bs, s'))"

definition stream_getc_from :: "stream \<Rightarrow> nat \<Rightarrow> u8 res" where
  "stream_getc_from s from = bindE (stream_peek s from 1) (\<lambda>bs. Inr (be8 bs))"

definition stream_getw :: "stream \<Rightarrow> (u16 \<times> stream) res" where
  "stream_getw s = bindE (stream_get s 2) (\<lambda>(bs, s'). Inr (be16 bs, s'))"

definition stream_getw_from :: "stream \<Rightarrow> nat \<Rightarrow> u16 res" where
  "stream_getw_from s from = bindE (stream_peek s from 2) (\<lambda>bs. Inr (be16 bs))"

definition stream_getl_from :: "stream \<Rightarrow> nat \<Rightarrow> u32 res" where
  "stream_getl_from s from = bindE (stream_peek s from 4) (\<lambda>bs. Inr (be32 bs))"

definition stream_getl :: "stream \<Rightarrow> (u32 \<times> stream) res" where
  "stream_getl s = bindE (stream_get s 4) (\<lambda>(bs, s'). Inr (be32 bs, s'))"

definition stream_getq_from :: "stream \<Rightarrow> nat \<Rightarrow> u64 res" where
  "stream_getq_from s from = bindE (stream_peek s from 8) (\<lambda>bs. Inr (be64 bs))"

definition stream_getq :: "stream \<Rightarrow> (u64 \<times> stream) res" where
  "stream_getq s = bindE (stream_get s 8) (\<lambda>(bs, s'). Inr (be64 bs, s'))"

text \<open>The IPv4 address stays in network byte order: its four bytes.\<close>

definition stream_get_ipv4 :: "stream \<Rightarrow> (byte list \<times> stream) res" where
  "stream_get_ipv4 s = stream_get s 4"

subsection \<open>Putting\<close>

definition stream_append :: "stream \<Rightarrow> byte list \<Rightarrow> stream res" where
  "stream_append s bs =
     bindE (STREAM_VERIFY_SANE s) (\<lambda>_.
     bindE (assertE (\<not> STREAM_WRITEABLE s < length bs)) (\<lambda>_.
     bindE (mem_write (s_data s) (s_endp s) bs) (\<lambda>d.
       Inr (s\<lparr>s_data := d, s_endp := szadd (s_endp s) (length bs)\<rparr>))))"

definition stream_patch :: "stream \<Rightarrow> nat \<Rightarrow> byte list \<Rightarrow> stream res" where
  "stream_patch s putp bs =
     bindE (STREAM_VERIFY_SANE s) (\<lambda>_.
     bindE (assertE (GETP_VALID s (szadd putp (length bs)))) (\<lambda>_.
     bindE (mem_write (s_data s) putp bs) (\<lambda>d. Inr (s\<lparr>s_data := d\<rparr>))))"

definition stream_put :: "stream \<Rightarrow> byte list option \<Rightarrow> nat \<Rightarrow> stream res" where
  "stream_put s src size0 =
     (let sz = CHECK_SIZE s size0 in
      bindE (STREAM_VERIFY_SANE s) (\<lambda>_.
      bindE (assertE (\<not> STREAM_WRITEABLE s < sz)) (\<lambda>_.
      bindE (case src of Some bs \<Rightarrow> mem_read bs 0 sz | None \<Rightarrow> Inr (replicate sz 0)) (\<lambda>bs.
      bindE (mem_write (s_data s) (s_endp s) bs) (\<lambda>d.
        Inr (s\<lparr>s_data := d, s_endp := szadd (s_endp s) sz\<rparr>))))))"

definition stream_putc :: "stream \<Rightarrow> u8 \<Rightarrow> (nat \<times> stream) res" where
  "stream_putc s c = bindE (stream_append s (bytes8 c)) (\<lambda>s'. Inr (1, s'))"

definition stream_putw :: "stream \<Rightarrow> u16 \<Rightarrow> (nat \<times> stream) res" where
  "stream_putw s w = bindE (stream_append s (bytes16 w)) (\<lambda>s'. Inr (2, s'))"

definition stream_putl :: "stream \<Rightarrow> u32 \<Rightarrow> (nat \<times> stream) res" where
  "stream_putl s l = bindE (stream_append s (bytes32 l)) (\<lambda>s'. Inr (4, s'))"

definition stream_putq :: "stream \<Rightarrow> u64 \<Rightarrow> (nat \<times> stream) res" where
  "stream_putq s q = bindE (stream_append s (bytes64 q)) (\<lambda>s'. Inr (8, s'))"

definition stream_putc_at :: "stream \<Rightarrow> nat \<Rightarrow> u8 \<Rightarrow> (nat \<times> stream) res" where
  "stream_putc_at s putp c = bindE (stream_patch s putp (bytes8 c)) (\<lambda>s'. Inr (1, s'))"

definition stream_putw_at :: "stream \<Rightarrow> nat \<Rightarrow> u16 \<Rightarrow> (nat \<times> stream) res" where
  "stream_putw_at s putp w = bindE (stream_patch s putp (bytes16 w)) (\<lambda>s'. Inr (2, s'))"

definition stream_putl_at :: "stream \<Rightarrow> nat \<Rightarrow> u32 \<Rightarrow> (nat \<times> stream) res" where
  "stream_putl_at s putp l = bindE (stream_patch s putp (bytes32 l)) (\<lambda>s'. Inr (4, s'))"

definition stream_putq_at :: "stream \<Rightarrow> nat \<Rightarrow> u64 \<Rightarrow> (nat \<times> stream) res" where
  "stream_putq_at s putp q = bindE (stream_patch s putp (bytes64 q)) (\<lambda>s'. Inr (8, s'))"

text \<open>\<^verbatim>\<open>stream_put_ipv4\<close> and \<^verbatim>\<open>stream_put_in_addr\<close> copy the four bytes of an address.\<close>

definition stream_put_ipv4 :: "stream \<Rightarrow> byte list \<Rightarrow> (nat \<times> stream) res" where
  "stream_put_ipv4 s l = bindE (stream_append s (take 4 l)) (\<lambda>s'. Inr (4, s'))"

definition stream_put_in_addr :: "stream \<Rightarrow> byte list \<Rightarrow> (nat \<times> stream) res" where
  "stream_put_in_addr s addr = bindE (stream_append s (take 4 addr)) (\<lambda>s'. Inr (4, s'))"

definition stream_put_prefix :: "stream \<Rightarrow> prefix \<Rightarrow> (nat \<times> stream) res" where
  "stream_put_prefix s p =
     bindE (STREAM_VERIFY_SANE s) (\<lambda>_.
       let psize = PSIZE (prefixlen p) in
       bindE (assertE (\<not> STREAM_WRITEABLE s < psize)) (\<lambda>_.
       bindE (stream_putc s (of_nat (prefixlen p))) (\<lambda>(_, s1).
       bindE (mem_read (u_prefix p) 0 psize) (\<lambda>bs.
       bindE (mem_write (s_data s1) (s_endp s1) bs) (\<lambda>d.
         Inr (psize, s1\<lparr>s_data := d, s_endp := szadd (s_endp s1) psize\<rparr>))))))"

definition stream_write :: "stream \<Rightarrow> byte list \<Rightarrow> nat \<Rightarrow> (nat \<times> stream) res" where
  "stream_write s ptr size0 =
     (let sz = CHECK_SIZE s size0 in
      bindE (STREAM_VERIFY_SANE s) (\<lambda>_.
      bindE (assertE (\<not> STREAM_WRITEABLE s < sz)) (\<lambda>_.
      bindE (mem_read ptr 0 sz) (\<lambda>bs.
      bindE (mem_write (s_data s) (s_endp s) bs) (\<lambda>d.
        Inr (sz, s\<lparr>s_data := d, s_endp := szadd (s_endp s) sz\<rparr>))))))"

definition stream_pnt :: "stream \<Rightarrow> nat res" where
  "stream_pnt s = bindE (STREAM_VERIFY_SANE s) (\<lambda>_. Inr (s_getp s))"

definition stream_empty :: "stream \<Rightarrow> bool res" where
  "stream_empty s = bindE (STREAM_VERIFY_SANE s) (\<lambda>_. Inr (s_endp s = 0))"

definition stream_reset :: "stream \<Rightarrow> stream res" where
  "stream_reset s = bindE (STREAM_VERIFY_SANE s) (\<lambda>_. Inr (s\<lparr>s_getp := 0, s_endp := 0\<rparr>))"

subsection \<open>Reading from and writing to file descriptors\<close>

text \<open>
  The result of one \<^verbatim>\<open>read\<close>, \<^verbatim>\<open>recvfrom\<close> or \<^verbatim>\<open>recvmsg\<close> system call: the bytes stored at the
  buffer (none at end of file), or an \<^verbatim>\<open>errno\<close>. The system call is an argument, a function of
  the number of bytes asked for. \<^verbatim>\<open>readn\<close> calls \<^verbatim>\<open>read\<close> repeatedly and takes the successive
  results as a list; when the list ends before it is done, the call is still blocked
  (\<^verbatim>\<open>None\<close>).
\<close>

datatype io_result = IoData "byte list" | IoErr nat

definition ERRNO_IO_RETRY :: "nat \<Rightarrow> bool" where
  "ERRNO_IO_RETRY en = (en = 11 \<or> en = 4)"

fun readn_loop :: "io_result list \<Rightarrow> int \<Rightarrow> int \<Rightarrow> byte list \<Rightarrow> (int \<times> byte list) option" where
  "readn_loop [] nbytes nleft acc = (if nleft > 0 then None else Some (nbytes - nleft, acc))"
| "readn_loop (r # rs) nbytes nleft acc =
     (if nleft > 0
      then case r of
             IoErr e \<Rightarrow> Some (-1, acc)
           | IoData bs \<Rightarrow>
               if bs = [] then Some (nbytes - nleft, acc)
               else readn_loop rs nbytes (nleft - int (length bs)) (acc @ bs)
      else Some (nbytes - nleft, acc))"

definition readn :: "io_result list \<Rightarrow> int \<Rightarrow> (int \<times> byte list) option" where
  "readn rs nbytes = readn_loop rs nbytes nbytes []"

definition stream_read :: "io_result list \<Rightarrow> stream \<Rightarrow> nat \<Rightarrow> (int \<times> stream) option res" where
  "stream_read rs s sz =
     bindE (STREAM_VERIFY_SANE s) (\<lambda>_.
     bindE (assertE (\<not> STREAM_WRITEABLE s < sz)) (\<lambda>_.
       case readn rs (to_int (int sz)) of
         None \<Rightarrow> Inr None
       | Some (nbytes, bs) \<Rightarrow>
           bindE (mem_write (s_data s) (s_endp s) bs) (\<lambda>d.
             let s1 = s\<lparr>s_data := d\<rparr> in
             Inr (Some (nbytes, if nbytes > 0 then s1\<lparr>s_endp := szadd (s_endp s) (nat nbytes)\<rparr> else s1)))))"

definition stream_read_unblock :: "(nat \<Rightarrow> io_result) \<Rightarrow> stream \<Rightarrow> nat \<Rightarrow> (int \<times> stream) res" where
  "stream_read_unblock read s sz =
     bindE (STREAM_VERIFY_SANE s) (\<lambda>_.
     bindE (assertE (\<not> STREAM_WRITEABLE s < sz)) (\<lambda>_.
       case read sz of
         IoErr e \<Rightarrow> Inr (-1, s)
       | IoData bs \<Rightarrow>
           bindE (mem_write (s_data s) (s_endp s) bs) (\<lambda>d.
             let s1 = s\<lparr>s_data := d\<rparr> in
             Inr (int (length bs),
                  if length bs > 0 then s1\<lparr>s_endp := szadd (s_endp s) (length bs)\<rparr> else s1))))"

definition stream_read_try :: "(nat \<Rightarrow> io_result) \<Rightarrow> stream \<Rightarrow> nat \<Rightarrow> (int \<times> stream) res" where
  "stream_read_try read s sz =
     bindE (STREAM_VERIFY_SANE s) (\<lambda>_.
     bindE (assertE (\<not> STREAM_WRITEABLE s < sz)) (\<lambda>_.
       case read sz of
         IoData bs \<Rightarrow>
           bindE (mem_write (s_data s) (s_endp s) bs) (\<lambda>d.
             Inr (int (length bs), s\<lparr>s_data := d, s_endp := szadd (s_endp s) (length bs)\<rparr>))
       | IoErr e \<Rightarrow> if ERRNO_IO_RETRY e then Inr (-2, s) else Inr (-1, s)))"

definition stream_recvfrom :: "(nat \<Rightarrow> io_result) \<Rightarrow> stream \<Rightarrow> nat \<Rightarrow> (int \<times> stream) res" where
  "stream_recvfrom recvfrom s sz =
     bindE (STREAM_VERIFY_SANE s) (\<lambda>_.
     bindE (assertE (\<not> STREAM_WRITEABLE s < sz)) (\<lambda>_.
       case recvfrom sz of
         IoData bs \<Rightarrow>
           bindE (mem_write (s_data s) (s_endp s) bs) (\<lambda>d.
             Inr (int (length bs), s\<lparr>s_data := d, s_endp := szadd (s_endp s) (length bs)\<rparr>))
       | IoErr e \<Rightarrow> if ERRNO_IO_RETRY e then Inr (-2, s) else Inr (-1, s)))"

definition stream_recvmsg :: "(nat \<Rightarrow> io_result) \<Rightarrow> nat \<Rightarrow> stream \<Rightarrow> nat \<Rightarrow> (int \<times> stream) res" where
  "stream_recvmsg recvmsg msg_iovlen s sz =
     bindE (STREAM_VERIFY_SANE s) (\<lambda>_.
     bindE (assertE (msg_iovlen > 0)) (\<lambda>_.
     bindE (assertE (\<not> STREAM_WRITEABLE s < sz)) (\<lambda>_.
       case recvmsg sz of
         IoErr e \<Rightarrow> Inr (-1, s)
       | IoData bs \<Rightarrow>
           bindE (mem_write (s_data s) (s_endp s) bs) (\<lambda>d.
             let s1 = s\<lparr>s_data := d\<rparr> in
             Inr (int (length bs),
                  if length bs > 0 then s1\<lparr>s_endp := szadd (s_endp s) (length bs)\<rparr> else s1)))))"

definition stream_flush :: "(byte list \<Rightarrow> int) \<Rightarrow> stream \<Rightarrow> int res" where
  "stream_flush write s =
     bindE (STREAM_VERIFY_SANE s) (\<lambda>_.
     bindE (mem_read (s_data s) (s_getp s) (szsub (s_endp s) (s_getp s))) (\<lambda>bs. Inr (write bs)))"

subsection \<open>The stream FIFO\<close>

text \<open>
  The queue links streams through their \<^verbatim>\<open>next\<close> fields. \<open>f_next\<close> is the store of those fields:
  a stream that is not allocated has no entry, an allocated one maps to its \<^verbatim>\<open>next\<close> pointer.
\<close>

type_synonym addr = nat

record stream_fifo =
  f_count :: nat
  f_head :: "addr option"
  f_tail :: "addr option"
  f_next :: "addr \<rightharpoonup> addr option"

definition stream_fifo_new :: "(addr \<rightharpoonup> addr option) \<Rightarrow> stream_fifo" where
  "stream_fifo_new store = \<lparr>f_count = 0, f_head = None, f_tail = None, f_next = store\<rparr>"

definition stream_fifo_push :: "stream_fifo \<Rightarrow> addr \<Rightarrow> stream_fifo res" where
  "stream_fifo_push fifo s =
     bindE (case f_tail fifo of
              Some t \<Rightarrow> (case f_next fifo t of
                          None \<Rightarrow> Inl NullDeref
                        | Some _ \<Rightarrow> Inr (fifo\<lparr>f_next := (f_next fifo)(t \<mapsto> Some s)\<rparr>))
            | None \<Rightarrow> Inr (fifo\<lparr>f_head := Some s\<rparr>)) (\<lambda>f1.
       Inr (f1\<lparr>f_tail := Some s, f_count := szadd (f_count fifo) 1\<rparr>))"

definition stream_fifo_pop :: "stream_fifo \<Rightarrow> (addr option \<times> stream_fifo) res" where
  "stream_fifo_pop fifo =
     (case f_head fifo of
        None \<Rightarrow> Inr (None, fifo)
      | Some s \<Rightarrow>
          (case f_next fifo s of
             None \<Rightarrow> Inl NullDeref
           | Some n \<Rightarrow>
               let f1 = fifo\<lparr>f_head := n\<rparr>;
                   f2 = (if f_head f1 = None then f1\<lparr>f_tail := None\<rparr> else f1)
               in Inr (Some s, f2\<lparr>f_count := szsub (f_count f2) 1\<rparr>)))"

definition stream_fifo_head :: "stream_fifo \<Rightarrow> addr option" where
  "stream_fifo_head fifo = f_head fifo"

text \<open>\<^verbatim>\<open>stream_fifo_clean\<close>: the loop frees each stream after reading its \<^verbatim>\<open>next\<close> field.\<close>

partial_function (option) fifo_clean_loop ::
    "addr option \<Rightarrow> (addr \<rightharpoonup> addr option) \<Rightarrow> (addr \<rightharpoonup> addr option) res option" where
  "fifo_clean_loop s store =
     (case s of
        None \<Rightarrow> Some (Inr store)
      | Some a \<Rightarrow>
          (case store a of
             None \<Rightarrow> Some (Inl NullDeref)
           | Some n \<Rightarrow> fifo_clean_loop n (store(a := None))))"

definition stream_fifo_clean :: "stream_fifo \<Rightarrow> stream_fifo res option" where
  "stream_fifo_clean fifo =
     map_option (\<lambda>r. bindE r (\<lambda>store.
        Inr \<lparr>f_count = 0, f_head = None, f_tail = None, f_next = store\<rparr>))
       (fifo_clean_loop (f_head fifo) (f_next fifo))"

subsection \<open>The invariant and the abstract view\<close>

text \<open>The documented constraint \<^verbatim>\<open>getp <= endp <= size\<close>, with the allocated block the size says.
  A stream is, abstractly, the queue of its unread bytes together with the room left.\<close>

definition stream_ok :: "stream \<Rightarrow> bool" where
  "stream_ok s \<longleftrightarrow> s_getp s \<le> s_endp s \<and> s_endp s \<le> s_size s \<and>
     length (s_data s) = s_size s \<and> s_size s < SIZE_LIM"

definition unread :: "stream \<Rightarrow> byte list" where
  "unread s = drop (s_getp s) (take (s_endp s) (s_data s))"

definition room :: "stream \<Rightarrow> nat" where
  "room s = s_size s - s_endp s"

lemma sane_ok [simp]: "stream_ok s \<Longrightarrow> STREAM_VERIFY_SANE s = Inr ()"
  by (simp add: stream_ok_def STREAM_VERIFY_SANE_def GETP_VALID_def ENDP_VALID_def)

lemma writeable_ok [simp]: "stream_ok s \<Longrightarrow> STREAM_WRITEABLE s = room s"
  by (simp add: stream_ok_def STREAM_WRITEABLE_def room_def)

lemma length_unread: "stream_ok s \<Longrightarrow> length (unread s) = s_endp s - s_getp s"
  by (simp add: stream_ok_def unread_def)

lemma readable_ok [simp]: "stream_ok s \<Longrightarrow> STREAM_READABLE s = length (unread s)"
  by (simp add: length_unread) (simp add: stream_ok_def STREAM_READABLE_def)

text \<open>What a successful write of \<open>bs\<close> at the end does, shared by every putter and reader.\<close>

definition appended :: "stream \<Rightarrow> byte list \<Rightarrow> stream" where
  "appended s bs = s\<lparr>s_data := take (s_endp s) (s_data s) @ bs @ drop (s_endp s + length bs) (s_data s),
     s_endp := s_endp s + length bs\<rparr>"

lemma appended_ok:
  assumes "stream_ok s" "length bs \<le> room s"
  shows "stream_ok (appended s bs)" "unread (appended s bs) = unread s @ bs"
    "room (appended s bs) = room s - length bs"
  using assms by (auto simp: stream_ok_def room_def appended_def unread_def)

lemma write_at_end:
  assumes "stream_ok s" "length bs \<le> room s"
  shows "mem_write (s_data s) (s_endp s) bs = Inr (s_data (appended s bs))"
    "szadd (s_endp s) (length bs) = s_endp s + length bs"
  using assms by (auto simp: stream_ok_def room_def appended_def mem_write_def)

lemma stream_append_appended:
  assumes "stream_ok s" "length bs \<le> room s"
  shows "stream_append s bs = Inr (appended s bs)"
  using assms write_at_end[OF assms] by (simp add: stream_append_def appended_def)

lemma stream_append_full:
  "stream_ok s \<Longrightarrow> room s < length bs \<Longrightarrow> stream_append s bs = Inl Abort"
  by (simp add: stream_append_def assertE_def)

lemma stream_get_fetch:
  assumes "stream_ok s" "n \<le> length (unread s)"
  shows "stream_get s n = Inr (take n (unread s), s\<lparr>s_getp := s_getp s + n\<rparr>)"
    "stream_ok (s\<lparr>s_getp := s_getp s + n\<rparr>)"
    "unread (s\<lparr>s_getp := s_getp s + n\<rparr>) = drop n (unread s)"
    "room (s\<lparr>s_getp := s_getp s + n\<rparr>) = room s"
proof -
  have b: "s_getp s + n \<le> s_endp s" "s_endp s \<le> length (s_data s)" "s_getp s + n < SIZE_LIM"
    using assms by (auto simp: length_unread stream_ok_def)
  have "take n (drop (s_getp s) (s_data s)) = take n (unread s)"
    using b by (simp add: unread_def drop_take min_def)
  then show "stream_get s n = Inr (take n (unread s), s\<lparr>s_getp := s_getp s + n\<rparr>)"
    using assms b by (simp add: stream_get_def mem_read_def)
  show "stream_ok (s\<lparr>s_getp := s_getp s + n\<rparr>)"
    "unread (s\<lparr>s_getp := s_getp s + n\<rparr>) = drop n (unread s)"
    "room (s\<lparr>s_getp := s_getp s + n\<rparr>) = room s"
    using assms b by (auto simp: stream_ok_def unread_def room_def drop_drop add.commute)
qed

lemma stream_get_short:
  "stream_ok s \<Longrightarrow> length (unread s) < n \<Longrightarrow> stream_get s n = Inl Abort"
  by (simp add: stream_get_def assertE_def)

subsection \<open>Interfaces: byte queues and wire fields\<close>

text \<open>What the message encoders and decoders rely on: bytes come back in the order they were
  put, an exhausted buffer aborts, and nothing is ever read or written out of bounds.\<close>

locale byte_queue =
  fixes ok :: "'s \<Rightarrow> bool"
    and content :: "'s \<Rightarrow> byte list"
    and space :: "'s \<Rightarrow> nat"
    and put_bytes :: "'s \<Rightarrow> byte list \<Rightarrow> 's res"
    and get_bytes :: "'s \<Rightarrow> nat \<Rightarrow> (byte list \<times> 's) res"
  assumes put_ok: "ok s \<Longrightarrow> length bs \<le> space s \<Longrightarrow>
      \<exists>s'. put_bytes s bs = Inr s' \<and> ok s' \<and> content s' = content s @ bs
           \<and> space s' = space s - length bs"
    and put_full: "ok s \<Longrightarrow> space s < length bs \<Longrightarrow> put_bytes s bs = Inl Abort"
    and get_ok: "ok s \<Longrightarrow> n \<le> length (content s) \<Longrightarrow>
      \<exists>s'. get_bytes s n = Inr (take n (content s), s') \<and> ok s' \<and> content s' = drop n (content s)
           \<and> space s' = space s"
    and get_short: "ok s \<Longrightarrow> length (content s) < n \<Longrightarrow> get_bytes s n = Inl Abort"

locale wire_field = byte_queue +
  fixes width :: nat
    and enc :: "'v \<Rightarrow> byte list"
    and dec :: "byte list \<Rightarrow> 'v"
    and putter :: "'a \<Rightarrow> 'v \<Rightarrow> (nat \<times> 'a) res"
    and getter :: "'a \<Rightarrow> ('v \<times> 'a) res"
  assumes length_enc: "length (enc v) = width"
    and dec_enc: "dec (enc v) = v"
    and putter_eq: "putter s v = bindE (put_bytes s (enc v)) (\<lambda>s'. Inr (width, s'))"
    and getter_eq: "getter s = bindE (get_bytes s width) (\<lambda>(bs, s'). Inr (dec bs, s'))"
begin

lemma putter_ok:
  assumes "ok s" "width \<le> space s"
  shows "\<exists>s'. putter s v = Inr (width, s') \<and> ok s' \<and> content s' = content s @ enc v
           \<and> space s' = space s - width"
  using put_ok[of s "enc v"] assms by (auto simp: putter_eq length_enc)

lemma putter_full: "ok s \<Longrightarrow> space s < width \<Longrightarrow> putter s v = Inl Abort"
  using put_full[of s "enc v"] by (simp add: putter_eq length_enc)

lemma getter_ok:
  assumes "ok s" "content s = enc v @ rest"
  shows "\<exists>s'. getter s = Inr (v, s') \<and> ok s' \<and> content s' = rest \<and> space s' = space s"
  using get_ok[of s width] assms by (auto simp: getter_eq length_enc dec_enc)

lemma getter_any:
  assumes "ok s" "width \<le> length (content s)"
  shows "\<exists>v s'. getter s = Inr (v, s') \<and> ok s' \<and> content s' = drop width (content s)"
  using get_ok[OF assms] by (auto simp: getter_eq)

lemma getter_short: "ok s \<Longrightarrow> length (content s) < width \<Longrightarrow> getter s = Inl Abort"
  using get_short[of s width] by (simp add: getter_eq)

end

interpretation stream_queue: byte_queue stream_ok unread room stream_append stream_get
  by unfold_locales
    (auto simp: stream_append_appended appended_ok stream_append_full stream_get_fetch
      stream_get_short)

interpretation field_c: wire_field stream_ok unread room stream_append stream_get
    1 bytes8 be8 stream_putc stream_getc
  by unfold_locales (simp_all add: codec_simps stream_putc_def stream_getc_def)

interpretation field_w: wire_field stream_ok unread room stream_append stream_get
    2 bytes16 be16 stream_putw stream_getw
  by unfold_locales (simp_all add: codec_simps stream_putw_def stream_getw_def)

interpretation field_l: wire_field stream_ok unread room stream_append stream_get
    4 bytes32 be32 stream_putl stream_getl
  by unfold_locales (simp_all add: codec_simps stream_putl_def stream_getl_def)

interpretation field_q: wire_field stream_ok unread room stream_append stream_get
    8 bytes64 be64 stream_putq stream_getq
  by unfold_locales (simp_all add: codec_simps stream_putq_def stream_getq_def)

subsection \<open>Messages as sequences of typed fields\<close>

datatype wfield = FieldC u8 | FieldW u16 | FieldL u32 | FieldQ u64

fun field_width :: "wfield \<Rightarrow> nat" where
  "field_width (FieldC _) = 1"
| "field_width (FieldW _) = 2"
| "field_width (FieldL _) = 4"
| "field_width (FieldQ _) = 8"

fun put_field :: "stream \<Rightarrow> wfield \<Rightarrow> (nat \<times> stream) res" where
  "put_field s (FieldC c) = stream_putc s c"
| "put_field s (FieldW w) = stream_putw s w"
| "put_field s (FieldL l) = stream_putl s l"
| "put_field s (FieldQ q) = stream_putq s q"

text \<open>The reader knows the kinds of the fields, not their values.\<close>

datatype wkind = KindC | KindW | KindL | KindQ

fun kind_of :: "wfield \<Rightarrow> wkind" where
  "kind_of (FieldC _) = KindC"
| "kind_of (FieldW _) = KindW"
| "kind_of (FieldL _) = KindL"
| "kind_of (FieldQ _) = KindQ"

fun get_field :: "stream \<Rightarrow> wkind \<Rightarrow> (wfield \<times> stream) res" where
  "get_field s KindC = bindE (stream_getc s) (\<lambda>(c, s'). Inr (FieldC c, s'))"
| "get_field s KindW = bindE (stream_getw s) (\<lambda>(w, s'). Inr (FieldW w, s'))"
| "get_field s KindL = bindE (stream_getl s) (\<lambda>(l, s'). Inr (FieldL l, s'))"
| "get_field s KindQ = bindE (stream_getq s) (\<lambda>(q, s'). Inr (FieldQ q, s'))"

fun put_fields :: "stream \<Rightarrow> wfield list \<Rightarrow> stream res" where
  "put_fields s [] = Inr s"
| "put_fields s (f # fs) = bindE (put_field s f) (\<lambda>(_, s'). put_fields s' fs)"

fun get_fields :: "stream \<Rightarrow> wkind list \<Rightarrow> (wfield list \<times> stream) res" where
  "get_fields s [] = Inr ([], s)"
| "get_fields s (k # ks) =
     bindE (get_field s k) (\<lambda>(v, s'). bindE (get_fields s' ks) (\<lambda>(vs, s''). Inr (v # vs, s'')))"

fun field_bytes :: "wfield \<Rightarrow> byte list" where
  "field_bytes (FieldC c) = bytes8 c"
| "field_bytes (FieldW w) = bytes16 w"
| "field_bytes (FieldL l) = bytes32 l"
| "field_bytes (FieldQ q) = bytes64 q"

lemma put_field_ok:
  assumes "stream_ok s" "field_width f \<le> room s"
  shows "\<exists>s'. put_field s f = Inr (field_width f, s') \<and> stream_ok s' \<and>
    unread s' = unread s @ field_bytes f \<and> room s' = room s - field_width f"
  using assms field_c.putter_ok field_w.putter_ok field_l.putter_ok field_q.putter_ok
  by (cases f) auto

lemma put_field_full:
  "stream_ok s \<Longrightarrow> room s < field_width f \<Longrightarrow> put_field s f = Inl Abort"
  using field_c.putter_full field_w.putter_full field_l.putter_full field_q.putter_full
  by (cases f) auto

lemma get_field_ok:
  assumes "stream_ok s" "unread s = field_bytes f @ rest"
  shows "\<exists>s'. get_field s (kind_of f) = Inr (f, s') \<and> stream_ok s' \<and> unread s' = rest"
proof (cases f)
  case (FieldC c)
  with assms field_c.getter_ok[of s c rest] show ?thesis by fastforce
next
  case (FieldW w)
  with assms field_w.getter_ok[of s w rest] show ?thesis by fastforce
next
  case (FieldL l)
  with assms field_l.getter_ok[of s l rest] show ?thesis by fastforce
next
  case (FieldQ q)
  with assms field_q.getter_ok[of s q rest] show ?thesis by fastforce
qed

lemma put_fields_ok:
  "stream_ok s \<Longrightarrow> sum_list (map field_width fs) \<le> room s \<Longrightarrow>
     \<exists>s'. put_fields s fs = Inr s' \<and> stream_ok s' \<and>
       unread s' = unread s @ concat (map field_bytes fs)"
proof (induction fs arbitrary: s)
  case (Cons f fs)
  from Cons.prems have "field_width f \<le> room s" by simp
  with put_field_ok Cons.prems(1) obtain s1 where s1: "put_field s f = Inr (field_width f, s1)"
    "stream_ok s1" "unread s1 = unread s @ field_bytes f" "room s1 = room s - field_width f"
    by blast
  moreover from s1 Cons.prems(2) have "sum_list (map field_width fs) \<le> room s1" by simp
  ultimately obtain s' where "put_fields s1 fs = Inr s'" "stream_ok s'"
      "unread s' = unread s1 @ concat (map field_bytes fs)"
    using Cons.IH[of s1] by blast
  with s1 show ?case by auto
qed simp

lemma get_fields_ok:
  "stream_ok s \<Longrightarrow> unread s = concat (map field_bytes fs) @ rest \<Longrightarrow>
     \<exists>s'. get_fields s (map kind_of fs) = Inr (fs, s') \<and> stream_ok s' \<and> unread s' = rest"
proof (induction fs arbitrary: s)
  case (Cons f fs)
  from get_field_ok[of s f] Cons.prems obtain s1 where s1: "get_field s (kind_of f) = Inr (f, s1)"
    "stream_ok s1" "unread s1 = concat (map field_bytes fs) @ rest"
    by auto
  with Cons.IH[of s1] obtain s' where "get_fields s1 (map kind_of fs) = Inr (fs, s')" "stream_ok s'" "unread s' = rest"
    by blast
  with s1 show ?case by auto
qed simp

text \<open>C23: any sequence of 8, 16, 32 and 64-bit fields that fits into an empty stream, written
  with \<^verbatim>\<open>stream_putc\<close>, \<^verbatim>\<open>stream_putw\<close>, \<^verbatim>\<open>stream_putl\<close> and \<^verbatim>\<open>stream_putq\<close>, is read back by
  the getters of the same kinds as the same values, and nothing is left unread.\<close>

lemma message_roundtrip:
  assumes "stream_ok s" "unread s = []" "sum_list (map field_width fs) \<le> room s"
  shows "\<exists>s1 s2. put_fields s fs = Inr s1 \<and> get_fields s1 (map kind_of fs) = Inr (fs, s2) \<and> unread s2 = []"
proof -
  obtain s1 where "put_fields s fs = Inr s1" "stream_ok s1" "unread s1 = concat (map field_bytes fs)"
    using put_fields_ok assms by fastforce
  then show ?thesis using get_fields_ok[of s1 fs "[]"] by auto
qed

lemma message_roundtrip_witness:
  "\<exists>s1 s2. put_fields \<lparr>s_getp = 0, s_endp = 0, s_size = 9, s_data = replicate 9 0\<rparr>
       [FieldC 7, FieldW 0x1234, FieldL 5] = Inr s1 \<and>
     get_fields s1 (map kind_of [FieldC 7, FieldW 0x1234, FieldL 5]) =
       Inr ([FieldC 7, FieldW 0x1234, FieldL 5], s2) \<and> unread s2 = []"
  by (rule message_roundtrip) (simp_all add: stream_ok_def SIZE_LIM_def unread_def room_def)

subsection \<open>Every operation keeps the invariant\<close>

lemma stream_new_ok:
  assumes "0 < n" "n < SIZE_LIM"
  shows "\<exists>s. stream_new junk n = Inr s \<and> stream_ok s \<and> unread s = [] \<and> room s = n"
  using assms by (auto simp: stream_new_def stream_ok_def unread_def room_def)

lemma stream_patch_ok:
  assumes "stream_ok s" "putp + length bs < SIZE_LIM"
  shows "stream_patch s putp bs =
     (if putp + length bs \<le> s_endp s
      then Inr (s\<lparr>s_data := take putp (s_data s) @ bs @ drop (putp + length bs) (s_data s)\<rparr>)
      else Inl Abort)"
  using assms by (auto simp: stream_patch_def GETP_VALID_def mem_write_def stream_ok_def
      STREAM_VERIFY_SANE_def ENDP_VALID_def bindE_assertE)

lemma check_size_ok:
  assumes "stream_ok s" "z + s_endp s < SIZE_LIM"
  shows "CHECK_SIZE s z = min z (room s)"
  using assms by (auto simp: CHECK_SIZE_def stream_ok_def room_def min_def add.commute)

lemma stream_put_spec:
  assumes "stream_ok s" "z + s_endp s < SIZE_LIM" "z \<le> length bs"
  shows "stream_put s (Some bs) z = Inr (appended s (take (min z (room s)) bs))"
proof -
  let ?w = "take (min z (room s)) bs"
  have w: "length ?w = min z (room s)" "length ?w \<le> room s" using assms(3) by auto
  show ?thesis
    using assms w write_at_end[OF assms(1) w(2)] check_size_ok[OF assms(1,2)]
    by (simp add: stream_put_def mem_read_def appended_def Let_def)
qed

lemma stream_put_zero_spec:
  assumes "stream_ok s" "z + s_endp s < SIZE_LIM"
  shows "stream_put s None z = Inr (appended s (replicate (min z (room s)) 0))"
proof -
  let ?w = "replicate (min z (room s)) 0 :: byte list"
  have w: "length ?w = min z (room s)" "length ?w \<le> room s" by auto
  show ?thesis
    using assms w write_at_end[OF assms(1) w(2)] check_size_ok[OF assms(1,2)]
    by (simp add: stream_put_def appended_def Let_def)
qed

text \<open>\<^verbatim>\<open>stream_put\<close> never fails on a full stream: it appends the part of the source that
  fits and silently drops the rest.\<close>

lemma stream_put_truncates:
  assumes "stream_ok s" "z + s_endp s < SIZE_LIM" "z \<le> length bs"
  shows "\<exists>s'. stream_put s (Some bs) z = Inr s' \<and> stream_ok s' \<and>
    unread s' = unread s @ take (min z (room s)) bs"
proof -
  have "length (take (min z (room s)) bs) \<le> room s" by simp
  from appended_ok[OF assms(1) this] stream_put_spec[OF assms] show ?thesis by auto
qed

lemma stream_put_truncates_witness:
  "\<exists>s'. stream_put \<lparr>s_getp = 0, s_endp = 0, s_size = 2, s_data = [0, 0]\<rparr> (Some [1, 2, 3]) 3 = Inr s' \<and>
     stream_ok s' \<and> unread s' = [1, 2]"
  using stream_put_truncates[of "\<lparr>s_getp = 0, s_endp = 0, s_size = 2, s_data = [0, 0]\<rparr>" 3 "[1, 2, 3]"]
  by (auto simp: SIZE_LIM_def unread_def room_def stream_ok_def)

lemma check_size_le: "stream_ok s \<Longrightarrow> CHECK_SIZE s z \<le> z"
  by (auto simp: CHECK_SIZE_def stream_ok_def szadd_def room_def SIZE_LIM_def)

subsection \<open>Streams in use: every reachable stream satisfies the invariant\<close>

fun put_field_at :: "stream \<Rightarrow> nat \<Rightarrow> wfield \<Rightarrow> (nat \<times> stream) res" where
  "put_field_at s putp (FieldC c) = stream_putc_at s putp c"
| "put_field_at s putp (FieldW w) = stream_putw_at s putp w"
| "put_field_at s putp (FieldL l) = stream_putl_at s putp l"
| "put_field_at s putp (FieldQ q) = stream_putq_at s putp q"

fun get_field_from :: "stream \<Rightarrow> nat \<Rightarrow> wkind \<Rightarrow> wfield res" where
  "get_field_from s from KindC = bindE (stream_getc_from s from) (\<lambda>c. Inr (FieldC c))"
| "get_field_from s from KindW = bindE (stream_getw_from s from) (\<lambda>w. Inr (FieldW w))"
| "get_field_from s from KindL = bindE (stream_getl_from s from) (\<lambda>l. Inr (FieldL l))"
| "get_field_from s from KindQ = bindE (stream_getq_from s from) (\<lambda>q. Inr (FieldQ q))"

text \<open>The functions of \<^verbatim>\<open>stream.c\<close> that take a stream, but for \<^verbatim>\<open>stream_free\<close> and the two variants of
  \<^verbatim>\<open>stream_read_try\<close> for control messages. A call of \<^verbatim>\<open>stream_read\<close> that is still blocked leaves the stream as
  it is; \<^verbatim>\<open>stream_dup\<close> goes on with the copy.\<close>

datatype stream_op =
    OpGet nat | OpGetField wkind | OpSetGetp nat | OpForwardGetp nat | OpForwardEndp nat
  | OpPutField wfield | OpPutFieldAt nat wfield | OpPutIpv4 "byte list"
  | OpPut "byte list option" nat | OpWrite "byte list" nat
  | OpReadTry io_result nat | OpRecvmsg io_result nat
  | OpReset | OpResize "nat \<Rightarrow> byte" nat | OpCopyFrom stream
  | OpGetFieldFrom nat wkind | OpGetIpv4 | OpSetEndp nat | OpPutInAddr "byte list" | OpPutPrefix prefix
  | OpRead "io_result list" nat | OpReadUnblock io_result nat | OpRecvfrom io_result nat | OpFlush int
  | OpDup "nat \<Rightarrow> byte" | OpGetGetp | OpGetEndp | OpGetSize | OpPnt | OpEmpty

fun stream_exec :: "stream_op \<Rightarrow> stream \<Rightarrow> stream res" where
  "stream_exec (OpGet n) s = bindE (stream_get s n) (\<lambda>(_, s'). Inr s')"
| "stream_exec (OpGetField k) s = bindE (get_field s k) (\<lambda>(_, s'). Inr s')"
| "stream_exec (OpSetGetp pos) s = stream_set_getp s pos"
| "stream_exec (OpForwardGetp n) s = stream_forward_getp s n"
| "stream_exec (OpForwardEndp n) s = stream_forward_endp s n"
| "stream_exec (OpPutField f) s = bindE (put_field s f) (\<lambda>(_, s'). Inr s')"
| "stream_exec (OpPutFieldAt p f) s = bindE (put_field_at s p f) (\<lambda>(_, s'). Inr s')"
| "stream_exec (OpPutIpv4 a) s = bindE (stream_put_ipv4 s a) (\<lambda>(_, s'). Inr s')"
| "stream_exec (OpPut src z) s = stream_put s src z"
| "stream_exec (OpWrite bs z) s = bindE (stream_write s bs z) (\<lambda>(_, s'). Inr s')"
| "stream_exec (OpReadTry r z) s = bindE (stream_read_try (\<lambda>_. r) s z) (\<lambda>(_, s'). Inr s')"
| "stream_exec (OpRecvmsg r z) s = bindE (stream_recvmsg (\<lambda>_. r) 1 s z) (\<lambda>(_, s'). Inr s')"
| "stream_exec OpReset s = stream_reset s"
| "stream_exec (OpResize junk n) s = bindE (stream_resize junk s n) (\<lambda>(_, s'). Inr s')"
| "stream_exec (OpCopyFrom src) s = stream_copy s src"
| "stream_exec (OpGetFieldFrom from k) s = bindE (get_field_from s from k) (\<lambda>_. Inr s)"
| "stream_exec OpGetIpv4 s = bindE (stream_get_ipv4 s) (\<lambda>(_, s'). Inr s')"
| "stream_exec (OpSetEndp pos) s = stream_set_endp s pos"
| "stream_exec (OpPutInAddr a) s = bindE (stream_put_in_addr s a) (\<lambda>(_, s'). Inr s')"
| "stream_exec (OpPutPrefix p) s = bindE (stream_put_prefix s p) (\<lambda>(_, s'). Inr s')"
| "stream_exec (OpRead rs z) s = bindE (stream_read rs s z) (\<lambda>r. Inr (case r of None \<Rightarrow> s | Some (_, s') \<Rightarrow> s'))"
| "stream_exec (OpReadUnblock r z) s = bindE (stream_read_unblock (\<lambda>_. r) s z) (\<lambda>(_, s'). Inr s')"
| "stream_exec (OpRecvfrom r z) s = bindE (stream_recvfrom (\<lambda>_. r) s z) (\<lambda>(_, s'). Inr s')"
| "stream_exec (OpFlush w) s = bindE (stream_flush (\<lambda>_. w) s) (\<lambda>_. Inr s)"
| "stream_exec (OpDup junk) s = stream_dup junk s"
| "stream_exec OpGetGetp s = bindE (stream_get_getp s) (\<lambda>_. Inr s)"
| "stream_exec OpGetEndp s = bindE (stream_get_endp s) (\<lambda>_. Inr s)"
| "stream_exec OpGetSize s = bindE (stream_get_size s) (\<lambda>_. Inr s)"
| "stream_exec OpPnt s = bindE (stream_pnt s) (\<lambda>_. Inr s)"
| "stream_exec OpEmpty s = bindE (stream_empty s) (\<lambda>_. Inr s)"

text \<open>
  What a caller guarantees, because the functions do not check it: offsets do not wrap, a source holds the
  bytes it is said to hold, a system call stores at most what it was asked for, and the size of a
  \<^verbatim>\<open>stream_read\<close> is an \<^verbatim>\<open>int\<close>. Two functions need more than their own checks: \<^verbatim>\<open>stream_set_endp\<close> a position that is
  not below the read pointer (\<open>stream_set_endp_breaks\<close>), and \<^verbatim>\<open>stream_put_prefix\<close> a room that is not exactly the
  size of the address, where its length byte makes it overrun the buffer (\<open>stream_put_prefix_overrun\<close>).
\<close>

fun reads_within :: "io_result list \<Rightarrow> nat \<Rightarrow> bool" where
  "reads_within (IoData bs # rs) n = (length bs \<le> n \<and> reads_within rs (n - length bs))"
| "reads_within _ n = True"

fun op_valid :: "stream \<Rightarrow> stream_op \<Rightarrow> bool" where
  "op_valid s (OpForwardEndp n) = (s_endp s + n < SIZE_LIM)"
| "op_valid s (OpPutFieldAt p f) = (p + 8 < SIZE_LIM)"
| "op_valid s (OpPut (Some bs) z) = (z \<le> length bs)"
| "op_valid s (OpWrite bs z) = (z \<le> length bs)"
| "op_valid s (OpReadTry (IoData bs) z) = (length bs \<le> z)"
| "op_valid s (OpRecvmsg (IoData bs) z) = (length bs \<le> z)"
| "op_valid s (OpResize junk n) = (n < SIZE_LIM)"
| "op_valid s (OpCopyFrom src) = stream_ok src"
| "op_valid s (OpGetFieldFrom from k) = (from + 8 < SIZE_LIM)"
| "op_valid s (OpSetEndp pos) = (s_getp s \<le> pos)"
| "op_valid s (OpPutPrefix p) = (wf_prefix p \<and> (0 < PSIZE (prefixlen p) \<longrightarrow> room s \<noteq> PSIZE (prefixlen p)))"
| "op_valid s (OpRead rs z) = (z < 2 ^ 31 \<and> reads_within rs z)"
| "op_valid s (OpReadUnblock (IoData bs) z) = (length bs \<le> z)"
| "op_valid s (OpRecvfrom (IoData bs) z) = (length bs \<le> z)"
| "op_valid s _ = True"

definition safe_result :: "stream res \<Rightarrow> bool" where
  "safe_result r \<longleftrightarrow> r = Inl Abort \<or> (\<exists>s. r = Inr s \<and> stream_ok s)"

lemma safe_result_simps [simp]:
  "safe_result (Inr s) = stream_ok s" "safe_result (Inl e) = (e = Abort)"
  by (auto simp: safe_result_def)

lemma safe_get: "stream_ok s \<Longrightarrow> safe_result (bindE (stream_get s n) (\<lambda>(_, s'). Inr s'))"
  by (cases "n \<le> length (unread s)") (auto simp: stream_get_fetch stream_get_short)

lemma safe_get_field: "stream_ok s \<Longrightarrow> safe_result (bindE (get_field s k) (\<lambda>(_, s'). Inr s'))"
  using safe_get[of s 1] safe_get[of s 2] safe_get[of s 4] safe_get[of s 8]
  by (cases k) (auto simp: stream_getc_def stream_getw_def stream_getl_def stream_getq_def
      bindE_assoc case_prod_unfold)

lemma safe_append: "stream_ok s \<Longrightarrow> safe_result (stream_append s bs)"
  by (cases "length bs \<le> room s") (auto simp: stream_append_appended stream_append_full appended_ok)

lemma safe_put_field: "stream_ok s \<Longrightarrow> safe_result (bindE (put_field s f) (\<lambda>(_, s'). Inr s'))"
  using put_field_ok[of s f] put_field_full[of s f]
  by (cases "field_width f \<le> room s") auto

lemma patched_ok:
  assumes "stream_ok s" "putp + length bs < SIZE_LIM"
  shows "safe_result (stream_patch s putp bs)"
  using assms by (auto simp: stream_patch_ok) (auto simp: stream_ok_def)

lemma safe_put_field_at:
  "stream_ok s \<Longrightarrow> p + 8 < SIZE_LIM \<Longrightarrow> safe_result (bindE (put_field_at s p f) (\<lambda>(_, s'). Inr s'))"
  using patched_ok[of s p "field_bytes f"]
  by (cases f) (auto simp: stream_putc_at_def stream_putw_at_def stream_putl_at_def
      stream_putq_at_def bindE_assoc codec_simps)

text \<open>The write path shared by \<^verbatim>\<open>stream_put\<close>, \<^verbatim>\<open>stream_write\<close> and the readers.\<close>

lemma safe_write_at_end:
  assumes "stream_ok s" "length bs \<le> room s"
  shows "safe_result (bindE (mem_write (s_data s) (s_endp s) bs)
           (\<lambda>d. Inr (s\<lparr>s_data := d, s_endp := szadd (s_endp s) (length bs)\<rparr>)))"
  using appended_ok(1)[OF assms] write_at_end[OF assms] by (simp add: appended_def)

lemma safe_put:
  assumes "stream_ok s" "\<And>bs. src = Some bs \<Longrightarrow> z \<le> length bs"
  shows "safe_result (stream_put s src z)"
proof -
  let ?z = "CHECK_SIZE s z"
  show ?thesis
  proof (cases "room s < ?z")
    case True
    with assms(1) show ?thesis by (simp add: stream_put_def Let_def assertE_def)
  next
    case False
    with assms check_size_le[OF assms(1), of z] safe_write_at_end[OF assms(1), of "replicate ?z 0"]
    show ?thesis
      using safe_write_at_end[OF assms(1), of "take ?z (the src)"]
      by (cases src) (auto simp: stream_put_def Let_def mem_read_def)
  qed
qed

lemma safe_write:
  assumes "stream_ok s" "z \<le> length bs"
  shows "safe_result (bindE (stream_write s bs z) (\<lambda>(_, s'). Inr s'))"
proof (cases "room s < CHECK_SIZE s z")
  case True
  with assms(1) show ?thesis by (simp add: stream_write_def Let_def assertE_def)
next
  case False
  with assms check_size_le[OF assms(1), of z]
    safe_write_at_end[OF assms(1), of "take (CHECK_SIZE s z) bs"]
  show ?thesis by (auto simp: stream_write_def Let_def mem_read_def bindE_assoc)
qed

lemma safe_read_try:
  assumes "stream_ok s" "\<And>bs. r = IoData bs \<Longrightarrow> length bs \<le> z"
  shows "safe_result (bindE (stream_read_try (\<lambda>_. r) s z) (\<lambda>(_, s'). Inr s'))"
proof (cases "room s < z")
  case True
  with assms(1) show ?thesis by (simp add: stream_read_try_def assertE_def)
next
  case False
  with assms safe_write_at_end[OF assms(1)] show ?thesis
    by (cases r) (auto simp: stream_read_try_def bindE_assoc)
qed

lemma safe_recvmsg:
  assumes "stream_ok s" "\<And>bs. r = IoData bs \<Longrightarrow> length bs \<le> z"
  shows "safe_result (bindE (stream_recvmsg (\<lambda>_. r) 1 s z) (\<lambda>(_, s'). Inr s'))"
proof (cases "room s < z")
  case True
  with assms(1) show ?thesis by (simp add: stream_recvmsg_def assertE_def)
next
  case False
  show ?thesis
  proof (cases r)
    case (IoErr e)
    with False assms(1) show ?thesis by (simp add: stream_recvmsg_def)
  next
    case (IoData bs)
    with False assms safe_write_at_end[OF assms(1), of bs] show ?thesis
      by (cases "bs = []") (auto simp: stream_recvmsg_def bindE_assoc Let_def mem_write_def stream_ok_def)
  qed
qed

lemma safe_resize:
  assumes "stream_ok s" "n < SIZE_LIM"
  shows "safe_result (bindE (stream_resize junk s n) (\<lambda>(_, s'). Inr s'))"
  using assms unfolding stream_resize_def
  by (simp add: bindE_assertE) (auto simp: Let_def stream_ok_def STREAM_VERIFY_SANE_def GETP_VALID_def ENDP_VALID_def)

lemma safe_copy:
  assumes "stream_ok s" "stream_ok src"
  shows "safe_result (stream_copy s src)"
  using assms unfolding stream_copy_def
  by (simp add: bindE_assertE) (auto simp: mem_read_def mem_write_def stream_ok_def)

lemma safe_pointers:
  assumes "stream_ok s"
  shows "safe_result (stream_set_getp s pos)" "safe_result (stream_forward_getp s n)"
    "s_endp s + n < SIZE_LIM \<Longrightarrow> safe_result (stream_forward_endp s n)"
    "safe_result (stream_reset s)"
  using assms
  by (simp_all add: stream_set_getp_def stream_forward_getp_def stream_forward_endp_def
      stream_reset_def bindE_assertE)
    (auto simp: stream_ok_def GETP_VALID_def ENDP_VALID_def)

lemma PSIZE_le: "wf_prefix p \<Longrightarrow> PSIZE (prefixlen p) \<le> 16"
  using wf_prefix_bounds(2)[of p] by (simp add: PSIZE_def)

text \<open>With more room than the address bytes \<^verbatim>\<open>stream_put_prefix\<close> appends the length byte and the \<^verbatim>\<open>PSIZE\<close> address
  bytes; it returns the number of address bytes.\<close>

lemma stream_put_prefix_nlri:
  assumes "stream_ok s" "wf_prefix p" "PSIZE (prefixlen p) < room s"
  shows "\<exists>s'. stream_put_prefix s p = Inr (PSIZE (prefixlen p), s') \<and> stream_ok s' \<and>
     unread s' = unread s @ of_nat (prefixlen p) # take (PSIZE (prefixlen p)) (u_prefix p)"
proof -
  let ?n = "PSIZE (prefixlen p)"
  have len: "length (u_prefix p) = 16" "?n \<le> 16"
    using wf_prefix_bounds(1)[OF assms(2)] PSIZE_le[OF assms(2)] by auto
  obtain s1 where s1: "stream_putc s (of_nat (prefixlen p)) = Inr (1, s1)" "stream_ok s1"
    "unread s1 = unread s @ bytes8 (of_nat (prefixlen p))" "room s1 = room s - 1"
    using field_c.putter_ok[OF assms(1)] assms(3) by fastforce
  have w: "length (take ?n (u_prefix p)) \<le> room s1" using assms(3) s1(4) by simp
  have "stream_put_prefix s p = Inr (?n, appended s1 (take ?n (u_prefix p)))"
    using assms s1 len write_at_end[OF s1(2) w]
    by (simp add: stream_put_prefix_def Let_def mem_read_def appended_def)
  with appended_ok[OF s1(2) w] s1(3) show ?thesis by (simp add: bytes8_def)
qed

lemma safe_read_unblock:
  assumes "stream_ok s" "\<And>bs. r = IoData bs \<Longrightarrow> length bs \<le> z"
  shows "safe_result (bindE (stream_read_unblock (\<lambda>_. r) s z) (\<lambda>(_, s'). Inr s'))"
proof (cases "room s < z \<or> (\<exists>e. r = IoErr e)")
  case True
  with assms(1) show ?thesis by (auto simp: stream_read_unblock_def assertE_def)
next
  case False
  then obtain bs where r: "r = IoData bs" "length bs \<le> room s" using assms(2) by (cases r) auto
  with False assms(1) safe_write_at_end[OF assms(1), of bs] show ?thesis
    by (cases "bs = []") (auto simp: stream_read_unblock_def bindE_assoc Let_def mem_write_def stream_ok_def)
qed

lemma safe_recvfrom:
  assumes "stream_ok s" "\<And>bs. r = IoData bs \<Longrightarrow> length bs \<le> z"
  shows "safe_result (bindE (stream_recvfrom (\<lambda>_. r) s z) (\<lambda>(_, s'). Inr s'))"
  using safe_read_try[OF assms] by (simp add: stream_recvfrom_def stream_read_try_def)

lemma reads_within_loop:
  assumes "reads_within rs n" "readn_loop rs N (int n) acc = Some (r, out)"
  shows "\<exists>bs. out = acc @ bs \<and> length bs \<le> n \<and> (r = - 1 \<or> r = N - int n + int (length bs))"
  using assms
proof (induction rs n arbitrary: acc rule: reads_within.induct)
  case (1 bs rs n)
  show ?case
  proof (cases "n = 0 \<or> bs = []")
    case True
    then show ?thesis using "1.prems" by (auto split: if_splits)
  next
    case False
    then have "readn_loop rs N (int (n - length bs)) (acc @ bs) = Some (r, out)" "length bs \<le> n"
      using "1.prems" by (simp_all add: of_nat_diff)
    then show ?thesis using "1.IH"[of "acc @ bs"] "1.prems"(1) by (auto simp: of_nat_diff)
  qed
qed (auto split: if_splits)

lemma to_int_small: "z < 2 ^ 31 \<Longrightarrow> to_int (int z) = int z"
  by (simp add: to_int_def)

lemma safe_read:
  assumes "stream_ok s" "z < 2 ^ 31" "reads_within rs z"
  shows "safe_result (bindE (stream_read rs s z) (\<lambda>r. Inr (case r of None \<Rightarrow> s | Some (_, s') \<Rightarrow> s')))"
proof (cases "room s < z \<or> readn rs (int z) = None")
  case True
  with assms show ?thesis by (auto simp: stream_read_def assertE_def to_int_small)
next
  case False
  then obtain r bs where r: "readn rs (int z) = Some (r, bs)" "z \<le> room s" by auto
  have bs: "length bs \<le> room s" "r = - 1 \<or> r = int (length bs)"
    using reads_within_loop[OF assms(3), of "int z" "[]" r bs] r by (auto simp: readn_def)
  note w = write_at_end[OF assms(1) bs(1)]
  have "stream_ok (appended s bs)" using appended_ok(1)[OF assms(1) bs(1)] .
  then show ?thesis using r bs assms w
    by (auto simp: stream_read_def to_int_small Let_def appended_def stream_ok_def)
qed

lemma safe_peek: "stream_ok s \<Longrightarrow> fr + n < SIZE_LIM \<Longrightarrow> safe_result (bindE (stream_peek s fr n) (\<lambda>_. Inr s))"
  by (auto simp: stream_peek_def GETP_VALID_def szadd_def mem_read_def assertE_def stream_ok_def STREAM_VERIFY_SANE_def ENDP_VALID_def)

lemma safe_get_field_from: "stream_ok s \<Longrightarrow> fr + 8 < SIZE_LIM \<Longrightarrow> safe_result (bindE (get_field_from s fr k) (\<lambda>_. Inr s))"
  using safe_peek[of s fr 1] safe_peek[of s fr 2] safe_peek[of s fr 4] safe_peek[of s fr 8]
  by (cases k) (auto simp: stream_getc_from_def stream_getw_from_def stream_getl_from_def stream_getq_from_def bindE_assoc)

lemma safe_set_endp: "stream_ok s \<Longrightarrow> s_getp s \<le> pos \<Longrightarrow> safe_result (stream_set_endp s pos)"
  by (auto simp: stream_set_endp_def bindE_assertE stream_ok_def GETP_VALID_def ENDP_VALID_def STREAM_VERIFY_SANE_def assertE_def)

lemma safe_put_prefix:
  assumes "stream_ok s" "wf_prefix p" "0 < PSIZE (prefixlen p) \<longrightarrow> room s \<noteq> PSIZE (prefixlen p)"
  shows "safe_result (bindE (stream_put_prefix s p) (\<lambda>(_, s'). Inr s'))"
proof -
  consider "room s < PSIZE (prefixlen p)" | "PSIZE (prefixlen p) < room s" | "room s = 0" "PSIZE (prefixlen p) = 0"
    using assms(3) by linarith
  then show ?thesis
  proof cases
    case 1
    with assms(1) show ?thesis by (simp add: stream_put_prefix_def Let_def assertE_def)
  next
    case 2
    then show ?thesis using stream_put_prefix_nlri[OF assms(1,2)] by auto
  next
    case 3
    then have "stream_append s (bytes8 (of_nat (prefixlen p))) = Inl Abort"
      using stream_append_full[OF assms(1)] by (simp add: bytes8_def)
    then show ?thesis using 3 assms(1) by (simp add: stream_put_prefix_def Let_def stream_putc_def)
  qed
qed

lemma safe_flush: "stream_ok s \<Longrightarrow> safe_result (bindE (stream_flush (\<lambda>_. w) s) (\<lambda>_. Inr s))"
  by (auto simp: stream_flush_def mem_read_def stream_ok_def szsub_def STREAM_VERIFY_SANE_def assertE_def GETP_VALID_def ENDP_VALID_def)

lemma safe_dup: "stream_ok s \<Longrightarrow> safe_result (stream_dup junk s)"
  by (cases "s_endp s = 0")
    (auto simp: stream_dup_def stream_new_def assertE_def stream_copy_def mem_read_def mem_write_def stream_ok_def STREAM_VERIFY_SANE_def
      GETP_VALID_def ENDP_VALID_def)

lemma safe_queries:
  assumes "stream_ok s"
  shows "safe_result (bindE (stream_get_getp s) (\<lambda>_. Inr s))" "safe_result (bindE (stream_get_endp s) (\<lambda>_. Inr s))"
    "safe_result (bindE (stream_get_size s) (\<lambda>_. Inr s))" "safe_result (bindE (stream_pnt s) (\<lambda>_. Inr s))"
    "safe_result (bindE (stream_empty s) (\<lambda>_. Inr s))"
  using assms by (simp_all add: stream_get_getp_def stream_get_endp_def stream_get_size_def stream_pnt_def stream_empty_def)

lemma stream_exec_safe:
  "stream_ok s \<Longrightarrow> op_valid s op \<Longrightarrow> safe_result (stream_exec op s)"
  by (induction s op rule: op_valid.induct)
    (auto simp: safe_get safe_get_field safe_put_field safe_put_field_at safe_write
      safe_resize safe_copy safe_pointers safe_append stream_put_ipv4_def stream_put_in_addr_def bindE_assoc
      safe_get_field_from stream_get_ipv4_def safe_set_endp safe_read safe_flush safe_dup safe_queries
      intro!: safe_put safe_read_try safe_recvmsg[unfolded One_nat_def] safe_put_prefix safe_read_unblock safe_recvfrom)

inductive stream_reach :: "stream \<Rightarrow> bool" where
  fresh: "stream_new junk n = Inr s \<Longrightarrow> n < SIZE_LIM \<Longrightarrow> stream_reach s"
| oper: "stream_reach s \<Longrightarrow> op_valid s op \<Longrightarrow> stream_exec op s = Inr s' \<Longrightarrow> stream_reach s'"

lemma stream_reach_ok: "stream_reach s \<Longrightarrow> stream_ok s"
proof (induction rule: stream_reach.induct)
  case (fresh junk n s)
  then show ?case using stream_new_ok[of n junk] by (auto simp: stream_new_def bindE_assertE split: if_splits)
next
  case (oper s op s')
  then show ?case using stream_exec_safe[of s op] by simp
qed

text \<open>C3: a stream made by \<^verbatim>\<open>stream_new\<close> and changed by any sequence of the operations of \<open>stream_op\<close>, each called
  under the condition \<open>op_valid\<close>, satisfies \<^verbatim>\<open>getp <= endp <= size\<close>; the next such operation either aborts on an
  assertion or returns such a stream, and never accesses memory outside its buffer. The condition is what the
  functions do not check themselves: in particular \<^verbatim>\<open>stream_set_endp\<close> is not called with a position below the read pointer,
  and \<^verbatim>\<open>stream_put_prefix\<close> not with room for exactly the address bytes, where it overruns the buffer.\<close>

lemma stream_ops_memory_safe:
  assumes "stream_reach s" "op_valid s op"
  shows "stream_exec op s = Inl Abort \<or> (\<exists>s'. stream_exec op s = Inr s' \<and> stream_ok s')"
  using stream_exec_safe[OF stream_reach_ok[OF assms(1)] assms(2)] by (simp add: safe_result_def)

lemma stream_ops_memory_safe_witness:
  "stream_exec (OpPutField (FieldL 1)) \<lparr>s_getp = 0, s_endp = 0, s_size = 2, s_data = [0, 0]\<rparr> = Inl Abort \<or>
   (\<exists>s'. stream_exec (OpPutField (FieldL 1)) \<lparr>s_getp = 0, s_endp = 0, s_size = 2, s_data = [0, 0]\<rparr> = Inr s'
     \<and> stream_ok s')"
proof (rule stream_ops_memory_safe)
  show "stream_reach \<lparr>s_getp = 0, s_endp = 0, s_size = 2, s_data = [0, 0]\<rparr>"
    by (rule stream_reach.fresh[of "\<lambda>_. 0" 2])
      (simp_all add: stream_new_def SIZE_LIM_def upt_rec)
qed simp

subsection \<open>Prefixes on the wire, duplicates, offsets\<close>

lemma stream_put_prefix_nlri_witness:
  "\<exists>s'. stream_put_prefix \<lparr>s_getp = 0, s_endp = 0, s_size = 3, s_data = [0, 0, 0]\<rparr>
       (prefix_new\<lparr>family := AF_INET, prefixlen := 9\<rparr>) = Inr (2, s') \<and> unread s' = 9 # replicate 2 0"
proof -
  have "wf_prefix (prefix_new\<lparr>family := AF_INET, prefixlen := 9\<rparr>)"
    by (simp add: wf_prefix_def prefix_new_def max_bits_def)
  from stream_put_prefix_nlri[OF _ this, of "\<lparr>s_getp = 0, s_endp = 0, s_size = 3, s_data = [0, 0, 0]\<rparr>"]
  show ?thesis
    by (auto simp: stream_ok_def SIZE_LIM_def unread_def room_def PSIZE_def prefix_new_def)
qed

text \<open>The guard of \<^verbatim>\<open>stream_put_prefix\<close> does not count the length byte: on a stream
  with exactly \<^verbatim>\<open>PSIZE\<close> bytes left the copy writes past the end of the buffer.\<close>

lemma stream_put_prefix_overrun:
  assumes "stream_ok s" "wf_prefix p" "0 < PSIZE (prefixlen p)" "room s = PSIZE (prefixlen p)"
  shows "stream_put_prefix s p = Inl OutOfBounds"
proof -
  let ?n = "PSIZE (prefixlen p)"
  have len: "length (u_prefix p) = 16" "?n \<le> 16"
    using wf_prefix_bounds(1)[OF assms(2)] PSIZE_le[OF assms(2)] by auto
  obtain s1 where s1: "stream_putc s (of_nat (prefixlen p)) = Inr (1, s1)" "stream_ok s1"
    "room s1 = room s - 1"
    using field_c.putter_ok[OF assms(1)] assms(3,4) by fastforce
  have "length (s_data s1) < s_endp s1 + ?n"
    using s1(2,3) assms(3,4) by (simp add: stream_ok_def room_def)
  with assms s1 len show ?thesis
    by (simp add: stream_put_prefix_def Let_def mem_read_def mem_write_def)
qed

lemma stream_put_prefix_overrun_witness:
  "stream_put_prefix \<lparr>s_getp = 0, s_endp = 0, s_size = 2, s_data = [0, 0]\<rparr>
       (prefix_new\<lparr>family := AF_INET, prefixlen := 9\<rparr>) = Inl OutOfBounds"
  by (rule stream_put_prefix_overrun)
    (simp_all add: wf_prefix_def prefix_new_def max_bits_def stream_ok_def SIZE_LIM_def room_def PSIZE_def)

text \<open>\<^verbatim>\<open>stream_dup\<close> of a stream that holds data is a full stream with the same unread
  bytes, and of an empty stream it aborts, because \<^verbatim>\<open>stream_new\<close> asserts a positive size.\<close>

lemma stream_dup_spec:
  assumes "stream_ok s"
  shows "if s_endp s = 0 then stream_dup junk s = Inl Abort
    else \<exists>s'. stream_dup junk s = Inr s' \<and> stream_ok s' \<and> unread s' = unread s \<and> room s' = 0"
proof (cases "s_endp s = 0")
  case True
  with assms show ?thesis by (simp add: stream_dup_def stream_new_def assertE_def)
next
  case False
  with assms show ?thesis
    by (simp add: stream_dup_def stream_new_def bindE_assertE stream_copy_def)
      (auto simp: mem_read_def mem_write_def stream_ok_def unread_def room_def)
qed

lemma stream_dup_spec_witness:
  "stream_dup (\<lambda>_. 0) \<lparr>s_getp = 0, s_endp = 0, s_size = 2, s_data = [0, 0]\<rparr> = Inl Abort"
  using stream_dup_spec[of "\<lparr>s_getp = 0, s_endp = 0, s_size = 2, s_data = [0, 0]\<rparr>" "\<lambda>_. 0"]
  by (simp add: stream_ok_def SIZE_LIM_def)

text \<open>\<^verbatim>\<open>stream_set_endp\<close> accepts an end position below the read pointer; the stream it
  returns violates \<^verbatim>\<open>getp <= endp\<close> and the next operation on it aborts.\<close>

lemma stream_set_endp_breaks:
  assumes "stream_ok s" "pos < s_getp s"
  shows "\<exists>s'. stream_set_endp s pos = Inr s' \<and> \<not> stream_ok s' \<and> stream_reset s' = Inl Abort"
  using assms
  by (simp add: stream_set_endp_def bindE_assertE)
    (auto simp: stream_ok_def GETP_VALID_def stream_reset_def STREAM_VERIFY_SANE_def assertE_def)

lemma stream_set_endp_breaks_witness:
  "\<exists>s'. stream_set_endp \<lparr>s_getp = 2, s_endp = 2, s_size = 2, s_data = [0, 0]\<rparr> 1 = Inr s' \<and>
     \<not> stream_ok s' \<and> stream_reset s' = Inl Abort"
  by (rule stream_set_endp_breaks) (simp_all add: stream_ok_def SIZE_LIM_def)

lemma stream_getc_from_wraps:
  assumes "stream_ok s"
  shows "stream_getc_from s (SIZE_LIM - 1) = Inl OutOfBounds"
proof -
  have "szadd (SIZE_LIM - 1) 1 = 0" by (simp add: szadd_def SIZE_LIM_def)
  moreover have "length (s_data s) < SIZE_LIM - 1 + 1" using assms by (simp add: stream_ok_def)
  ultimately show ?thesis using assms
    by (simp add: stream_getc_from_def stream_peek_def GETP_VALID_def mem_read_def)
qed

subsection \<open>\<^verbatim>\<open>readn\<close>\<close>

lemma readn_loop_collects:
  "\<forall>bs \<in> set chunks. bs \<noteq> [] \<Longrightarrow>
     readn_loop (map IoData chunks @ rest) nbytes (int (length (concat chunks))) acc =
       Some (nbytes, acc @ concat chunks)"
proof (induction chunks arbitrary: acc)
  case Nil
  then show ?case by (cases rest) auto
next
  case (Cons bs chunks)
  then have "0 < int (length bs) + int (length (concat chunks))"
    by (intro add_pos_nonneg) simp_all
  with Cons show ?case by simp
qed

text \<open>C30: \<^verbatim>\<open>readn\<close> on successive non-empty partial reads returns exactly the requested number
  of bytes, concatenated in order, and looks at no further read.\<close>

lemma readn_collects:
  assumes "\<forall>bs \<in> set chunks. bs \<noteq> []"
  shows "readn (map IoData chunks @ rest) (int (length (concat chunks))) =
    Some (int (length (concat chunks)), concat chunks)"
  using readn_loop_collects[OF assms] by (simp add: readn_def)

lemma readn_collects_witness:
  "readn (map IoData [[1], [2, 3]] @ [IoErr 5]) (int (length (concat [[1], [2, 3 :: byte]]))) =
     Some (int (length (concat [[1], [2, 3 :: byte]])), concat [[1], [2, 3]])"
  by (rule readn_collects) simp

subsection \<open>The FIFO refines a list\<close>

fun lseg :: "(addr \<rightharpoonup> addr option) \<Rightarrow> addr option \<Rightarrow> addr list \<Rightarrow> bool" where
  "lseg nx h [] = (h = None)"
| "lseg nx h (a # as) = (h = Some a \<and> (\<exists>n. nx a = Some n \<and> lseg nx n as))"

definition fifo_rep :: "stream_fifo \<Rightarrow> addr list \<Rightarrow> bool" where
  "fifo_rep f xs \<longleftrightarrow> lseg (f_next f) (f_head f) xs \<and> distinct xs \<and>
     f_tail f = (if xs = [] then None else Some (last xs)) \<and>
     f_count f = length xs \<and> length xs < SIZE_LIM"

lemma lseg_upd_notin: "a \<notin> set xs \<Longrightarrow> lseg (nx(a := v)) h xs = lseg nx h xs"
  by (induction xs arbitrary: h) auto

lemma lseg_snoc:
  "lseg nx h xs \<Longrightarrow> xs \<noteq> [] \<Longrightarrow> distinct xs \<Longrightarrow> a \<notin> set xs \<Longrightarrow> nx a = Some None \<Longrightarrow>
     lseg (nx(last xs \<mapsto> Some a)) h (xs @ [a])"
proof (induction xs arbitrary: h)
  case (Cons x xs)
  show ?case
  proof (cases "xs = []")
    case True
    with Cons.prems show ?thesis by auto
  next
    case False
    then have "last xs \<noteq> x" using Cons.prems(3) by auto
    then show ?thesis using Cons False by auto
  qed
qed simp

lemma lseg_last: "lseg nx h xs \<Longrightarrow> xs \<noteq> [] \<Longrightarrow> nx (last xs) = Some None"
  by (induction xs arbitrary: h) auto

lemma fifo_push_rep:
  assumes "fifo_rep f xs" "a \<notin> set xs" "f_next f a = Some None" "Suc (length xs) < SIZE_LIM"
  shows "\<exists>f'. stream_fifo_push f a = Inr f' \<and> fifo_rep f' (xs @ [a])"
proof (cases "xs = []")
  case True
  with assms show ?thesis by (auto simp: stream_fifo_push_def fifo_rep_def)
next
  case False
  with assms lseg_last[of "f_next f" "f_head f" xs] lseg_snoc[of "f_next f" "f_head f" xs a]
  show ?thesis by (auto simp: stream_fifo_push_def fifo_rep_def)
qed

lemma fifo_pop_rep:
  assumes "fifo_rep f xs"
  shows "\<exists>f'. stream_fifo_pop f = Inr (case xs of [] \<Rightarrow> None | a # _ \<Rightarrow> Some a, f') \<and> fifo_rep f' (tl xs)"
proof (cases xs)
  case Nil
  with assms show ?thesis by (auto simp: stream_fifo_pop_def fifo_rep_def)
next
  case (Cons a as)
  then obtain n where n: "f_next f a = Some n" "lseg (f_next f) n as" "f_head f = Some a"
    using assms by (auto simp: fifo_rep_def)
  then have "n = None \<longleftrightarrow> as = []" by (cases as) auto
  with Cons n assms show ?thesis by (auto simp: stream_fifo_pop_def fifo_rep_def Let_def)
qed

lemma fifo_clean_loop_frees:
  "lseg nx h xs \<Longrightarrow> distinct xs \<Longrightarrow>
     fifo_clean_loop h nx = Some (Inr (\<lambda>a. if a \<in> set xs then None else nx a))"
proof (induction xs arbitrary: h nx)
  case Nil
  then show ?case by (subst fifo_clean_loop.simps) simp
next
  case (Cons x xs)
  then obtain n where n: "h = Some x" "nx x = Some n" "lseg (nx(x := None)) n xs"
    by (auto simp: lseg_upd_notin)
  have "fifo_clean_loop h nx = fifo_clean_loop n (nx(x := None))"
    using n by (subst fifo_clean_loop.simps) simp
  also have "\<dots> = Some (Inr (\<lambda>a. if a \<in> set xs then None else (nx(x := None)) a))"
    using Cons.prems(2) by (intro Cons.IH[OF n(3)]) simp
  also have "(\<lambda>a. if a \<in> set xs then None else (nx(x := None)) a) =
      (\<lambda>a. if a \<in> set (x # xs) then None else nx a)"
    by auto
  finally show ?case .
qed

lemma fifo_clean_rep:
  assumes "fifo_rep f xs"
  shows "\<exists>f'. stream_fifo_clean f = Some (Inr f') \<and> fifo_rep f' [] \<and>
    f_next f' = (\<lambda>a. if a \<in> set xs then None else f_next f a)"
  using assms fifo_clean_loop_frees[of "f_next f" "f_head f" xs]
  by (auto simp: stream_fifo_clean_def fifo_rep_def)

text \<open>A popped stream keeps its stale \<^verbatim>\<open>next\<close> pointer: pushing it again closes a cycle.\<close>

text \<open>\<^verbatim>\<open>stream_fifo_push\<close> does not clear the \<^verbatim>\<open>next\<close> field: a stream that was popped
  while others were queued and is pushed again closes a cycle in the queue.\<close>

lemma fifo_repush_cycle:
  "\<exists>f1 f2 f3. stream_fifo_push (stream_fifo_new [1 \<mapsto> None, 2 \<mapsto> None]) 1 = Inr f1 \<and>
     stream_fifo_push f1 2 = Inr f2 \<and> stream_fifo_pop f2 = Inr (Some 1, f3) \<and>
     (\<exists>f4. stream_fifo_push f3 1 = Inr f4 \<and> f_next f4 1 = Some (Some 2) \<and> f_next f4 2 = Some (Some 1))"
  by (simp add: stream_fifo_push_def stream_fifo_new_def stream_fifo_pop_def)

text \<open>C27: the linked FIFO implements a list: pushing a fresh stream appends it, popping
  removes the first one (or returns null on an empty queue), and cleaning returns and empties it.\<close>

lemma fifo_refines_list:
  assumes "fifo_rep f xs" "a \<notin> set xs" "f_next f a = Some None" "Suc (length xs) < SIZE_LIM"
  shows "(\<exists>f'. stream_fifo_push f a = Inr f' \<and> fifo_rep f' (xs @ [a])) \<and>
    (\<exists>f'. stream_fifo_pop f = Inr (case xs of [] \<Rightarrow> None | b # _ \<Rightarrow> Some b, f') \<and> fifo_rep f' (tl xs)) \<and>
    (\<exists>f'. stream_fifo_clean f = Some (Inr f') \<and> fifo_rep f' [])"
  using fifo_push_rep[OF assms] fifo_pop_rep[OF assms(1)] fifo_clean_rep[OF assms(1)] by blast

lemma fifo_refines_list_witness:
  "\<exists>f'. stream_fifo_push (stream_fifo_new [1 \<mapsto> None]) 1 = Inr f' \<and> fifo_rep f' [1]"
  using fifo_refines_list[of "stream_fifo_new [1 \<mapsto> None]" "[]" 1]
  by (simp add: fifo_rep_def stream_fifo_new_def SIZE_LIM_def)

end
