(* ===== verification/Bgp_Aspath.thy ===== *)
theory Bgp_Aspath
  imports Stream_Buf "HOL-Library.Multiset"
begin

text \<open>
  AS paths of the BGP daemon, \<^verbatim>\<open>bgpd/bgp_aspath.c\<close>: the chain of segments, its canonical form,
  the text form used for display and for regular expressions, the wire form of the AS_PATH attribute
  on the streams of \<^theory_text>\<open>Stream_Buf\<close>, and the operations of the attribute code on paths. A chain of
  segments is a list. The field \<^verbatim>\<open>length\<close> of a segment is the length of its list of AS numbers; it is
  a \<^verbatim>\<open>u_short\<close>, so an operation that makes it wrap keeps the first \<open>length mod 65536\<close> numbers.
  Allocation failures, which end the daemon, and debug output are left out.
\<close>

type_synonym as_t = u32

definition AS_SET :: u8 where "AS_SET = 1"
definition AS_SEQUENCE :: u8 where "AS_SEQUENCE = 2"
definition AS_CONFED_SEQUENCE :: u8 where "AS_CONFED_SEQUENCE = 3"
definition AS_CONFED_SET :: u8 where "AS_CONFED_SET = 4"
definition BGP_PRIVATE_AS_MIN :: as_t where "BGP_PRIVATE_AS_MIN = 64512"
definition BGP_PRIVATE_AS_MAX :: as_t where "BGP_PRIVATE_AS_MAX = 65535"
definition BGP_AS_MAX :: as_t where "BGP_AS_MAX = 65535"
definition BGP_AS_TRANS :: u16 where "BGP_AS_TRANS = 23456"
definition AS_HEADER_SIZE :: nat where "AS_HEADER_SIZE = 2"
definition AS_VALUE_SIZE :: nat where "AS_VALUE_SIZE = 4"
definition AS16_VALUE_SIZE :: nat where "AS16_VALUE_SIZE = 2"
definition AS_SEGMENT_MAX :: nat where "AS_SEGMENT_MAX = 255"
definition ASPATH_STR_DEFAULT_LEN :: nat where "ASPATH_STR_DEFAULT_LEN = 32"

record assegment =
  seg_type :: u8
  seg_as :: "as_t list"

record aspath =
  refcnt :: nat
  segments :: "assegment list"
  str :: "string option"

abbreviation seg_length :: "assegment \<Rightarrow> nat" where
  "seg_length seg \<equiv> length (seg_as seg)"

definition u_short :: "nat \<Rightarrow> nat" where
  "u_short n = n mod 65536"

definition ASSEGMENT_DATA_SIZE :: "nat \<Rightarrow> bool \<Rightarrow> nat" where
  "ASSEGMENT_DATA_SIZE n use32bit = n * (if use32bit then AS_VALUE_SIZE else AS16_VALUE_SIZE)"

definition ASSEGMENT_SIZE :: "nat \<Rightarrow> bool \<Rightarrow> nat" where
  "ASSEGMENT_SIZE n use32bit = AS_HEADER_SIZE + ASSEGMENT_DATA_SIZE n use32bit"

definition ASSEGMENT_LEN :: "assegment \<Rightarrow> bool \<Rightarrow> nat" where
  "ASSEGMENT_LEN seg use32bit = ASSEGMENT_SIZE (seg_length seg) use32bit"

definition ASSEGMENT_TYPES_PACKABLE :: "assegment \<Rightarrow> assegment \<Rightarrow> bool" where
  "ASSEGMENT_TYPES_PACKABLE x y \<longleftrightarrow> seg_type x = seg_type y \<and> seg_type x = AS_SEQUENCE"

definition ASSEGMENTS_PACKABLE :: "assegment \<Rightarrow> assegment \<Rightarrow> bool" where
  "ASSEGMENTS_PACKABLE x y \<longleftrightarrow> ASSEGMENT_TYPES_PACKABLE x y \<and> seg_length x + seg_length y \<le> AS_SEGMENT_MAX"

subsection \<open>Segments\<close>

text \<open>\<^verbatim>\<open>XCALLOC\<close> zeroes the new data.\<close>

definition assegment_new :: "u8 \<Rightarrow> nat \<Rightarrow> assegment" where
  "assegment_new type len = \<lparr>seg_type = type, seg_as = replicate len 0\<rparr>"

definition assegment_dup :: "assegment \<Rightarrow> assegment" where
  "assegment_dup seg = (assegment_new (seg_type seg) (seg_length seg))\<lparr>seg_as := seg_as seg\<rparr>"

fun assegment_dup_all :: "assegment list \<Rightarrow> assegment list" where
  "assegment_dup_all [] = []"
| "assegment_dup_all (seg # rest) = assegment_dup seg # assegment_dup_all rest"

definition assegment_prepend_asns :: "assegment \<Rightarrow> as_t \<Rightarrow> nat \<Rightarrow> assegment" where
  "assegment_prepend_asns seg asnum num =
     (if num = 0 then seg
      else if num \<ge> AS_SEGMENT_MAX then seg
      else seg\<lparr>seg_as := take (u_short (seg_length seg + num)) (replicate num asnum @ seg_as seg)\<rparr>)"

definition assegment_append_asns :: "assegment \<Rightarrow> as_t list \<Rightarrow> assegment" where
  "assegment_append_asns seg asnos =
     seg\<lparr>seg_as := take (u_short (seg_length seg + length asnos)) (seg_as seg @ asnos)\<rparr>"

definition int_cmp :: "as_t \<Rightarrow> as_t \<Rightarrow> int" where
  "int_cmp as1 as2 = (if as1 = as2 then 0 else if as1 > as2 then 1 else - 1)"

text \<open>\<^verbatim>\<open>qsort\<close> with \<^verbatim>\<open>int_cmp\<close>: the comparison is zero on equal numbers only, so the sorted array
  is unique.\<close>

fun qsort_insert :: "as_t \<Rightarrow> as_t list \<Rightarrow> as_t list" where
  "qsort_insert a [] = [a]"
| "qsort_insert a (b # bs) = (if int_cmp a b \<le> 0 then a # b # bs else b # qsort_insert a bs)"

definition qsort_asns :: "as_t list \<Rightarrow> as_t list" where
  "qsort_asns as = foldr qsort_insert as []"

text \<open>The loop that weeds out duplicates in place; the result is the final \<^verbatim>\<open>tail\<close> and the array.\<close>

function weed_loop :: "nat \<Rightarrow> nat \<Rightarrow> as_t list \<Rightarrow> nat \<times> as_t list" where
  "weed_loop i tail as =
     (if i < length as
      then if as ! tail = as ! i then weed_loop (i + 1) tail as
           else let tail' = tail + 1;
                    as' = (if tail' < i then as[tail' := as ! i] else as)
                in weed_loop (i + 1) tail' as'
      else (tail, as))"
  by pat_completeness auto
termination by (relation "measure (\<lambda>(i, tail, as). length as - i)") auto

definition sort_set :: "assegment \<Rightarrow> assegment" where
  "sort_set seg =
     (if seg_type seg = AS_SET \<or> seg_type seg = AS_CONFED_SET
      then let (tail, as) = weed_loop 1 0 (qsort_asns (seg_as seg))
           in seg\<lparr>seg_as := (if seg_length seg \<noteq> 0 then take (tail + 1) as else as)\<rparr>
      else seg)"

fun pack_next :: "assegment \<Rightarrow> assegment list \<Rightarrow> assegment \<times> assegment list" where
  "pack_next pin [] = (pin, [])"
| "pack_next pin (seg # rest) =
     (if ASSEGMENT_TYPES_PACKABLE pin seg then pack_next (assegment_append_asns pin (seg_as seg)) rest
      else (pin, seg # rest))"

lemma pack_next_shorter: "pack_next pin rest = (pin', rest') \<Longrightarrow> length rest' \<le> length rest"
  by (induction pin rest rule: pack_next.induct) (auto split: if_splits)

function assegment_normalise :: "assegment list \<Rightarrow> assegment list" where
  "assegment_normalise [] = []"
| "assegment_normalise (seg # rest) =
     (case pack_next (sort_set seg) rest of (pin, rest') \<Rightarrow> pin # assegment_normalise rest')"
  by pat_completeness auto
termination
  by (relation "measure length") (auto dest!: pack_next_shorter[OF sym])

subsection \<open>Counting\<close>

fun assegment_count_asns :: "assegment list \<Rightarrow> nat \<Rightarrow> int" where
  "assegment_count_asns [] from = 0"
| "assegment_count_asns (seg # rest) from =
     (if from = 0 then int (seg_length seg) else int (seg_length seg) - int from) + assegment_count_asns rest 0"

fun count_confeds :: "assegment list \<Rightarrow> nat" where
  "count_confeds [] = 0"
| "count_confeds (seg # rest) =
     (if seg_type seg = AS_CONFED_SEQUENCE then seg_length seg
      else if seg_type seg = AS_CONFED_SET then 1 else 0) + count_confeds rest"

definition aspath_count_confeds :: "aspath \<Rightarrow> nat" where
  "aspath_count_confeds aspath = count_confeds (segments aspath)"

fun count_hops :: "assegment list \<Rightarrow> nat" where
  "count_hops [] = 0"
| "count_hops (seg # rest) =
     (if seg_type seg = AS_SEQUENCE then seg_length seg
      else if seg_type seg = AS_SET then 1 else 0) + count_hops rest"

definition aspath_count_hops :: "aspath \<Rightarrow> nat" where
  "aspath_count_hops aspath = count_hops (segments aspath)"

definition aspath_size :: "aspath \<Rightarrow> nat" where
  "aspath_size aspath = sum_list (map (\<lambda>seg. ASSEGMENT_SIZE (seg_length seg) True) (segments aspath))"

fun highest_in :: "as_t list \<Rightarrow> as_t \<Rightarrow> as_t" where
  "highest_in [] highest = highest"
| "highest_in (a # as) highest =
     highest_in as (if a > highest \<and> (a < BGP_PRIVATE_AS_MIN \<or> a > BGP_PRIVATE_AS_MAX) then a else highest)"

definition aspath_highest :: "aspath \<Rightarrow> as_t" where
  "aspath_highest aspath = fold (\<lambda>seg highest. highest_in (seg_as seg) highest) (segments aspath) 0"

definition aspath_has_as4 :: "aspath \<Rightarrow> bool" where
  "aspath_has_as4 aspath \<longleftrightarrow> list_ex (\<lambda>seg. list_ex (\<lambda>a. a > BGP_AS_MAX) (seg_as seg)) (segments aspath)"

subsection \<open>Text form\<close>

definition aspath_delimiter_char :: "u8 \<Rightarrow> bool \<Rightarrow> char" where
  "aspath_delimiter_char type at_end =
     (if type = AS_SET then if at_end then CHR ''}'' else CHR ''{''
      else if type = AS_CONFED_SET then if at_end then CHR '']'' else CHR ''[''
      else if type = AS_CONFED_SEQUENCE then if at_end then CHR '')'' else CHR ''(''
      else CHR '' '')"

text \<open>The output buffer: the string up to its NUL, the position \<^verbatim>\<open>len\<close> and the allocated size.
  \<^verbatim>\<open>snprintf (str_buf + len, str_size - len, ...)\<close> stores what fits and advances \<^verbatim>\<open>len\<close> by the whole
  length; with \<^verbatim>\<open>len\<close> past the end the size argument would wrap.\<close>

record strbuf =
  sb_text :: string
  sb_len :: nat
  sb_size :: nat

definition snprintf_at :: "strbuf \<Rightarrow> string \<Rightarrow> strbuf res" where
  "snprintf_at sb s =
     (if sb_len sb > sb_size sb then Inl OutOfBounds
      else Inr (sb\<lparr>sb_text := (if length (sb_text sb) = sb_len sb
                              then sb_text sb @ take (sb_size sb - 1 - sb_len sb) s else sb_text sb),
                   sb_len := sb_len sb + length s\<rparr>))"

definition ASN_STR_LEN :: nat where "ASN_STR_LEN = 10 + 1"

definition SEGMENT_STR_LEN :: "assegment \<Rightarrow> nat" where
  "SEGMENT_STR_LEN seg = seg_length seg * ASN_STR_LEN + 2 + 1 + 1"

definition seperator :: "u8 \<Rightarrow> char option" where
  "seperator type =
     (if type = AS_SET \<or> type = AS_CONFED_SET then Some CHR '',''
      else if type = AS_SEQUENCE \<or> type = AS_CONFED_SEQUENCE then Some CHR '' ''
      else None)"

fun write_asns :: "char \<Rightarrow> as_t list \<Rightarrow> strbuf \<Rightarrow> strbuf res" where
  "write_asns sep [] sb = Inr sb"
| "write_asns sep (a # as) sb =
     bindE (snprintf_at sb (dec_str (unat a))) (\<lambda>sb1.
     bindE (if as \<noteq> [] then snprintf_at sb1 [sep] else Inr sb1) (\<lambda>sb2.
       write_asns sep as sb2))"

fun str_loop :: "assegment list \<Rightarrow> strbuf \<Rightarrow> string option res" where
  "str_loop [] sb = bindE (assertE (sb_len sb < sb_size sb)) (\<lambda>_. Inr (Some (sb_text sb)))"
| "str_loop (seg # rest) sb =
     (case seperator (seg_type seg) of
        None \<Rightarrow> Inr None
      | Some sep \<Rightarrow>
          let sb0 = (if sb_len sb + SEGMENT_STR_LEN seg > sb_size sb
                     then sb\<lparr>sb_size := sb_len sb + SEGMENT_STR_LEN seg\<rparr> else sb);
              delim = (\<lambda>b sb. if seg_type seg \<noteq> AS_SEQUENCE
                              then snprintf_at sb [aspath_delimiter_char (seg_type seg) b] else Inr sb)
          in bindE (delim False sb0) (\<lambda>sb1.
             bindE (write_asns sep (seg_as seg) sb1) (\<lambda>sb2.
             bindE (delim True sb2) (\<lambda>sb3.
             bindE (if rest \<noteq> [] then snprintf_at sb3 '' '' else Inr sb3) (\<lambda>sb4.
               str_loop rest sb4)))))"

definition aspath_make_str_count :: "assegment list \<Rightarrow> string option res" where
  "aspath_make_str_count segs =
     (if segs = [] then Inr (Some '''')
      else str_loop segs \<lparr>sb_text = '''', sb_len = 0,
             sb_size = max (nat (assegment_count_asns segs 0) * ASN_STR_LEN + 2 + 1) ASPATH_STR_DEFAULT_LEN\<rparr>)"

definition aspath_str_update :: "aspath \<Rightarrow> aspath res" where
  "aspath_str_update as = bindE (aspath_make_str_count (segments as)) (\<lambda>s. Inr (as\<lparr>str := s\<rparr>))"

definition aspath_new :: aspath where
  "aspath_new = \<lparr>refcnt = 0, segments = [], str = None\<rparr>"

definition aspath_dup :: "aspath \<Rightarrow> aspath res" where
  "aspath_dup aspath =
     bindE (aspath_make_str_count (segments aspath)) (\<lambda>s.
       Inr \<lparr>refcnt = 0, segments = assegment_dup_all (segments aspath), str = s\<rparr>)"

definition aspath_empty_get :: "aspath res" where
  "aspath_empty_get =
     bindE (aspath_make_str_count (segments aspath_new)) (\<lambda>s. Inr (aspath_new\<lparr>str := s\<rparr>))"

subsection \<open>Wire form\<close>

fun get_asns :: "bool \<Rightarrow> nat \<Rightarrow> stream \<Rightarrow> (as_t list \<times> stream) res" where
  "get_asns use32bit 0 s = Inr ([], s)"
| "get_asns use32bit (Suc n) s =
     bindE (if use32bit then stream_getl s
            else bindE (stream_getw s) (\<lambda>(w, s'). Inr (ucast w, s'))) (\<lambda>(a, s1).
     bindE (get_asns use32bit n s1) (\<lambda>(as, s2). Inr (a # as, s2)))"

definition known_type :: "u8 \<Rightarrow> bool" where
  "known_type t \<longleftrightarrow> t = AS_SEQUENCE \<or> t = AS_SET \<or> t = AS_CONFED_SEQUENCE \<or> t = AS_CONFED_SET"

text \<open>\<open>None\<close> is the return value -1; the chain built so far is the accumulator.\<close>

function parse_loop :: "bool \<Rightarrow> nat \<Rightarrow> nat \<Rightarrow> assegment list \<Rightarrow> stream \<Rightarrow> (assegment list option \<times> stream) res" where
  "parse_loop use32bit len bytes head s =
     (if bytes < len
      then if len - bytes \<le> AS_HEADER_SIZE then Inr (None, s)
           else bindE (stream_getc s) (\<lambda>(type, s1).
                bindE (stream_getc s1) (\<lambda>(l, s2).
                  let seg_size = ASSEGMENT_SIZE (unat l) use32bit in
                  if bytes + seg_size > len \<or> l = 0 then Inr (None, s2)
                  else if \<not> known_type type then Inr (None, s2)
                  else bindE (get_asns use32bit (unat l) s2) (\<lambda>(as, s3).
                         parse_loop use32bit len (bytes + seg_size)
                           (head @ [(assegment_new type (unat l))\<lparr>seg_as := as\<rparr>]) s3)))
      else Inr (Some (assegment_normalise head), s))"
  by pat_completeness auto
termination
  by (relation "measure (\<lambda>(use32bit, len, bytes, head, s). len - bytes)")
    (auto simp: ASSEGMENT_SIZE_def AS_HEADER_SIZE_def)

definition assegments_parse :: "stream \<Rightarrow> nat \<Rightarrow> bool \<Rightarrow> (assegment list option \<times> stream) res" where
  "assegments_parse s len use32bit =
     (if len = 0 then Inr (Some [], s)
      else if STREAM_READABLE s < len \<or> STREAM_READABLE s < AS_HEADER_SIZE \<or> len mod AS16_VALUE_SIZE \<noteq> 0
      then Inr (None, s)
      else parse_loop use32bit len 0 [] s)"

definition put_asn :: "bool \<Rightarrow> stream \<Rightarrow> as_t \<Rightarrow> stream res" where
  "put_asn use32bit s a =
     bindE (if use32bit then stream_putl s a
            else if a \<le> BGP_AS_MAX then stream_putw s (ucast a) else stream_putw s BGP_AS_TRANS) (\<lambda>(_, s'). Inr s')"

definition assegment_data_put :: "stream \<Rightarrow> as_t list \<Rightarrow> nat \<Rightarrow> bool \<Rightarrow> stream res" where
  "assegment_data_put s as num use32bit =
     bindE (assertE (num \<le> AS_SEGMENT_MAX)) (\<lambda>_.
     bindE (mem_read as 0 num) (\<lambda>asns. foldE (put_asn use32bit) s asns))"

definition assegment_header_put :: "stream \<Rightarrow> u8 \<Rightarrow> nat \<Rightarrow> (nat \<times> stream) res" where
  "assegment_header_put s type len =
     bindE (assertE (len \<le> AS_SEGMENT_MAX)) (\<lambda>_.
     bindE (stream_putc s type) (\<lambda>(_, s1).
     bindE (stream_get_endp s1) (\<lambda>lenp.
     bindE (stream_putc s1 (of_nat len)) (\<lambda>(_, s2). Inr (lenp, s2)))))"

text \<open>The loop over an overlength segment; the result is \<^verbatim>\<open>written\<close>, \<^verbatim>\<open>bytes\<close> and the stream.\<close>

function split_put :: "bool \<Rightarrow> assegment \<Rightarrow> nat \<Rightarrow> nat \<Rightarrow> stream \<Rightarrow> (nat \<times> nat \<times> stream) res" where
  "split_put use32bit seg written bytes s =
     (if seg_length seg - written > AS_SEGMENT_MAX
      then bindE (assegment_header_put s (seg_type seg) AS_SEGMENT_MAX) (\<lambda>(_, s1).
           bindE (assegment_data_put s1 (seg_as seg) AS_SEGMENT_MAX use32bit) (\<lambda>s2.
             let written' = written + AS_SEGMENT_MAX in
             split_put use32bit seg written' (bytes + ASSEGMENT_SIZE written' use32bit) s2))
      else Inr (written, bytes, s))"
  by pat_completeness auto
termination
  by (relation "measure (\<lambda>(use32bit, seg, written, bytes, s). seg_length seg - written)")
    (auto simp: AS_SEGMENT_MAX_def)

text \<open>The loop that packs following sequences into the segment just written; the result is
  \<^verbatim>\<open>asns_packed\<close>, the segment after them and the stream.\<close>

fun pack_put :: "bool \<Rightarrow> assegment \<Rightarrow> nat \<Rightarrow> nat \<Rightarrow> nat \<Rightarrow> assegment list \<Rightarrow> stream \<Rightarrow> (nat \<times> assegment list \<times> stream) res" where
  "pack_put use32bit seg written lenp asns_packed [] s = Inr (asns_packed, [], s)"
| "pack_put use32bit seg written lenp asns_packed (next # rest) s =
     (if ASSEGMENTS_PACKABLE seg next
      then bindE (assegment_data_put s (seg_as next) (seg_length next) use32bit) (\<lambda>s1.
           bindE (stream_putc_at s1 lenp (of_nat (seg_length seg - written + seg_length next))) (\<lambda>(_, s2).
             pack_put use32bit seg written lenp (asns_packed + seg_length next) rest s2))
      else Inr (asns_packed, next # rest, s))"

lemma pack_put_shorter:
  "pack_put use32bit seg written lenp p rest s = Inr (p', rest', s') \<Longrightarrow> length rest' \<le> length rest"
proof (induction use32bit seg written lenp p rest s rule: pack_put.induct)
  case (2 use32bit seg written lenp p n rest s)
  then show ?case by (auto simp: bindE_eq_Inr split: if_splits) (metis le_SucI)
qed simp

function put_loop :: "bool \<Rightarrow> assegment list \<Rightarrow> nat \<Rightarrow> stream \<Rightarrow> (nat \<times> stream) res" where
  "put_loop use32bit [] bytes s = Inr (bytes, s)"
| "put_loop use32bit (seg # rest) bytes s =
     (if ASSEGMENT_LEN seg use32bit \<le> STREAM_WRITEABLE s
      then bindE (split_put use32bit seg 0 bytes s) (\<lambda>(written, bytes1, s1).
           bindE (assegment_header_put s1 (seg_type seg) (seg_length seg - written)) (\<lambda>(lenp, s2).
           bindE (assegment_data_put s2 (drop written (seg_as seg)) (seg_length seg - written) use32bit) (\<lambda>s3.
             case pack_put use32bit seg written lenp 0 rest s3 of
               Inl e \<Rightarrow> Inl e
             | Inr (asns_packed, rest', s4) \<Rightarrow>
                 put_loop use32bit rest' (bytes1 + ASSEGMENT_SIZE (seg_length seg - written + asns_packed) use32bit) s4)))
      else Inr (bytes, s))"
  by pat_completeness auto
termination
  by (relation "measure (\<lambda>(use32bit, segs, bytes, s). length segs)") (auto dest!: pack_put_shorter)

definition aspath_put :: "stream \<Rightarrow> aspath \<Rightarrow> bool \<Rightarrow> (nat \<times> stream) res" where
  "aspath_put s as use32bit =
     (case segments as of
        [] \<Rightarrow> Inr (0, s)
      | seg # _ \<Rightarrow> if seg_length seg = 0 then Inr (0, s) else put_loop use32bit (segments as) 0 s)"

subsection \<open>Aggregation\<close>

text \<open>The set segment is the last one of the new path; it is kept apart until the end.\<close>

definition aspath_aggregate_as_set_add :: "as_t list option \<Rightarrow> as_t \<Rightarrow> as_t list option res" where
  "aspath_aggregate_as_set_add asset a =
     (case asset of
        None \<Rightarrow> Inr (Some [a])
      | Some as \<Rightarrow>
          if a \<in> set as then Inr (Some as)
          else if u_short (length as + 1) = 0 then Inl OutOfBounds
          else Inr (Some (as @ [a])))"

fun common_length :: "as_t list \<Rightarrow> as_t list \<Rightarrow> nat" where
  "common_length (a # as) (b # bs) = (if a = b then Suc (common_length as bs) else 0)"
| "common_length _ _ = 0"

text \<open>The common leading segments, the last \<^verbatim>\<open>match\<close>, and where the two chains stand.\<close>

fun aggregate_common ::
  "nat \<Rightarrow> assegment list \<Rightarrow> assegment list \<Rightarrow> assegment list \<times> nat \<times> assegment list \<times> assegment list" where
  "aggregate_common m (seg1 # rest1) (seg2 # rest2) =
     (if seg_type seg1 \<noteq> seg_type seg2 then ([], m, seg1 # rest1, seg2 # rest2)
      else let minlen = min (seg_length seg1) (seg_length seg2);
               match = common_length (seg_as seg1) (seg_as seg2);
               new = (if match \<noteq> 0
                      then [assegment_append_asns (assegment_new (seg_type seg1) 0) (take match (seg_as seg1))] else [])
           in if match \<noteq> minlen \<or> match \<noteq> seg_length seg1 \<or> seg_length seg1 \<noteq> seg_length seg2
              then (new, match, seg1 # rest1, seg2 # rest2)
              else case aggregate_common match rest1 rest2 of (segs, r) \<Rightarrow> (new @ segs, r))"
| "aggregate_common m segs1 segs2 = ([], m, segs1, segs2)"

fun aggregate_rest :: "nat \<Rightarrow> assegment list \<Rightarrow> as_t list option \<Rightarrow> as_t list option res" where
  "aggregate_rest from [] asset = Inr asset"
| "aggregate_rest from (seg # rest) asset =
     bindE (foldE aspath_aggregate_as_set_add asset (drop from (seg_as seg))) (\<lambda>asset'.
       aggregate_rest 0 rest asset')"

definition aspath_aggregate :: "aspath \<Rightarrow> aspath \<Rightarrow> aspath res" where
  "aspath_aggregate as1 as2 =
     (case aggregate_common 0 (segments as1) (segments as2) of (segs, match, rest1, rest2) \<Rightarrow>
        bindE (aggregate_rest match rest1 None) (\<lambda>asset1.
        bindE (aggregate_rest match rest2 asset1) (\<lambda>asset2.
          let new = segs @ (case asset2 of None \<Rightarrow> [] | Some as \<Rightarrow> [\<lparr>seg_type = AS_SET, seg_as = as\<rparr>])
          in aspath_str_update (aspath_new\<lparr>segments := assegment_normalise new\<rparr>))))"

subsection \<open>Checks\<close>

definition aspath_firstas_check :: "aspath option \<Rightarrow> as_t \<Rightarrow> bool res" where
  "aspath_firstas_check aspath asno =
     (case aspath of
        None \<Rightarrow> Inr False
      | Some p \<Rightarrow>
          (case segments p of
             [] \<Rightarrow> Inr False
           | seg # _ \<Rightarrow>
               if seg_type seg = AS_SEQUENCE then bindE (aget (seg_as seg) 0) (\<lambda>a. Inr (a = asno)) else Inr False))"

definition aspath_loop_check :: "aspath option \<Rightarrow> as_t \<Rightarrow> nat" where
  "aspath_loop_check aspath asno =
     (case aspath of
        None \<Rightarrow> 0
      | Some p \<Rightarrow> sum_list (map (\<lambda>seg. length (filter (\<lambda>a. a = asno) (seg_as seg))) (segments p)))"

definition aspath_private_as_check :: "aspath option \<Rightarrow> bool" where
  "aspath_private_as_check aspath =
     (case aspath of
        None \<Rightarrow> False
      | Some p \<Rightarrow> segments p \<noteq> [] \<and>
          list_all (\<lambda>seg. list_all (\<lambda>a. \<not> (a < BGP_PRIVATE_AS_MIN \<or> a > BGP_PRIVATE_AS_MAX)) (seg_as seg)) (segments p))"

definition is_confed :: "u8 \<Rightarrow> bool" where
  "is_confed t \<longleftrightarrow> t = AS_CONFED_SEQUENCE \<or> t = AS_CONFED_SET"

definition aspath_confed_check :: "aspath option \<Rightarrow> bool" where
  "aspath_confed_check aspath =
     (case aspath of None \<Rightarrow> False | Some p \<Rightarrow> list_ex (\<lambda>seg. is_confed (seg_type seg)) (segments p))"

definition aspath_left_confed_check :: "aspath option \<Rightarrow> bool" where
  "aspath_left_confed_check aspath =
     (case aspath of
        None \<Rightarrow> False
      | Some p \<Rightarrow> (case segments p of [] \<Rightarrow> False | seg # _ \<Rightarrow> is_confed (seg_type seg)))"

definition first_nonconfed :: "assegment list \<Rightarrow> assegment option" where
  "first_nonconfed segs = find (\<lambda>seg. \<not> is_confed (seg_type seg)) segs"

definition aspath_cmp_left :: "aspath option \<Rightarrow> aspath option \<Rightarrow> bool res" where
  "aspath_cmp_left aspath1 aspath2 =
     (case (aspath1, aspath2) of
        (Some p1, Some p2) \<Rightarrow>
          (case (first_nonconfed (segments p1), first_nonconfed (segments p2)) of
             (Some seg1, Some seg2) \<Rightarrow>
               if seg_type seg1 = AS_SEQUENCE \<and> seg_type seg2 = AS_SEQUENCE
               then bindE (aget (seg_as seg1) 0) (\<lambda>a. bindE (aget (seg_as seg2) 0) (\<lambda>b. Inr (a = b)))
               else Inr False
           | _ \<Rightarrow> Inr False)
      | _ \<Rightarrow> Inr False)"

definition aspath_cmp_left_confed :: "aspath option \<Rightarrow> aspath option \<Rightarrow> bool res" where
  "aspath_cmp_left_confed aspath1 aspath2 =
     (case (aspath1, aspath2) of
        (Some p1, Some p2) \<Rightarrow>
          (case (segments p1, segments p2) of
             (seg1 # _, seg2 # _) \<Rightarrow>
               if seg_type seg1 \<noteq> AS_CONFED_SEQUENCE \<or> seg_type seg2 \<noteq> AS_CONFED_SEQUENCE then Inr False
               else bindE (aget (seg_as seg1) 0) (\<lambda>a. bindE (aget (seg_as seg2) 0) (\<lambda>b. Inr (a = b)))
           | _ \<Rightarrow> Inr False)
      | _ \<Rightarrow> Inr False)"

fun segs_cmp :: "assegment list \<Rightarrow> assegment list \<Rightarrow> bool" where
  "segs_cmp [] [] = True"
| "segs_cmp (seg1 # rest1) (seg2 # rest2) =
     (if seg_type seg1 \<noteq> seg_type seg2 then False
      else if seg_length seg1 \<noteq> seg_length seg2 then False
      else if list_ex (\<lambda>i. seg_as seg1 ! i \<noteq> seg_as seg2 ! i) [0..<seg_length seg1] then False
      else segs_cmp rest1 rest2)"
| "segs_cmp _ _ = False"

definition aspath_cmp :: "aspath \<Rightarrow> aspath \<Rightarrow> bool" where
  "aspath_cmp p1 p2 = segs_cmp (segments p1) (segments p2)"

subsection \<open>Joining paths\<close>

definition aspath_merge :: "aspath option \<Rightarrow> aspath option \<Rightarrow> aspath option res" where
  "aspath_merge as1 as2 =
     (case (as1, as2) of
        (Some p1, Some p2) \<Rightarrow>
          if segments p1 = [] then Inl NullDeref
          else bindE (aspath_str_update (p2\<lparr>segments := assegment_dup_all (segments p1) @ segments p2\<rparr>)) (\<lambda>p. Inr (Some p))
      | _ \<Rightarrow> Inr None)"

fun drop_confed :: "assegment list \<Rightarrow> assegment list" where
  "drop_confed [] = []"
| "drop_confed (seg # rest) = (if is_confed (seg_type seg) then drop_confed rest else seg # rest)"

definition aspath_delete_confed_seq :: "aspath option \<Rightarrow> aspath option res" where
  "aspath_delete_confed_seq aspath =
     (case aspath of
        None \<Rightarrow> Inr None
      | Some p \<Rightarrow>
          (case segments p of
             [] \<Rightarrow> Inr (Some p)
           | seg # _ \<Rightarrow>
               if seg_type seg \<noteq> AS_CONFED_SEQUENCE then Inr (Some p)
               else bindE (aspath_str_update (p\<lparr>segments := drop_confed (segments p)\<rparr>)) (\<lambda>q. Inr (Some q))))"

text \<open>Deleting the leading confederation segments frees the segment \<^verbatim>\<open>seg2\<close> that the next test reads.\<close>

definition aspath_prepend :: "aspath option \<Rightarrow> aspath option \<Rightarrow> aspath option res" where
  "aspath_prepend as1 as2 =
     (case (as1, as2) of
        (Some p1, Some p2) \<Rightarrow>
          (case segments p2 of
             [] \<Rightarrow> bindE (aspath_str_update (p2\<lparr>segments := assegment_dup_all (segments p1)\<rparr>)) (\<lambda>p. Inr (Some p))
           | seg2 # rest2 \<Rightarrow>
               if segments p1 = [] then Inr (Some p2)
               else let seg1 = last (segments p1) in
                 if seg_type seg1 = AS_SEQUENCE \<and> seg_type seg2 = AS_CONFED_SEQUENCE
                 then bindE (aspath_delete_confed_seq (Some p2)) (\<lambda>_. Inl NullDeref)
                 else if seg_type seg1 \<noteq> seg_type seg2 then aspath_merge (Some p1) (Some p2)
                 else if seg_type seg1 = AS_SEQUENCE
                 then let new = assegment_dup_all (segments p1) in
                      bindE (aspath_str_update (p2\<lparr>segments :=
                               butlast new @ assegment_append_asns (last new) (seg_as seg2) # rest2\<rparr>)) (\<lambda>p. Inr (Some p))
                 else aspath_merge (Some p1) (Some p2))
      | _ \<Rightarrow> Inr None)"

definition excluded :: "assegment list \<Rightarrow> as_t \<Rightarrow> bool" where
  "excluded exclude a \<longleftrightarrow> list_ex (\<lambda>exclseg. list_ex (\<lambda>y. a = y) (seg_as exclseg)) exclude"

fun filter_segs :: "assegment list \<Rightarrow> assegment list \<Rightarrow> assegment list" where
  "filter_segs exclude [] = []"
| "filter_segs exclude (srcseg # rest) =
     (let kept = filter (\<lambda>a. \<not> excluded exclude a) (seg_as srcseg)
      in if kept = [] then filter_segs exclude rest
         else (assegment_new (seg_type srcseg) (length kept))\<lparr>seg_as := kept\<rparr> # filter_segs exclude rest)"

definition aspath_filter_exclude :: "aspath \<Rightarrow> aspath \<Rightarrow> aspath res" where
  "aspath_filter_exclude source exclude_list =
     aspath_str_update (aspath_new\<lparr>segments := filter_segs (segments exclude_list) (segments source)\<rparr>)"

definition aspath_add_one_as :: "aspath \<Rightarrow> as_t \<Rightarrow> u8 \<Rightarrow> aspath" where
  "aspath_add_one_as aspath asno type =
     (case segments aspath of
        [] \<Rightarrow> aspath\<lparr>segments := [(assegment_new type 1)\<lparr>seg_as := [asno]\<rparr>]\<rparr>
      | seg # rest \<Rightarrow>
          if seg_length seg = 0 then aspath\<lparr>segments := [(assegment_new type 1)\<lparr>seg_as := [asno]\<rparr>]\<rparr>
          else if seg_type seg = type then aspath\<lparr>segments := assegment_prepend_asns seg asno 1 # rest\<rparr>
          else aspath\<lparr>segments := (assegment_new type 1)\<lparr>seg_as := [asno]\<rparr> # seg # rest\<rparr>)"

definition aspath_add_seq :: "aspath \<Rightarrow> as_t \<Rightarrow> aspath" where
  "aspath_add_seq aspath asno = aspath_add_one_as aspath asno AS_SEQUENCE"

definition aspath_add_confed_seq :: "aspath \<Rightarrow> as_t \<Rightarrow> aspath" where
  "aspath_add_confed_seq aspath asno = aspath_add_one_as aspath asno AS_CONFED_SEQUENCE"

text \<open>The variable \<^verbatim>\<open>cpasns\<close> keeps its value from the previous segment for a segment of unknown type.\<close>

fun reconcile_loop :: "int \<Rightarrow> nat \<Rightarrow> assegment list \<Rightarrow> assegment list res" where
  "reconcile_loop hops cpasns [] = Inr []"
| "reconcile_loop hops cpasns (seg # rest) =
     (if hops > 0
      then let len = int (seg_length seg);
               hops1 = (if seg_type seg = AS_CONFED_SEQUENCE \<and> hops < len then len else hops);
               (hops', cpasns') =
                 (if seg_type seg = AS_SET \<or> seg_type seg = AS_CONFED_SET then (hops - 1, seg_length seg)
                  else if seg_type seg = AS_CONFED_SEQUENCE \<or> seg_type seg = AS_SEQUENCE
                  then (hops1 - len, nat (min len hops1))
                  else (hops, cpasns))
           in bindE (assertE (cpasns' \<le> seg_length seg)) (\<lambda>_.
              bindE (reconcile_loop hops' cpasns' rest) (\<lambda>segs.
                Inr (assegment_append_asns (assegment_new (seg_type seg) 0) (take cpasns' (seg_as seg)) # segs)))
      else Inr [])"

definition aspath_reconcile_as4 :: "aspath option \<Rightarrow> aspath \<Rightarrow> aspath option res" where
  "aspath_reconcile_as4 aspath as4path =
     (case aspath of
        None \<Rightarrow> Inr None
      | Some p \<Rightarrow>
          let hops0 = int (aspath_count_hops p + aspath_count_confeds p) - int (aspath_count_hops as4path);
              hops = (if hops0 < 0 then int (aspath_count_hops p) else hops0)
          in if hops = 0 then bindE (aspath_dup as4path) (\<lambda>q. Inr (Some q))
             else bindE (reconcile_loop hops 0 (segments p)) (\<lambda>segs.
                  bindE (aspath_dup as4path) (\<lambda>q.
                  bindE (aspath_merge (if segs = [] then None else Some (aspath_new\<lparr>segments := segs\<rparr>)) (Some q)) (\<lambda>merged.
                    case merged of
                      None \<Rightarrow> Inl NullDeref
                    | Some mp \<Rightarrow>
                        bindE (aspath_str_update (mp\<lparr>segments := assegment_normalise (segments mp)\<rparr>)) (\<lambda>r. Inr (Some r))))))"

subsection \<open>Parsing text\<close>

datatype as_token = as_token_asval | as_token_set_start | as_token_set_end | as_token_confed_seq_start
  | as_token_confed_seq_end | as_token_confed_set_start | as_token_confed_set_end | as_token_unknown

fun digits_asn :: "as_t \<Rightarrow> string \<Rightarrow> as_t" where
  "digits_asn asval [] = asval"
| "digits_asn asval (c # cs) = digits_asn (asval * 10 + (of_char c - 48)) cs"

text \<open>The next token, the AS number (unchanged unless the token is a number) and the rest; \<open>None\<close> at
  the end of the string.\<close>

definition aspath_gettoken :: "string \<Rightarrow> as_t \<Rightarrow> (as_token \<times> as_t \<times> string) option" where
  "aspath_gettoken buf asno =
     (case dropWhile (\<lambda>c. isspace c \<or> c = CHR '','') buf of
        [] \<Rightarrow> None
      | c # p \<Rightarrow>
          if c = CHR ''{'' then Some (as_token_set_start, asno, p)
          else if c = CHR ''}'' then Some (as_token_set_end, asno, p)
          else if c = CHR ''('' then Some (as_token_confed_seq_start, asno, p)
          else if c = CHR '')'' then Some (as_token_confed_seq_end, asno, p)
          else if c = CHR ''['' then Some (as_token_confed_set_start, asno, p)
          else if c = CHR '']'' then Some (as_token_confed_set_end, asno, p)
          else if isdigit c
          then Some (as_token_asval, digits_asn 0 (c # takeWhile isdigit p), dropWhile isdigit p)
          else Some (as_token_unknown, asno, c # p))"

definition aspath_as_add :: "assegment list \<Rightarrow> as_t \<Rightarrow> assegment list" where
  "aspath_as_add segs asno =
     (if segs = [] then segs else butlast segs @ [assegment_append_asns (last segs) [asno]])"

definition aspath_segment_add :: "assegment list \<Rightarrow> u8 \<Rightarrow> assegment list" where
  "aspath_segment_add segs type = segs @ [assegment_new type 0]"

lemma gettoken_shorter:
  assumes "aspath_gettoken buf asno = Some (tok, a, rest)" "tok \<noteq> as_token_unknown"
  shows "length rest < length buf"
proof -
  obtain c p where cp: "dropWhile (\<lambda>c. isspace c \<or> c = CHR '','') buf = c # p"
    using assms(1) by (auto simp: aspath_gettoken_def split: list.splits)
  then have "length p < length buf" using length_dropWhile_le[of "\<lambda>c. isspace c \<or> c = CHR '',''" buf] by simp
  moreover have "rest = p \<or> rest = dropWhile isdigit p"
    using assms by (auto simp: aspath_gettoken_def cp split: if_splits)
  moreover have "length (dropWhile isdigit p) \<le> length p" by (rule length_dropWhile_le)
  ultimately show ?thesis by auto
qed

function str2segs :: "u8 \<Rightarrow> bool \<Rightarrow> as_t \<Rightarrow> assegment list \<Rightarrow> string \<Rightarrow> assegment list option" where
  "str2segs as_type needtype asno segs s =
     (case aspath_gettoken s asno of
        None \<Rightarrow> Some segs
      | Some (tok, a, rest) \<Rightarrow>
          if tok = as_token_asval
          then str2segs as_type False a (aspath_as_add (if needtype then aspath_segment_add segs as_type else segs) a) rest
          else if tok = as_token_set_start then str2segs AS_SET False a (aspath_segment_add segs AS_SET) rest
          else if tok = as_token_confed_seq_start
          then str2segs AS_CONFED_SEQUENCE False a (aspath_segment_add segs AS_CONFED_SEQUENCE) rest
          else if tok = as_token_confed_set_start
          then str2segs AS_CONFED_SET False a (aspath_segment_add segs AS_CONFED_SET) rest
          else if tok = as_token_unknown then None
          else str2segs AS_SEQUENCE True a segs rest)"
  by pat_completeness auto
termination
  by (relation "measure (\<lambda>(as_type, needtype, asno, segs, s). length s)") (auto dest: gettoken_shorter)

definition aspath_str2aspath :: "string \<Rightarrow> aspath option res" where
  "aspath_str2aspath s =
     (case str2segs AS_SEQUENCE True 0 [] s of
        None \<Rightarrow> Inr None
      | Some segs \<Rightarrow>
          bindE (aspath_make_str_count segs) (\<lambda>t. Inr (Some (aspath_new\<lparr>segments := segs, str := t\<rparr>))))"

declare weed_loop.simps [simp del] parse_loop.simps [simp del] split_put.simps [simp del] str2segs.simps [simp del]

subsection \<open>Sorting and weeding\<close>

lemma int_cmp_le: "int_cmp a b \<le> 0 \<longleftrightarrow> a \<le> b"
  by (auto simp: int_cmp_def)

lemma qsort_insert_insort: "qsort_insert a bs = insort a bs"
  by (induction bs) (auto simp: int_cmp_le)

lemma qsort_asns_sort: "qsort_asns as = sort as"
proof -
  have "qsort_insert = insort" by (auto simp: qsort_insert_insort fun_eq_iff)
  then show ?thesis by (simp add: qsort_asns_def sort_key_def)
qed

lemma weed_loop_spec:
  assumes "tail < i" "i \<le> length as" "distinct_adj (take (tail + 1) as)" "weed_loop i tail as = (tail', as')"
  shows "take (tail' + 1) as' = remdups_adj (take (tail + 1) as @ drop i as)"
  using assms
proof (induction i tail as rule: weed_loop.induct)
  case (1 i tail as)
  note P = 1(3-6)
  show ?case
  proof (cases "i < length as")
    case False
    then have "weed_loop i tail as = (tail, as)" by (subst weed_loop.simps) simp
    then show ?thesis using P False by (simp add: distinct_adj_altdef)
  next
    case True
    have split: "take (tail + 1) as = take tail as @ [as ! tail]" using P True by (simp add: take_Suc_conv_app_nth)
    have d: "drop i as = as ! i # drop (i + 1) as" using True by (simp add: Cons_nth_drop_Suc)
    show ?thesis
    proof (cases "as ! tail = as ! i")
      case eq: True
      have "weed_loop (i + 1) tail as = (tail', as')"
        using P(4) True eq by (subst (asm) weed_loop.simps) simp
      then have "take (tail' + 1) as' = remdups_adj (take (tail + 1) as @ drop (i + 1) as)"
        using 1(1)[OF True eq] P True by simp
      also have "\<dots> = remdups_adj (take (tail + 1) as @ drop i as)"
        unfolding split d eq using remdups_adj_append[of "take tail as" "as ! i" "drop (i + 1) as"]
          remdups_adj_append[of "take tail as" "as ! i" "as ! i # drop (i + 1) as"] by simp
      finally show ?thesis .
    next
      case ne: False
      define as1 where "as1 = (if tail + 1 < i then as[tail + 1 := as ! i] else as)"
      have t: "take (tail + 1 + 1) as1 = take (tail + 1) as @ [as ! i]"
      proof (cases "tail + 1 < i")
        case True
        then show ?thesis using \<open>i < length as\<close> by (simp add: as1_def take_Suc_conv_app_nth)
      next
        case False
        then have "i = tail + 1" using P(1) by simp
        then show ?thesis using \<open>i < length as\<close> by (simp add: as1_def take_Suc_conv_app_nth)
      qed
      have w: "weed_loop (i + 1) (tail + 1) as1 = (tail', as')"
        using P(4) True ne unfolding as1_def by (subst (asm) weed_loop.simps) (simp add: Let_def split: if_splits)
      have dist: "distinct_adj (take (tail + 1 + 1) as1)"
        unfolding t using P(3) ne unfolding split by (simp add: distinct_adj_append_iff)
      have len: "tail + 1 < i + 1" "i + 1 \<le> length as1" using P(1) True by (auto simp: as1_def)
      have "drop (i + 1) as1 = drop (i + 1) as" using P(1) by (simp add: as1_def)
      then show ?thesis using 1(2)[OF True ne refl as1_def len dist w] t d by simp
    qed
  qed
qed

lemma sorted_remdups_adj:
  assumes "sorted (xs :: as_t list)" shows "remdups_adj xs = sorted_list_of_set (set xs)"
proof -
  have "sorted (remdups_adj ys) \<and> distinct (remdups_adj ys)" if "sorted ys" for ys :: "as_t list"
    using that by (induction ys rule: remdups_adj.induct) (auto simp: order_le_less)
  then show ?thesis using assms by (intro sorted_distinct_set_unique) auto
qed

definition is_set :: "u8 \<Rightarrow> bool" where
  "is_set t \<longleftrightarrow> t = AS_SET \<or> t = AS_CONFED_SET"

text \<open>What sorting and weeding a segment amounts to.\<close>

definition canon :: "assegment \<Rightarrow> assegment" where
  "canon seg = (if is_set (seg_type seg) then seg\<lparr>seg_as := sorted_list_of_set (set (seg_as seg))\<rparr> else seg)"

lemma sort_set_canon: "sort_set seg = canon seg"
proof (cases "seg_as seg = []")
  case True
  then show ?thesis
    by (cases seg) (simp add: sort_set_def canon_def is_set_def qsort_asns_sort weed_loop.simps)
next
  case False
  obtain tail as where w: "weed_loop 1 0 (sort (seg_as seg)) = (tail, as)" by (metis surj_pair)
  have "take (tail + 1) as = remdups_adj (sort (seg_as seg))"
  proof -
    obtain x xs where x: "sort (seg_as seg) = x # xs" using False by (cases "sort (seg_as seg)") (auto dest: arg_cong[of _ _ set])
    then have "take (tail + 1) as = remdups_adj (take (0 + 1) (sort (seg_as seg)) @ drop 1 (sort (seg_as seg)))"
      using w by (intro weed_loop_spec) simp_all
    then show ?thesis using x by simp
  qed
  then show ?thesis
    using False w by (simp add: sort_set_def canon_def is_set_def qsort_asns_sort sorted_remdups_adj)
qed

subsection \<open>Canonical chains\<close>

text \<open>The meaning of a path: single hops, sets of which one was passed, and the segments of a
  confederation.\<close>

datatype item = Hop as_t | AnyOf "as_t set" | Confed "as_t list" | ConfedAny "as_t set"

definition seg_items :: "assegment \<Rightarrow> item list" where
  "seg_items seg =
     (if seg_type seg = AS_SEQUENCE then map Hop (seg_as seg)
      else if seg_type seg = AS_SET then [AnyOf (set (seg_as seg))]
      else if seg_type seg = AS_CONFED_SEQUENCE then [Confed (seg_as seg)]
      else [ConfedAny (set (seg_as seg))])"

definition items :: "assegment list \<Rightarrow> item list" where
  "items segs = concat (map seg_items segs)"

definition asn_total :: "assegment list \<Rightarrow> nat" where
  "asn_total segs = sum_list (map seg_length segs)"

definition wf_seg :: "assegment \<Rightarrow> bool" where
  "wf_seg seg \<longleftrightarrow> known_type (seg_type seg) \<and> seg_as seg \<noteq> []"

definition wf_segs :: "assegment list \<Rightarrow> bool" where
  "wf_segs segs \<longleftrightarrow> (\<forall>seg\<in>set segs. wf_seg seg) \<and> asn_total segs < 65536"

definition canonical_segs :: "assegment list \<Rightarrow> bool" where
  "canonical_segs segs \<longleftrightarrow> (\<forall>seg\<in>set segs. wf_seg seg \<and> canon seg = seg) \<and>
     successively (\<lambda>x y. \<not> ASSEGMENT_TYPES_PACKABLE x y) segs"

lemma seg_type_distinct [simp]:
  "AS_SET \<noteq> AS_SEQUENCE" "AS_SEQUENCE \<noteq> AS_SET" "AS_CONFED_SEQUENCE \<noteq> AS_SEQUENCE" "AS_SEQUENCE \<noteq> AS_CONFED_SEQUENCE"
  "AS_CONFED_SET \<noteq> AS_SEQUENCE" "AS_SEQUENCE \<noteq> AS_CONFED_SET" "AS_SET \<noteq> AS_CONFED_SET" "AS_CONFED_SET \<noteq> AS_SET"
  "AS_SET \<noteq> AS_CONFED_SEQUENCE" "AS_CONFED_SEQUENCE \<noteq> AS_SET" "AS_CONFED_SET \<noteq> AS_CONFED_SEQUENCE"
  "AS_CONFED_SEQUENCE \<noteq> AS_CONFED_SET"
  by (simp_all add: AS_SET_def AS_SEQUENCE_def AS_CONFED_SET_def AS_CONFED_SEQUENCE_def)

lemma items_simps [simp]:
  "items [] = []" "items (seg # segs) = seg_items seg @ items segs" "items (xs @ ys) = items xs @ items ys"
  "asn_total [] = 0" "asn_total (seg # segs) = seg_length seg + asn_total segs" "asn_total (xs @ ys) = asn_total xs + asn_total ys"
  by (simp_all add: items_def asn_total_def)

lemma append_asns_small:
  "seg_length seg + length asnos < 65536 \<Longrightarrow> assegment_append_asns seg asnos = seg\<lparr>seg_as := seg_as seg @ asnos\<rparr>"
  by (simp add: assegment_append_asns_def u_short_def)

lemma canon_simps [simp]:
  "seg_type (canon seg) = seg_type seg" "seg_items (canon seg) = seg_items seg" "canon (canon seg) = canon seg"
  "wf_seg seg \<Longrightarrow> wf_seg (canon seg)"
  by (auto simp: canon_def seg_items_def wf_seg_def is_set_def sorted_list_of_set_eq_Nil_iff)

lemma canon_shorter: "seg_length (canon seg) \<le> seg_length seg"
  using card_length[of "seg_as seg"] by (simp add: canon_def)

lemma pack_next_spec:
  assumes "pack_next pin rest = (pin', rest')" "seg_length pin + asn_total rest < 65536" "wf_seg pin"
    "\<forall>seg\<in>set rest. wf_seg seg" "canon pin = pin"
  shows "seg_items pin' @ items rest' = seg_items pin @ items rest \<and> seg_length pin' + asn_total rest' \<le> seg_length pin + asn_total rest \<and>
     wf_seg pin' \<and> canon pin' = pin' \<and> set rest' \<subseteq> set rest \<and>
     (rest' \<noteq> [] \<longrightarrow> \<not> ASSEGMENT_TYPES_PACKABLE pin' (hd rest'))"
  using assms
proof (induction pin rest rule: pack_next.induct)
  case (2 pin seg rest)
  show ?case
  proof (cases "ASSEGMENT_TYPES_PACKABLE pin seg")
    case True
    define new where "new = assegment_append_asns pin (seg_as seg)"
    have new: "new = pin\<lparr>seg_as := seg_as pin @ seg_as seg\<rparr>" using 2(3) by (simp add: new_def append_asns_small)
    have t: "seg_type pin = AS_SEQUENCE" "seg_type seg = AS_SEQUENCE"
      using True by (auto simp: ASSEGMENT_TYPES_PACKABLE_def)
    have "canon new = new" "wf_seg new" using new t 2(4) by (auto simp: canon_def is_set_def wf_seg_def)
    then have "seg_items pin' @ items rest' = seg_items new @ items rest \<and> seg_length pin' + asn_total rest' \<le> seg_length new + asn_total rest \<and>
       wf_seg pin' \<and> canon pin' = pin' \<and> set rest' \<subseteq> set rest \<and>
       (rest' \<noteq> [] \<longrightarrow> \<not> ASSEGMENT_TYPES_PACKABLE pin' (hd rest'))"
      using 2(1)[OF True, folded new_def] 2(2,3,5) True new by (simp add: new_def[symmetric])
    moreover have "seg_items new = seg_items pin @ seg_items seg" using new t by (simp add: seg_items_def)
    ultimately show ?thesis using new by auto
  next
    case False
    then show ?thesis using 2 by auto
  qed
qed simp

lemma normalise_hd: "assegment_normalise (seg # rest) = pin # segs \<Longrightarrow> seg_type pin = seg_type seg"
proof -
  have "pack_next p rs = (p', rs') \<Longrightarrow> seg_type p' = seg_type p" for p rs p' rs'
    by (induction p rs rule: pack_next.induct) (auto simp: assegment_append_asns_def split: if_splits)
  then show "assegment_normalise (seg # rest) = pin # segs \<Longrightarrow> seg_type pin = seg_type seg"
    by (auto simp: sort_set_canon split: prod.splits)
qed

lemma normalise_spec:
  assumes "wf_segs segs"
  shows "items (assegment_normalise segs) = items segs \<and> canonical_segs (assegment_normalise segs) \<and>
     asn_total (assegment_normalise segs) \<le> asn_total segs"
  using assms
proof (induction segs rule: assegment_normalise.induct)
  case 1
  then show ?case by (simp add: canonical_segs_def)
next
  case (2 seg rest)
  obtain pin rest' where p: "pack_next (canon seg) rest = (pin, rest')" by (metis surj_pair)
  have wf: "wf_seg seg" "\<forall>s\<in>set rest. wf_seg s" "seg_length seg + asn_total rest < 65536"
    using 2(2) by (auto simp: wf_segs_def)
  have sp: "seg_items pin @ items rest' = seg_items seg @ items rest" "seg_length pin + asn_total rest' \<le> seg_length seg + asn_total rest"
     "wf_seg pin" "canon pin = pin" "set rest' \<subseteq> set rest" "rest' \<noteq> [] \<longrightarrow> \<not> ASSEGMENT_TYPES_PACKABLE pin (hd rest')"
    using pack_next_spec[OF p] wf canon_shorter[of seg] by auto
  have "wf_segs rest'" using sp(2,5) wf by (auto simp: wf_segs_def)
  then have IH: "items (assegment_normalise rest') = items rest'" "canonical_segs (assegment_normalise rest')"
     "asn_total (assegment_normalise rest') \<le> asn_total rest'"
    using 2(1)[of pin rest'] p by (auto simp: sort_set_canon)
  have "\<not> ASSEGMENT_TYPES_PACKABLE pin y" if "assegment_normalise rest' = y # ys" for y ys
  proof (cases rest')
    case Nil
    then show ?thesis using that by simp
  next
    case (Cons r rs)
    then show ?thesis using that sp(6) normalise_hd[of r rs y ys] by (simp add: ASSEGMENT_TYPES_PACKABLE_def)
  qed
  then have "canonical_segs (pin # assegment_normalise rest')"
    using IH(2) sp(3,4) by (auto simp: canonical_segs_def successively_Cons neq_Nil_conv)
  then show ?case using p sp(1,2) IH by (simp add: sort_set_canon)
qed

text \<open>A canonical chain is determined by its meaning.\<close>

lemma hop_free:
  assumes "canonical_segs (seg # segs)" "seg_type seg = AS_SEQUENCE"
  shows "takeWhile (\<lambda>i. \<exists>a. i = Hop a) (items (seg # segs)) = map Hop (seg_as seg)"
    "dropWhile (\<lambda>i. \<exists>a. i = Hop a) (items (seg # segs)) = items segs"
proof -
  have "items segs = [] \<or> (\<exists>i is. items segs = i # is \<and> (\<forall>a. i \<noteq> Hop a))"
  proof (cases segs)
    case (Cons y ys)
    then have "seg_type y \<noteq> AS_SEQUENCE" using assms by (auto simp: canonical_segs_def ASSEGMENT_TYPES_PACKABLE_def)
    then show ?thesis using Cons by (auto simp: seg_items_def)
  qed simp
  then show "takeWhile (\<lambda>i. \<exists>a. i = Hop a) (items (seg # segs)) = map Hop (seg_as seg)"
    "dropWhile (\<lambda>i. \<exists>a. i = Hop a) (items (seg # segs)) = items segs"
    using assms(2) by (auto simp: seg_items_def takeWhile_append dropWhile_append)
qed

lemma canon_inject:
  assumes "canon x = x" "canon y = y" "seg_type x = seg_type y" "wf_seg x" "seg_items x = seg_items y"
  shows "x = y"
proof -
  have "seg_as x = seg_as y"
    using assms
    by (auto simp: canon_def is_set_def seg_items_def wf_seg_def known_type_def inj_map_eq_map inj_def split: if_splits)
      (metis assegment.select_convs(2) assegment.surjective assegment.update_convs(2))+
  then show ?thesis using assms(3) by simp
qed

lemma canonical_unique:
  assumes "canonical_segs xs" "canonical_segs ys" "items xs = items ys"
  shows "xs = ys"
  using assms
proof (induction xs arbitrary: ys)
  case Nil
  have "seg_items y \<noteq> []" if "wf_seg y" for y using that by (auto simp: seg_items_def wf_seg_def)
  then show ?case using Nil by (cases ys) (auto simp: canonical_segs_def)
next
  case (Cons x xs)
  have ne: "seg_items y \<noteq> []" if "wf_seg y" for y using that by (auto simp: seg_items_def wf_seg_def)
  have "wf_seg x" using Cons.prems(1) by (simp add: canonical_segs_def)
  then obtain y ys' where ys: "ys = y # ys'" using ne[of x] Cons.prems(3) by (cases ys) auto
  have tl: "canonical_segs xs" "canonical_segs ys'"
    using Cons.prems(1,2) ys by (auto simp: canonical_segs_def successively_Cons)
  have wf: "wf_seg x" "wf_seg y" "canon x = x" "canon y = y" using Cons.prems(1,2) ys by (auto simp: canonical_segs_def)
  have ty: "seg_type x = seg_type y"
  proof -
    have "hd (seg_items x) = hd (seg_items y)"
      using Cons.prems(3) ys ne[OF wf(1)] ne[OF wf(2)] by (metis items_simps(2) hd_append2)
    then show ?thesis using wf(1,2)
      by (auto simp: seg_items_def wf_seg_def known_type_def hd_map split: if_splits)
  qed
  have "seg_items x = seg_items y \<and> items xs = items ys'"
  proof (cases "seg_type x = AS_SEQUENCE")
    case True
    then show ?thesis
      using hop_free[of x xs] hop_free[of y ys'] Cons.prems ty ys by (simp add: seg_items_def)
  next
    case False
    then have "length (seg_items x) = 1" "length (seg_items y) = 1" using ty by (auto simp: seg_items_def)
    then show ?thesis using Cons.prems(3) ys by simp
  qed
  then show ?case using canon_inject[OF wf(3,4) ty wf(1)] Cons.IH[OF tl] ys by simp
qed

lemma normalise_canonical: "canonical_segs segs \<Longrightarrow> asn_total segs < 65536 \<Longrightarrow> assegment_normalise segs = segs"
proof -
  assume c: "canonical_segs segs" "asn_total segs < 65536"
  then have "wf_segs segs" by (simp add: wf_segs_def canonical_segs_def)
  then show ?thesis using normalise_spec[of segs] c(1) canonical_unique by blast
qed

lemma normalise_eq_iff:
  "wf_segs xs \<Longrightarrow> wf_segs ys \<Longrightarrow> assegment_normalise xs = assegment_normalise ys \<longleftrightarrow> items xs = items ys"
  using normalise_spec canonical_unique by metis

lemma asns_differ: "length as = length bs \<Longrightarrow> list_ex (\<lambda>i. as ! i \<noteq> bs ! i) [0..<length as] \<longleftrightarrow> as \<noteq> bs"
  using nth_equalityI[of as bs] by (simp only: list_ex_iff set_upt) fastforce

lemma segs_cmp_eq: "segs_cmp xs ys \<longleftrightarrow> xs = ys"
proof (induction xs ys rule: segs_cmp.induct)
  case (2 x xs y ys)
  have "x = y \<longleftrightarrow> seg_type x = seg_type y \<and> seg_as x = seg_as y" by (cases x; cases y) simp
  then show ?case using 2 asns_differ[of "seg_as x" "seg_as y"] by (cases "seg_as x = seg_as y") auto
qed simp_all

text \<open>C11: Normalising a chain gives the canonical representation of its path. For chains of non-empty
  segments of the four known types with fewer than 65536 numbers, \<^verbatim>\<open>assegment_normalise\<close> keeps the
  meaning of the path, sorts and weeds every set, leaves no two sequences next to each other, does
  nothing to a chain already in that form, and two chains become equal exactly when they mean the same
  path, which is what the comparison and the hash of AS paths rely on.\<close>

theorem assegment_normalise_canonical:
  assumes "wf_segs xs" "wf_segs ys"
  shows "items (assegment_normalise xs) = items xs \<and> canonical_segs (assegment_normalise xs) \<and>
     assegment_normalise (assegment_normalise xs) = assegment_normalise xs \<and>
     (segs_cmp (assegment_normalise xs) (assegment_normalise ys) \<longleftrightarrow> items xs = items ys)"
proof -
  have n: "items (assegment_normalise xs) = items xs" "canonical_segs (assegment_normalise xs)"
    "asn_total (assegment_normalise xs) < 65536"
    using normalise_spec[OF assms(1)] assms(1) by (auto simp: wf_segs_def)
  then show ?thesis using normalise_canonical[OF n(2,3)] normalise_eq_iff[OF assms] by (simp add: segs_cmp_eq)
qed

theorem assegment_normalise_canonical_witness:
  "let x = [\<lparr>seg_type = AS_SEQUENCE, seg_as = [7]\<rparr>, \<lparr>seg_type = AS_SEQUENCE, seg_as = [9]\<rparr>, \<lparr>seg_type = AS_SET, seg_as = [3, 1, 3]\<rparr>];
       y = [\<lparr>seg_type = AS_SEQUENCE, seg_as = [7, 9]\<rparr>, \<lparr>seg_type = AS_SET, seg_as = [1, 3]\<rparr>]
   in wf_segs x \<and> wf_segs y \<and> segs_cmp (assegment_normalise x) (assegment_normalise y)"
proof -
  let ?x = "[\<lparr>seg_type = AS_SEQUENCE, seg_as = [7]\<rparr>, \<lparr>seg_type = AS_SEQUENCE, seg_as = [9]\<rparr>, \<lparr>seg_type = AS_SET, seg_as = [3, 1, 3]\<rparr>]"
  let ?y = "[\<lparr>seg_type = AS_SEQUENCE, seg_as = [7, 9]\<rparr>, \<lparr>seg_type = AS_SET, seg_as = [1, 3]\<rparr>]"
  have "wf_segs ?x" "wf_segs ?y" by (simp_all add: wf_segs_def wf_seg_def known_type_def)
  moreover have "items ?x = items ?y" by (auto simp: seg_items_def)
  ultimately show ?thesis using assegment_normalise_canonical[of ?x ?y] by (simp add: Let_def)
qed

subsection \<open>Wire round trip\<close>

text \<open>The number a peer sees: a four-octet number is replaced by AS_TRANS towards an old speaker.\<close>

definition asn_trans :: "bool \<Rightarrow> as_t \<Rightarrow> as_t" where
  "asn_trans use32bit a = (if use32bit \<or> a \<le> BGP_AS_MAX then a else ucast BGP_AS_TRANS)"

definition asn_bytes :: "bool \<Rightarrow> as_t \<Rightarrow> byte list" where
  "asn_bytes use32bit a =
     (if use32bit then bytes32 a else bytes16 (if a \<le> BGP_AS_MAX then ucast a else BGP_AS_TRANS))"

definition asn_size :: "bool \<Rightarrow> nat" where
  "asn_size use32bit = (if use32bit then AS_VALUE_SIZE else AS16_VALUE_SIZE)"

definition seg_bytes :: "bool \<Rightarrow> assegment \<Rightarrow> byte list" where
  "seg_bytes use32bit seg =
     seg_type seg # of_nat (seg_length seg) # concat (map (asn_bytes use32bit) (seg_as seg))"

lemma asn_bytes_length [simp]: "length (asn_bytes use32bit a) = asn_size use32bit"
  by (simp add: asn_bytes_def asn_size_def AS_VALUE_SIZE_def AS16_VALUE_SIZE_def bytes32_def bytes16_def)

lemma asns_bytes_length [simp]:
  "length (concat (map (asn_bytes use32bit) as)) = ASSEGMENT_DATA_SIZE (length as) use32bit"
  by (induction as) (auto simp: ASSEGMENT_DATA_SIZE_def asn_size_def)

lemma seg_bytes_length [simp]: "length (seg_bytes use32bit seg) = ASSEGMENT_LEN seg use32bit"
  by (simp add: seg_bytes_def ASSEGMENT_LEN_def ASSEGMENT_SIZE_def AS_HEADER_SIZE_def)

lemma put_asn_ok:
  assumes "stream_ok s" "asn_size use32bit \<le> room s"
  shows "put_asn use32bit s a = Inr (appended s (asn_bytes use32bit a))"
  using assms stream_append_appended[of s "asn_bytes use32bit a"]
  by (auto simp: put_asn_def asn_bytes_def asn_size_def AS_VALUE_SIZE_def AS16_VALUE_SIZE_def
      stream_putl_def stream_putw_def codec_simps)

lemma appended_append:
  assumes "stream_ok s" "length xs + length ys \<le> room s"
  shows "appended (appended s xs) ys = appended s (xs @ ys)"
  using assms by (simp add: appended_def stream_ok_def room_def ac_simps)

lemma appended_Nil: "stream_ok s \<Longrightarrow> appended s [] = s"
  by (simp add: appended_def)

lemma put_asns_ok:
  assumes "stream_ok s" "ASSEGMENT_DATA_SIZE (length as) use32bit \<le> room s"
  shows "foldE (put_asn use32bit) s as = Inr (appended s (concat (map (asn_bytes use32bit) as)))"
  using assms
proof (induction as arbitrary: s)
  case Nil
  then show ?case by (simp add: appended_Nil)
next
  case (Cons a as)
  have r: "asn_size use32bit + ASSEGMENT_DATA_SIZE (length as) use32bit \<le> room s"
    using Cons.prems(2) by (simp add: ASSEGMENT_DATA_SIZE_def asn_size_def)
  have ok: "stream_ok (appended s (asn_bytes use32bit a))" "room (appended s (asn_bytes use32bit a)) = room s - asn_size use32bit"
    using appended_ok[of s "asn_bytes use32bit a"] Cons.prems(1) r by auto
  then have "foldE (put_asn use32bit) (appended s (asn_bytes use32bit a)) as =
      Inr (appended (appended s (asn_bytes use32bit a)) (concat (map (asn_bytes use32bit) as)))"
    using r by (intro Cons.IH) auto
  then show ?case using put_asn_ok[of s use32bit a] Cons.prems(1) r
    appended_append[of s "asn_bytes use32bit a" "concat (map (asn_bytes use32bit) as)"] by simp
qed

lemma data_put_ok:
  assumes "stream_ok s" "num \<le> length as" "num \<le> AS_SEGMENT_MAX" "ASSEGMENT_DATA_SIZE num use32bit \<le> room s"
  shows "assegment_data_put s as num use32bit = Inr (appended s (concat (map (asn_bytes use32bit) (take num as))))"
  using assms put_asns_ok[of s "take num as" use32bit] by (simp add: assegment_data_put_def mem_read_def min_def)

lemma header_put_ok:
  assumes "stream_ok s" "2 \<le> room s" "len \<le> AS_SEGMENT_MAX"
  shows "\<exists>lenp. assegment_header_put s type len = Inr (lenp, appended s [type, of_nat len])"
proof -
  have a: "stream_append s (bytes8 type) = Inr (appended s [type])" "stream_ok (appended s [type])"
    "room (appended s [type]) = room s - 1"
    using stream_append_appended[of s "[type]"] appended_ok[of s "[type]"] assms by (simp_all add: bytes8_def)
  have "stream_append (appended s [type]) (bytes8 (of_nat len)) = Inr (appended s [type, of_nat len])"
    using stream_append_appended[of "appended s [type]" "[of_nat len]"] a assms appended_append[of s "[type]" "[of_nat len]"]
    by (simp add: bytes8_def)
  then show ?thesis
    using a assms by (simp add: assegment_header_put_def stream_putc_def stream_get_endp_def)
qed

lemma piece_put_ok:
  assumes "stream_ok t" "num \<le> AS_SEGMENT_MAX" "num \<le> length as" "ASSEGMENT_SIZE num use32bit \<le> room t"
  shows "\<exists>lenp s2. assegment_header_put t type num = Inr (lenp, s2) \<and> assegment_data_put s2 as num use32bit =
     Inr (appended t (type # of_nat num # concat (map (asn_bytes use32bit) (take num as))))"
proof -
  obtain lenp where h: "assegment_header_put t type num = Inr (lenp, appended t [type, of_nat num])"
    using header_put_ok[of t num type] assms by (auto simp: ASSEGMENT_SIZE_def AS_HEADER_SIZE_def)
  have "stream_ok (appended t [type, of_nat num])" "room (appended t [type, of_nat num]) = room t - 2"
    using appended_ok[of t "[type, of_nat num]"] assms by (auto simp: ASSEGMENT_SIZE_def AS_HEADER_SIZE_def)
  then have "assegment_data_put (appended t [type, of_nat num]) as num use32bit =
      Inr (appended (appended t [type, of_nat num]) (concat (map (asn_bytes use32bit) (take num as))))"
    using assms by (intro data_put_ok) (auto simp: ASSEGMENT_SIZE_def AS_HEADER_SIZE_def)
  then show ?thesis
    using h appended_append[of t "[type, of_nat num]" "concat (map (asn_bytes use32bit) (take num as))"] assms
    by (simp add: ASSEGMENT_SIZE_def AS_HEADER_SIZE_def min_def)
qed

text \<open>A segment of up to 510 numbers leaves as one or two wire segments.\<close>

definition wire_segs :: "assegment \<Rightarrow> assegment list" where
  "wire_segs seg =
     (if seg_length seg \<le> AS_SEGMENT_MAX then [seg]
      else [seg\<lparr>seg_as := take AS_SEGMENT_MAX (seg_as seg)\<rparr>, seg\<lparr>seg_as := drop AS_SEGMENT_MAX (seg_as seg)\<rparr>])"

definition wire_bytes :: "bool \<Rightarrow> assegment list \<Rightarrow> byte list" where
  "wire_bytes use32bit segs = concat (map (seg_bytes use32bit) (concat (map wire_segs segs)))"

lemma split_put_short: "seg_length seg - w \<le> AS_SEGMENT_MAX \<Longrightarrow> split_put use32bit seg w bytes s = Inr (w, bytes, s)"
  by (subst split_put.simps) simp

lemma seg_put_ok:
  assumes ok: "stream_ok s" and len: "seg_length seg \<le> 510"
    and fit: "length (concat (map (seg_bytes use32bit) (wire_segs seg))) \<le> room s"
  shows "\<exists>w b1 s1 lenp s2. split_put use32bit seg 0 bytes s = Inr (w, b1, s1) \<and>
     assegment_header_put s1 (seg_type seg) (seg_length seg - w) = Inr (lenp, s2) \<and>
     assegment_data_put s2 (drop w (seg_as seg)) (seg_length seg - w) use32bit =
       Inr (appended s (concat (map (seg_bytes use32bit) (wire_segs seg)))) \<and>
     b1 + ASSEGMENT_SIZE (seg_length seg - w) use32bit = bytes + length (concat (map (seg_bytes use32bit) (wire_segs seg)))"
proof -
  show ?thesis
  proof (cases "seg_length seg \<le> AS_SEGMENT_MAX")
    case True
    then have fit1: "ASSEGMENT_SIZE (seg_length seg) use32bit \<le> room s"
      using fit by (simp add: wire_segs_def ASSEGMENT_LEN_def)
    obtain lenp s2 where "assegment_header_put s (seg_type seg) (seg_length seg) = Inr (lenp, s2)"
      "assegment_data_put s2 (seg_as seg) (seg_length seg) use32bit = Inr (appended s (seg_bytes use32bit seg))"
      using piece_put_ok[OF ok True order_refl fit1, of "seg_type seg"] by (auto simp: seg_bytes_def)
    then show ?thesis
      using True split_put_short[of seg 0 use32bit bytes s] by (auto simp: wire_segs_def ASSEGMENT_LEN_def)
  next
    case False
    let ?a = "seg\<lparr>seg_as := take AS_SEGMENT_MAX (seg_as seg)\<rparr>"
    let ?b = "seg\<lparr>seg_as := drop AS_SEGMENT_MAX (seg_as seg)\<rparr>"
    have w: "wire_segs seg = [?a, ?b]" using False by (simp add: wire_segs_def)
    have n: "seg_length ?a = AS_SEGMENT_MAX" "seg_length ?b = seg_length seg - AS_SEGMENT_MAX"
      "seg_length seg - AS_SEGMENT_MAX \<le> AS_SEGMENT_MAX"
      using False len by (auto simp: AS_SEGMENT_MAX_def)
    have f: "ASSEGMENT_SIZE AS_SEGMENT_MAX use32bit + ASSEGMENT_SIZE (seg_length seg - AS_SEGMENT_MAX) use32bit \<le> room s"
      using fit w n by (simp add: ASSEGMENT_LEN_def)
    obtain l1 s1 where p1: "assegment_header_put s (seg_type seg) AS_SEGMENT_MAX = Inr (l1, s1)"
      "assegment_data_put s1 (seg_as seg) AS_SEGMENT_MAX use32bit = Inr (appended s (seg_bytes use32bit ?a))"
      using piece_put_ok[OF ok order_refl, of "seg_as seg" use32bit "seg_type seg"] False f n(1) by (auto simp: seg_bytes_def)
    have ok1: "stream_ok (appended s (seg_bytes use32bit ?a))"
      "room (appended s (seg_bytes use32bit ?a)) = room s - ASSEGMENT_SIZE AS_SEGMENT_MAX use32bit"
      using appended_ok[of s "seg_bytes use32bit ?a"] ok f n(1) by (auto simp: ASSEGMENT_LEN_def)
    obtain l2 s2 where p2: "assegment_header_put (appended s (seg_bytes use32bit ?a)) (seg_type seg) (seg_length seg - AS_SEGMENT_MAX) = Inr (l2, s2)"
      "assegment_data_put s2 (drop AS_SEGMENT_MAX (seg_as seg)) (seg_length seg - AS_SEGMENT_MAX) use32bit =
        Inr (appended (appended s (seg_bytes use32bit ?a)) (seg_bytes use32bit ?b))"
    proof -
      have "seg_bytes use32bit ?b = seg_type seg # of_nat (seg_length seg - AS_SEGMENT_MAX) #
          concat (map (asn_bytes use32bit) (take (seg_length seg - AS_SEGMENT_MAX) (drop AS_SEGMENT_MAX (seg_as seg))))"
        by (simp add: seg_bytes_def)
      moreover have "ASSEGMENT_SIZE (seg_length seg - AS_SEGMENT_MAX) use32bit \<le> room (appended s (seg_bytes use32bit ?a))"
        using f ok1(2) by linarith
      ultimately show ?thesis
        using that piece_put_ok[OF ok1(1) n(3), of "drop AS_SEGMENT_MAX (seg_as seg)" use32bit "seg_type seg"] by auto
    qed
    have "split_put use32bit seg 0 bytes s =
        Inr (AS_SEGMENT_MAX, bytes + ASSEGMENT_SIZE AS_SEGMENT_MAX use32bit, appended s (seg_bytes use32bit ?a))"
      using p1 False n(3) split_put_short[of seg AS_SEGMENT_MAX use32bit]
      by (subst split_put.simps) (simp add: Let_def)
    moreover have "appended (appended s (seg_bytes use32bit ?a)) (seg_bytes use32bit ?b) =
        appended s (concat (map (seg_bytes use32bit) (wire_segs seg)))"
      using appended_append[of s "seg_bytes use32bit ?a" "seg_bytes use32bit ?b"] ok f n w by (simp add: ASSEGMENT_LEN_def)
    ultimately show ?thesis using p2 w n by (simp add: ASSEGMENT_LEN_def)
  qed
qed

lemma pack_put_none:
  "rest = [] \<or> \<not> ASSEGMENT_TYPES_PACKABLE seg (hd rest) \<Longrightarrow> pack_put use32bit seg w lenp 0 rest s = Inr (0, rest, s)"
  by (cases rest) (auto simp: ASSEGMENTS_PACKABLE_def)

lemma put_loop_ok:
  assumes "stream_ok s" "successively (\<lambda>x y. \<not> ASSEGMENT_TYPES_PACKABLE x y) segs" "\<forall>seg\<in>set segs. seg_length seg \<le> 510"
    "length (wire_bytes use32bit segs) \<le> room s"
  shows "put_loop use32bit segs bytes s = Inr (bytes + length (wire_bytes use32bit segs), appended s (wire_bytes use32bit segs))"
  using assms
proof (induction segs arbitrary: s bytes)
  case Nil
  then show ?case by (simp add: wire_bytes_def appended_Nil)
next
  case (Cons seg segs)
  let ?b = "concat (map (seg_bytes use32bit) (wire_segs seg))"
  have wb: "wire_bytes use32bit (seg # segs) = ?b @ wire_bytes use32bit segs" by (simp add: wire_bytes_def)
  have fit: "length ?b + length (wire_bytes use32bit segs) \<le> room s" using Cons.prems(4) unfolding wb length_append .
  obtain w b1 s1 lenp s2 where p: "split_put use32bit seg 0 bytes s = Inr (w, b1, s1)"
     "assegment_header_put s1 (seg_type seg) (seg_length seg - w) = Inr (lenp, s2)"
     "assegment_data_put s2 (drop w (seg_as seg)) (seg_length seg - w) use32bit = Inr (appended s ?b)"
     "b1 + ASSEGMENT_SIZE (seg_length seg - w) use32bit = bytes + length ?b"
    using seg_put_ok[of s seg use32bit bytes] Cons.prems(1,3) fit by auto
  have ok: "stream_ok (appended s ?b)" "room (appended s ?b) = room s - length ?b"
    using appended_ok[of s ?b] Cons.prems(1) fit by auto
  have n: "segs = [] \<or> \<not> ASSEGMENT_TYPES_PACKABLE seg (hd segs)" "successively (\<lambda>x y. \<not> ASSEGMENT_TYPES_PACKABLE x y) segs"
    using Cons.prems(2) by (auto simp: successively_Cons)
  have guard: "ASSEGMENT_LEN seg use32bit \<le> STREAM_WRITEABLE s"
  proof -
    have "ASSEGMENT_LEN seg use32bit \<le> length ?b"
      by (auto simp: wire_segs_def ASSEGMENT_LEN_def ASSEGMENT_SIZE_def ASSEGMENT_DATA_SIZE_def min_def algebra_simps)
    then show ?thesis using fit Cons.prems(1) by simp
  qed
  have "put_loop use32bit (seg # segs) bytes s = put_loop use32bit segs (bytes + length ?b) (appended s ?b)"
    using guard p pack_put_none[OF n(1), of use32bit w lenp "appended s ?b"] by simp
  also have "\<dots> = Inr (bytes + length ?b + length (wire_bytes use32bit segs), appended (appended s ?b) (wire_bytes use32bit segs))"
    using ok fit n(2) Cons.prems(3) by (intro Cons.IH) auto
  also have "appended (appended s ?b) (wire_bytes use32bit segs) = appended s (wire_bytes use32bit (seg # segs))"
    unfolding wb using appended_append[OF Cons.prems(1) fit] .
  finally show ?case unfolding wb by (simp add: add.assoc)
qed

text \<open>Reading back.\<close>

definition trans_seg :: "bool \<Rightarrow> assegment \<Rightarrow> assegment" where
  "trans_seg use32bit seg = seg\<lparr>seg_as := map (asn_trans use32bit) (seg_as seg)\<rparr>"

lemma get_asn_ok:
  assumes "stream_ok s" "unread s = asn_bytes use32bit a @ rest"
  shows "\<exists>s'. (if use32bit then stream_getl s else bindE (stream_getw s) (\<lambda>(w, s'). Inr (ucast w, s'))) =
     Inr (asn_trans use32bit a, s') \<and> stream_ok s' \<and> unread s' = rest"
proof (cases use32bit)
  case True
  then show ?thesis using field_l.getter_ok[of s a rest] assms by (auto simp: asn_bytes_def asn_trans_def)
next
  case False
  let ?w = "if a \<le> BGP_AS_MAX then ucast a else BGP_AS_TRANS"
  obtain s' where "stream_getw s = Inr (?w, s')" "stream_ok s'" "unread s' = rest"
    using field_w.getter_ok[of s ?w rest] assms False by (auto simp: asn_bytes_def)
  moreover have "ucast ?w = asn_trans False a"
  proof (cases "a \<le> BGP_AS_MAX")
    case True
    then have "unat a < 2 ^ 16" by (simp add: BGP_AS_MAX_def word_le_nat_alt)
    then show ?thesis using True
      by (simp add: asn_trans_def word_unat_eq_iff unsigned_ucast_eq take_bit_eq_mod unat_mod_distrib)
  qed (simp add: asn_trans_def)
  ultimately show ?thesis using False by auto
qed

lemma get_asns_ok:
  assumes "stream_ok s" "unread s = concat (map (asn_bytes use32bit) as) @ rest"
  shows "\<exists>s'. get_asns use32bit (length as) s = Inr (map (asn_trans use32bit) as, s') \<and> stream_ok s' \<and> unread s' = rest"
  using assms
proof (induction as arbitrary: s)
  case (Cons a as)
  obtain s1 where s1: "(if use32bit then stream_getl s else bindE (stream_getw s) (\<lambda>(w, s'). Inr (ucast w, s'))) =
     Inr (asn_trans use32bit a, s1)" "stream_ok s1" "unread s1 = concat (map (asn_bytes use32bit) as) @ rest"
    using get_asn_ok[of s use32bit a] Cons.prems by auto
  obtain s2 where "get_asns use32bit (length as) s1 = Inr (map (asn_trans use32bit) as, s2)" "stream_ok s2" "unread s2 = rest"
    using Cons.IH[OF s1(2,3)] by blast
  then show ?case using s1(1) by simp
qed simp

lemma parse_loop_ok:
  assumes "stream_ok s" "unread s = concat (map (seg_bytes use32bit) segs) @ rest"
    "\<forall>seg\<in>set segs. wf_seg seg \<and> seg_length seg \<le> AS_SEGMENT_MAX"
    "len = bytes + length (concat (map (seg_bytes use32bit) segs))"
  shows "\<exists>s'. parse_loop use32bit len bytes head s = Inr (Some (assegment_normalise (head @ map (trans_seg use32bit) segs)), s') \<and>
     stream_ok s' \<and> unread s' = rest"
  using assms
proof (induction segs arbitrary: s bytes head)
  case Nil
  then show ?case by (subst parse_loop.simps) simp
next
  case (Cons seg segs)
  let ?l = "of_nat (seg_length seg) :: u8"
  have wf: "known_type (seg_type seg)" "seg_as seg \<noteq> []" "seg_length seg \<le> 255"
    using Cons.prems(3) by (auto simp: wf_seg_def AS_SEGMENT_MAX_def)
  have l: "unat ?l = seg_length seg" using wf(3) by (simp add: unat_of_nat)
  then have l0: "?l \<noteq> 0" using wf(2) by (metis length_0_conv unat_0)
  obtain s1 where s1: "stream_getc s = Inr (seg_type seg, s1)" "stream_ok s1"
    "unread s1 = ?l # concat (map (asn_bytes use32bit) (seg_as seg)) @ concat (map (seg_bytes use32bit) segs) @ rest"
    using field_c.getter_ok[of s "seg_type seg"] Cons.prems(1,2) by (auto simp: seg_bytes_def[of use32bit seg] bytes8_def)
  obtain s2 where s2: "stream_getc s1 = Inr (?l, s2)" "stream_ok s2"
    "unread s2 = concat (map (asn_bytes use32bit) (seg_as seg)) @ concat (map (seg_bytes use32bit) segs) @ rest"
    using field_c.getter_ok[of s1 ?l] s1(2,3) by (auto simp: bytes8_def)
  obtain s3 where s3: "get_asns use32bit (seg_length seg) s2 = Inr (map (asn_trans use32bit) (seg_as seg), s3)" "stream_ok s3"
    "unread s3 = concat (map (seg_bytes use32bit) segs) @ rest"
    using get_asns_ok[OF s2(2,3)] by blast
  have len: "len = bytes + ASSEGMENT_SIZE (seg_length seg) use32bit + length (concat (map (seg_bytes use32bit) segs))"
    using Cons.prems(4) by (simp add: ASSEGMENT_LEN_def)
  have big: "\<not> len - bytes \<le> AS_HEADER_SIZE" "bytes < len"
    using len wf(2) by (auto simp: ASSEGMENT_SIZE_def ASSEGMENT_DATA_SIZE_def AS_HEADER_SIZE_def AS_VALUE_SIZE_def AS16_VALUE_SIZE_def)
  have new: "(assegment_new (seg_type seg) (seg_length seg))\<lparr>seg_as := map (asn_trans use32bit) (seg_as seg)\<rparr> = trans_seg use32bit seg"
    by (simp add: assegment_new_def trans_seg_def)
  obtain s' where "parse_loop use32bit len (bytes + ASSEGMENT_SIZE (seg_length seg) use32bit) (head @ [trans_seg use32bit seg]) s3 =
     Inr (Some (assegment_normalise ((head @ [trans_seg use32bit seg]) @ map (trans_seg use32bit) segs)), s')"
     "stream_ok s'" "unread s' = rest"
    using Cons.IH[OF s3(2,3) _ len, of "head @ [trans_seg use32bit seg]"] Cons.prems(3) by auto
  then show ?case
    using s1(1) s2(1) s3(1) l l0 wf(1) len big new by (subst parse_loop.simps) (simp add: Let_def)
qed

lemma items_wire_segs: 
  assumes "seg_length seg \<le> AS_SEGMENT_MAX \<or> seg_type seg = AS_SEQUENCE"
  shows "items (map (trans_seg use32bit) (wire_segs seg)) = seg_items (trans_seg use32bit seg)"
    "asn_total (map (trans_seg use32bit) (wire_segs seg)) = seg_length seg"
  using assms by (auto simp: wire_segs_def trans_seg_def seg_items_def simp flip: map_append)

definition wire_ok :: "assegment list \<Rightarrow> bool" where
  "wire_ok segs \<longleftrightarrow> wf_segs segs \<and> successively (\<lambda>x y. \<not> ASSEGMENT_TYPES_PACKABLE x y) segs \<and>
     (\<forall>seg\<in>set segs. seg_length seg \<le> (if seg_type seg = AS_SEQUENCE then 510 else 255))"

lemma wf_trans: "wf_seg seg \<Longrightarrow> wf_seg (trans_seg use32bit seg)"
  by (simp add: wf_seg_def trans_seg_def)

lemma wire_normalise:
  assumes "wire_ok segs"
  shows "assegment_normalise (map (trans_seg use32bit) (concat (map wire_segs segs))) =
     assegment_normalise (map (trans_seg use32bit) segs)"
proof -
  have s: "seg_length seg \<le> AS_SEGMENT_MAX \<or> seg_type seg = AS_SEQUENCE" "wf_seg seg" if "seg \<in> set segs" for seg
    using assms that by (auto simp: wire_ok_def wf_segs_def AS_SEGMENT_MAX_def split: if_splits)
  have w: "wf_seg x" if "x \<in> set (wire_segs seg)" "wf_seg seg" for x seg
    using that by (auto simp: wire_segs_def wf_seg_def AS_SEGMENT_MAX_def split: if_splits)
  have i: "items (map (trans_seg use32bit) (concat (map wire_segs xs))) = items (map (trans_seg use32bit) xs) \<and>
      asn_total (map (trans_seg use32bit) (concat (map wire_segs xs))) = asn_total xs" if "set xs \<subseteq> set segs" for xs
    using that by (induction xs) (simp_all add: items_wire_segs[OF s(1)])
  have t: "asn_total (map (trans_seg use32bit) xs) = asn_total xs" for xs
    by (induction xs) (simp_all add: trans_seg_def)
  have "wf_segs (map (trans_seg use32bit) segs)" "wf_segs (map (trans_seg use32bit) (concat (map wire_segs segs)))"
    using assms i[OF order_refl] t s(2) w by (auto simp: wire_ok_def wf_segs_def intro!: wf_trans)
  then show ?thesis using normalise_eq_iff i[OF order_refl] by blast
qed

lemma wire_bytes_size:
  "length (wire_bytes use32bit segs) mod AS16_VALUE_SIZE = 0"
  "segs \<noteq> [] \<Longrightarrow> AS_HEADER_SIZE \<le> length (wire_bytes use32bit segs) \<and> length (wire_bytes use32bit segs) \<noteq> 0"
proof -
  have "even (length (seg_bytes use32bit seg))" "AS_HEADER_SIZE \<le> length (seg_bytes use32bit seg)" for seg
    by (auto simp: ASSEGMENT_LEN_def ASSEGMENT_SIZE_def ASSEGMENT_DATA_SIZE_def AS_HEADER_SIZE_def AS_VALUE_SIZE_def
        AS16_VALUE_SIZE_def)
  then have c: "even (length (concat (map (seg_bytes use32bit) xs)))"
    "xs \<noteq> [] \<Longrightarrow> AS_HEADER_SIZE \<le> length (concat (map (seg_bytes use32bit) xs))" for xs
    by (induction xs) (auto simp: trans_le_add1)
  show "length (wire_bytes use32bit segs) mod AS16_VALUE_SIZE = 0"
    using c(1) by (simp add: wire_bytes_def AS16_VALUE_SIZE_def flip: even_iff_mod_2_eq_zero)
  have "wire_segs seg \<noteq> []" for seg by (simp add: wire_segs_def)
  then have "segs \<noteq> [] \<Longrightarrow> concat (map wire_segs segs) \<noteq> []" by (cases segs) auto
  then have "segs \<noteq> [] \<Longrightarrow> 2 \<le> length (wire_bytes use32bit segs)"
    using c(2)[of "concat (map wire_segs segs)"] unfolding wire_bytes_def AS_HEADER_SIZE_def by blast
  then show "segs \<noteq> [] \<Longrightarrow> AS_HEADER_SIZE \<le> length (wire_bytes use32bit segs) \<and> length (wire_bytes use32bit segs) \<noteq> 0"
    unfolding AS_HEADER_SIZE_def by linarith
qed

text \<open>C5: The AS_PATH attribute survives the wire. A well-formed chain without adjacent sequences, with
  sequences of at most 510 numbers and other segments of at most 255, written by \<^verbatim>\<open>aspath_put\<close> to an
  empty stream with enough room, occupies exactly the returned number of bytes, and
  \<^verbatim>\<open>assegments_parse\<close> reads it back, in canonical form and with AS_TRANS for four-octet numbers sent to
  a two-octet speaker. Between four-octet speakers a canonical path arrives unchanged.\<close>

theorem aspath_wire_roundtrip:
  assumes "stream_ok s" "unread s = []" "wire_ok (segments p)" "length (wire_bytes use32bit (segments p)) \<le> room s"
  shows "\<exists>n s1 s2. aspath_put s p use32bit = Inr (n, s1) \<and> n = length (unread s1) \<and>
     assegments_parse s1 n use32bit = Inr (Some (assegment_normalise (map (trans_seg use32bit) (segments p))), s2) \<and>
     unread s2 = [] \<and>
     (use32bit \<and> canonical_segs (segments p) \<longrightarrow> assegment_normalise (map (trans_seg use32bit) (segments p)) = segments p)"
proof -
  let ?segs = "segments p" let ?b = "wire_bytes use32bit ?segs" let ?s1 = "appended s ?b"
  have ok1: "stream_ok ?s1" "unread ?s1 = ?b" using appended_ok[of s ?b] assms by auto
  have put: "aspath_put s p use32bit = Inr (length ?b, ?s1)"
  proof (cases ?segs)
    case Nil
    then show ?thesis using assms(1) by (simp add: aspath_put_def wire_bytes_def appended_Nil)
  next
    case (Cons seg rest)
    have "seg_length seg \<noteq> 0" using assms(3) Cons by (simp add: wire_ok_def wf_segs_def wf_seg_def)
    moreover have "put_loop use32bit ?segs 0 s = Inr (0 + length ?b, ?s1)"
      using assms by (intro put_loop_ok) (auto simp: wire_ok_def split: if_splits)
    ultimately show ?thesis using Cons by (simp add: aspath_put_def)
  qed
  have wf: "\<forall>seg\<in>set (concat (map wire_segs ?segs)). wf_seg seg \<and> seg_length seg \<le> AS_SEGMENT_MAX"
    using assms(3)
    by (auto simp: wire_ok_def wf_segs_def wf_seg_def wire_segs_def AS_SEGMENT_MAX_def split: if_splits)
  obtain s2 where s2: "parse_loop use32bit (length ?b) 0 [] ?s1 =
      Inr (Some (assegment_normalise (map (trans_seg use32bit) ?segs)), s2)" "unread s2 = []"
    using parse_loop_ok[OF ok1(1) _ wf, where use32bit = use32bit and rest = "[]" and len = "length ?b" and bytes = 0 and head = "[]"] ok1(2) wire_normalise[OF assms(3)]
    by (auto simp: wire_bytes_def)
  have "assegments_parse ?s1 (length ?b) use32bit =
      Inr (Some (assegment_normalise (map (trans_seg use32bit) ?segs)), if ?segs = [] then ?s1 else s2)"
  proof (cases ?segs)
    case Nil
    then show ?thesis by (simp add: assegments_parse_def wire_bytes_def)
  next
    case (Cons seg rest)
    then show ?thesis
      using wire_bytes_size[where use32bit = use32bit and segs = ?segs] ok1 s2(1) by (simp add: assegments_parse_def)
  qed
  moreover have "use32bit \<Longrightarrow> map (trans_seg use32bit) ?segs = ?segs"
    by (simp add: trans_seg_def asn_trans_def map_idI)
  ultimately show ?thesis
    using put ok1 s2 normalise_canonical[of ?segs] assms(3) by (auto simp: wire_ok_def wf_segs_def wire_bytes_def)
qed

definition empty_stream :: "nat \<Rightarrow> stream" where
  "empty_stream n = \<lparr>s_getp = 0, s_endp = 0, s_size = n, s_data = replicate n 0\<rparr>"

lemma empty_stream_ok: "n < SIZE_LIM \<Longrightarrow> stream_ok (empty_stream n) \<and> unread (empty_stream n) = [] \<and> room (empty_stream n) = n"
  by (simp add: empty_stream_def stream_ok_def unread_def room_def)

theorem aspath_wire_roundtrip_witness:
  "\<exists>s1 s2. aspath_put (empty_stream 64) \<lparr>refcnt = 0, segments = [\<lparr>seg_type = AS_SEQUENCE, seg_as = [70000, 7]\<rparr>], str = None\<rparr> False = Inr (6, s1) \<and>
     assegments_parse s1 6 False = Inr (Some [\<lparr>seg_type = AS_SEQUENCE, seg_as = [23456, 7]\<rparr>], s2)"
proof -
  let ?p = "\<lparr>refcnt = 0, segments = [\<lparr>seg_type = AS_SEQUENCE, seg_as = [70000, 7]\<rparr>], str = None\<rparr>"
  have b: "length (wire_bytes False (segments ?p)) = 6"
    by (simp add: wire_bytes_def wire_segs_def AS_SEGMENT_MAX_def ASSEGMENT_LEN_def ASSEGMENT_SIZE_def AS_HEADER_SIZE_def
        ASSEGMENT_DATA_SIZE_def AS16_VALUE_SIZE_def)
  have w: "wire_ok (segments ?p)" by (simp add: wire_ok_def wf_segs_def wf_seg_def known_type_def)
  have "stream_ok (empty_stream 64)" "unread (empty_stream 64) = []" "room (empty_stream 64) = 64"
    using empty_stream_ok[of 64] by (simp_all add: SIZE_LIM_def)
  moreover have "map (trans_seg False) (segments ?p) = [\<lparr>seg_type = AS_SEQUENCE, seg_as = [23456, 7]\<rparr>]"
    by (simp add: trans_seg_def asn_trans_def BGP_AS_MAX_def BGP_AS_TRANS_def)
  moreover have "assegment_normalise [\<lparr>seg_type = AS_SEQUENCE, seg_as = [23456, 7]\<rparr>] = [\<lparr>seg_type = AS_SEQUENCE, seg_as = [23456, 7]\<rparr>]"
    by (simp add: sort_set_canon canon_def is_set_def)
  ultimately obtain n s1 s2 where *: "aspath_put (empty_stream 64) ?p False = Inr (n, s1)"
     "assegments_parse s1 n False = Inr (Some [\<lparr>seg_type = AS_SEQUENCE, seg_as = [23456, 7]\<rparr>], s2)"
    using aspath_wire_roundtrip[of "empty_stream 64" ?p False] w b by auto
  have "put_loop False (segments ?p) 0 (empty_stream 64) = Inr (0 + 6, appended (empty_stream 64) (wire_bytes False (segments ?p)))"
    using put_loop_ok[of "empty_stream 64" "segments ?p" False 0] empty_stream_ok[of 64] b by (simp add: SIZE_LIM_def)
  then have "n = 6" using *(1) by (simp add: aspath_put_def)
  then show ?thesis using * by blast
qed

text \<open>A sequence of 511 to 765 numbers does not survive the wire. The loop over an overlength segment
  writes the first 255 numbers again in the second piece instead of the next 255, and counts the bytes
  of each piece from the start of the segment: the returned size exceeds the bytes written, so a reader
  given that size rejects the attribute.\<close>

theorem aspath_put_overlong:
  assumes "stream_ok s" "unread s = []" "segments p = [seg]" "seg_type seg = AS_SEQUENCE"
    "510 < seg_length seg" "seg_length seg \<le> 765"
    and room: "ASSEGMENT_LEN seg use32bit + 2 * AS_HEADER_SIZE \<le> room s"
  shows "\<exists>n s1. aspath_put s p use32bit = Inr (n, s1) \<and>
     unread s1 = concat (map (\<lambda>as. seg_bytes use32bit (seg\<lparr>seg_as := as\<rparr>))
       [take 255 (seg_as seg), take 255 (seg_as seg), drop 510 (seg_as seg)]) \<and>
     n = length (unread s1) + ASSEGMENT_DATA_SIZE 255 use32bit \<and>
     assegments_parse s1 n use32bit = Inr (None, s1)"
proof -
  let ?n = "seg_length seg"
  let ?pc = "\<lambda>as. seg_bytes use32bit (seg\<lparr>seg_as := as\<rparr>)"
  let ?a = "?pc (take 255 (seg_as seg))" let ?c = "?pc (drop 510 (seg_as seg))"
  define A where "A = ASSEGMENT_SIZE 255 use32bit" define C where "C = ASSEGMENT_SIZE (?n - 510) use32bit"
  have fit: "A + A + C \<le> room s"
    using room assms(5)
    by (cases use32bit) (simp_all add: A_def C_def ASSEGMENT_LEN_def ASSEGMENT_SIZE_def ASSEGMENT_DATA_SIZE_def
        AS_HEADER_SIZE_def AS_VALUE_SIZE_def AS16_VALUE_SIZE_def)
  have la: "length ?a = A" "length ?c = C" using assms(5) by (simp_all add: A_def C_def ASSEGMENT_LEN_def min_def)
  have ea: "?a = seg_type seg # of_nat 255 # concat (map (asn_bytes use32bit) (take 255 (seg_as seg)))"
    and ec: "?c = seg_type seg # of_nat (?n - 510) # concat (map (asn_bytes use32bit) (take (?n - 510) (drop 510 (seg_as seg))))"
    using assms(5) by (simp_all add: seg_bytes_def min_def)
  have put: "\<exists>lenp s2. assegment_header_put t (seg_type seg) 255 = Inr (lenp, s2) \<and>
      assegment_data_put s2 (seg_as seg) 255 use32bit = Inr (appended t ?a)" if "stream_ok t" "A \<le> room t" for t
    using piece_put_ok[of t 255 "seg_as seg" use32bit "seg_type seg"] that assms(5)
    by (simp add: ea A_def AS_SEGMENT_MAX_def)
  let ?t1 = "appended s ?a" let ?t2 = "appended ?t1 ?a" let ?t3 = "appended ?t2 ?c"
  have t1: "stream_ok ?t1" "unread ?t1 = ?a" "room ?t1 = room s - A" using appended_ok[of s ?a] assms(1,2) fit la by auto
  have t2: "stream_ok ?t2" "unread ?t2 = ?a @ ?a" "room ?t2 = room s - A - A" using appended_ok[of ?t1 ?a] t1 fit la by auto
  have t3: "stream_ok ?t3" "unread ?t3 = ?a @ ?a @ ?c" using appended_ok[of ?t2 ?c] t2 fit la by auto
  obtain l1 s1 where p1: "assegment_header_put s (seg_type seg) 255 = Inr (l1, s1)"
    "assegment_data_put s1 (seg_as seg) 255 use32bit = Inr ?t1" using put[of s] assms(1) fit by auto
  obtain l2 s2 where p2: "assegment_header_put ?t1 (seg_type seg) 255 = Inr (l2, s2)"
    "assegment_data_put s2 (seg_as seg) 255 use32bit = Inr ?t2" using put[OF t1(1)] t1(3) fit by force
  obtain l3 s3 where p3: "assegment_header_put ?t2 (seg_type seg) (?n - 510) = Inr (l3, s3)"
    "assegment_data_put s3 (drop 510 (seg_as seg)) (?n - 510) use32bit = Inr ?t3"
    using piece_put_ok[of ?t2 "?n - 510" "drop 510 (seg_as seg)" use32bit "seg_type seg"] t2(1,3) fit assms(6)
    unfolding ec[symmetric] by (force simp: C_def[symmetric] AS_SEGMENT_MAX_def)
  have sp: "split_put use32bit seg 0 0 s = Inr (510, A + ASSEGMENT_SIZE 510 use32bit, ?t2)"
  proof -
    have "split_put use32bit seg 510 b t = Inr (510, b, t)" for b t
      using assms(6) by (intro split_put_short) (simp add: AS_SEGMENT_MAX_def)
    then have "split_put use32bit seg 255 A ?t1 = Inr (510, A + ASSEGMENT_SIZE 510 use32bit, ?t2)"
      using p2 assms(5) by (subst split_put.simps) (simp add: AS_SEGMENT_MAX_def)
    then show ?thesis using p1 assms(5) by (subst split_put.simps) (simp add: AS_SEGMENT_MAX_def A_def[symmetric])
  qed
  have guard: "ASSEGMENT_LEN seg use32bit \<le> STREAM_WRITEABLE s" using room assms(1) by simp
  have res: "aspath_put s p use32bit = Inr (A + ASSEGMENT_SIZE 510 use32bit + C, ?t3)"
  proof -
    have "seg_as seg \<noteq> []" using assms(5) by auto
    then show ?thesis using assms(3) guard sp p3 by (simp add: aspath_put_def C_def)
  qed
  have n: "A + ASSEGMENT_SIZE 510 use32bit + C = length (unread ?t3) + ASSEGMENT_DATA_SIZE 255 use32bit"
    using la t3(2) by (simp add: A_def C_def ASSEGMENT_SIZE_def ASSEGMENT_DATA_SIZE_def)
  have "0 < ASSEGMENT_DATA_SIZE 255 use32bit" by (simp add: ASSEGMENT_DATA_SIZE_def AS_VALUE_SIZE_def AS16_VALUE_SIZE_def)
  then have "assegments_parse ?t3 (A + ASSEGMENT_SIZE 510 use32bit + C) use32bit = Inr (None, ?t3)"
    unfolding n using t3(1) by (simp add: assegments_parse_def)
  then show ?thesis using res n t3(2) by auto
qed

theorem aspath_put_overlong_witness:
  "\<exists>n s1. aspath_put (empty_stream 4096) \<lparr>refcnt = 0, segments = [\<lparr>seg_type = AS_SEQUENCE, seg_as = replicate 600 9\<rparr>], str = None\<rparr> True = Inr (n, s1) \<and>
     assegments_parse s1 n True = Inr (None, s1)"
proof -
  let ?seg = "\<lparr>seg_type = AS_SEQUENCE, seg_as = replicate 600 9\<rparr>"
  have "ASSEGMENT_LEN ?seg True + 2 * AS_HEADER_SIZE \<le> 4096"
    by (simp add: ASSEGMENT_LEN_def ASSEGMENT_SIZE_def ASSEGMENT_DATA_SIZE_def AS_HEADER_SIZE_def AS_VALUE_SIZE_def)
  then show ?thesis
    using aspath_put_overlong[of "empty_stream 4096" "\<lparr>refcnt = 0, segments = [?seg], str = None\<rparr>" ?seg True]
      empty_stream_ok[of 4096] by (auto simp: SIZE_LIM_def)
qed

subsection \<open>Text round trip\<close>

fun join_asns :: "char \<Rightarrow> as_t list \<Rightarrow> string" where
  "join_asns sep [] = []"
| "join_asns sep (a # as) = dec_str (unat a) @ (if as = [] then [] else sep # join_asns sep as)"

definition sep_of :: "u8 \<Rightarrow> char" where
  "sep_of t = (if is_set t then CHR '','' else CHR '' '')"

definition seg_text :: "assegment \<Rightarrow> string" where
  "seg_text seg =
     (let body = join_asns (sep_of (seg_type seg)) (seg_as seg)
      in if seg_type seg = AS_SEQUENCE then body
         else aspath_delimiter_char (seg_type seg) False # body @ [aspath_delimiter_char (seg_type seg) True])"

fun path_text :: "assegment list \<Rightarrow> string" where
  "path_text [] = []"
| "path_text (seg # rest) = seg_text seg @ (if rest = [] then [] else CHR '' '' # path_text rest)"

lemma dec_str_length: "n < 10 ^ k \<Longrightarrow> 0 < k \<Longrightarrow> length (dec_str n) \<le> k"
proof (induction n arbitrary: k rule: dec_str.induct)
  case (1 n)
  show ?case
  proof (cases "n < 10")
    case True
    then show ?thesis using 1(3) by (subst dec_str.simps) simp
  next
    case False
    obtain j where j: "k = Suc j" using 1(3) by (cases k) auto
    then have j0: "0 < j" using 1(2) False by (cases j) auto
    have "n div 10 < 10 ^ j" using 1(2) j by (simp add: less_mult_imp_div_less mult.commute)
    then have "length (dec_str (n div 10)) \<le> j" using 1(1)[OF False _ j0] by simp
    then show ?thesis using False j by (subst dec_str.simps) simp
  qed
qed

lemma asn_text_length: "length (dec_str (unat (a :: as_t))) \<le> 10"
proof (rule dec_str_length)
  have "unat a < 2 ^ 32" using unsigned_less[of a] by simp
  then show "unat a < 10 ^ 10" by simp
qed simp

lemma join_length: "length (join_asns sep as) \<le> 11 * length as"
proof (induction as)
  case (Cons a as)
  then show ?case using asn_text_length[of a] by simp
qed simp

definition grown :: "strbuf \<Rightarrow> string \<Rightarrow> strbuf" where
  "grown sb s = sb\<lparr>sb_text := sb_text sb @ s, sb_len := sb_len sb + length s\<rparr>"

definition sb_ok :: "strbuf \<Rightarrow> bool" where
  "sb_ok sb \<longleftrightarrow> length (sb_text sb) = sb_len sb"

lemma grown_simps [simp]:
  "sb_text (grown sb s) = sb_text sb @ s" "sb_len (grown sb s) = sb_len sb + length s" "sb_size (grown sb s) = sb_size sb"
  "sb_ok sb \<Longrightarrow> sb_ok (grown sb s)" "grown (grown sb s) t = grown sb (s @ t)" "grown sb [] = sb"
  by (simp_all add: grown_def sb_ok_def)

lemma snprintf_ok: "sb_ok sb \<Longrightarrow> sb_len sb + length s < sb_size sb \<Longrightarrow> snprintf_at sb s = Inr (grown sb s)"
  by (simp add: snprintf_at_def grown_def sb_ok_def)

lemma write_asns_ok:
  assumes "sb_ok sb" "sb_len sb + length (join_asns sep as) < sb_size sb"
  shows "write_asns sep as sb = Inr (grown sb (join_asns sep as))"
  using assms
proof (induction as arbitrary: sb)
  case (Cons a as)
  have 1: "snprintf_at sb (dec_str (unat a)) = Inr (grown sb (dec_str (unat a)))"
    using Cons.prems by (intro snprintf_ok) auto
  show ?case
  proof (cases "as = []")
    case True
    then show ?thesis using 1 by simp
  next
    case False
    have 2: "snprintf_at (grown sb (dec_str (unat a))) [sep] = Inr (grown (grown sb (dec_str (unat a))) [sep])"
      using Cons.prems False by (intro snprintf_ok) auto
    have "write_asns sep as (grown (grown sb (dec_str (unat a))) [sep]) =
        Inr (grown (grown (grown sb (dec_str (unat a))) [sep]) (join_asns sep as))"
      using Cons.prems False by (intro Cons.IH) auto
    then show ?thesis using 1 2 False by simp
  qed
qed simp

lemma seperator_known: "known_type t \<Longrightarrow> seperator t = Some (sep_of t)"
  by (auto simp: known_type_def seperator_def sep_of_def is_set_def)

lemma str_loop_ok:
  assumes "sb_ok sb" "\<forall>seg\<in>set segs. known_type (seg_type seg)" "segs = [] \<Longrightarrow> sb_len sb < sb_size sb"
  shows "str_loop segs sb = Inr (Some (sb_text sb @ path_text segs))"
  using assms
proof (induction segs arbitrary: sb)
  case (Cons seg rest)
  define sb0 where "sb0 = (if sb_len sb + SEGMENT_STR_LEN seg > sb_size sb
     then sb\<lparr>sb_size := sb_len sb + SEGMENT_STR_LEN seg\<rparr> else sb)"
  let ?d = "\<lambda>b. if seg_type seg \<noteq> AS_SEQUENCE then [aspath_delimiter_char (seg_type seg) b] else []"
  let ?j = "join_asns (sep_of (seg_type seg)) (seg_as seg)"
  have tx: "seg_text seg = ?d False @ ?j @ ?d True" by (simp add: seg_text_def Let_def)
  have sb0: "sb_ok sb0" "sb_text sb0 = sb_text sb" "sb_len sb0 = sb_len sb" "sb_len sb0 + 11 * seg_length seg + 4 \<le> sb_size sb0"
    using Cons.prems(1) by (auto simp: sb0_def sb_ok_def SEGMENT_STR_LEN_def ASN_STR_LEN_def)
  have room: "sb_len sb0 + length ?j + 3 < sb_size sb0"
    using sb0(4) join_length[of "sep_of (seg_type seg)" "seg_as seg"] by linarith
  have delim: "(if seg_type seg \<noteq> AS_SEQUENCE then snprintf_at t [aspath_delimiter_char (seg_type seg) b] else Inr t) = Inr (grown t (?d b))"
    if "sb_ok t" "sb_len t + 1 < sb_size t" for t b using that snprintf_ok by simp
  have 1: "(if seg_type seg \<noteq> AS_SEQUENCE then snprintf_at sb0 [aspath_delimiter_char (seg_type seg) False] else Inr sb0) = Inr (grown sb0 (?d False))"
    using delim[of sb0] sb0(1) room by simp
  have 2: "write_asns (sep_of (seg_type seg)) (seg_as seg) (grown sb0 (?d False)) = Inr (grown (grown sb0 (?d False)) ?j)"
    using sb0(1) room by (intro write_asns_ok) auto
  have 3: "(if seg_type seg \<noteq> AS_SEQUENCE then snprintf_at (grown (grown sb0 (?d False)) ?j) [aspath_delimiter_char (seg_type seg) True]
      else Inr (grown (grown sb0 (?d False)) ?j)) = Inr (grown (grown (grown sb0 (?d False)) ?j) (?d True))"
    using sb0(1) room by (intro delim) auto
  have g: "grown (grown (grown sb0 (?d False)) ?j) (?d True) = grown sb0 (seg_text seg)" by (simp add: tx)
  have len: "sb_len sb0 + length (seg_text seg) + 1 < sb_size sb0" 
  proof -
    have "length (seg_text seg) \<le> length ?j + 2" unfolding tx by simp
    then show ?thesis using room by linarith
  qed
  let ?g = "grown sb0 (seg_text seg @ (if rest = [] then [] else '' ''))"
  have 4: "(if rest \<noteq> [] then snprintf_at (grown sb0 (seg_text seg)) '' '' else Inr (grown sb0 (seg_text seg))) = Inr ?g"
    using snprintf_ok[of "grown sb0 (seg_text seg)" "'' ''"] sb0(1) len by simp
  have "str_loop rest ?g = Inr (Some (sb_text ?g @ path_text rest))"
    using Cons.prems(2) sb0(1) len by (intro Cons.IH) auto
  then show ?case
    using seperator_known[of "seg_type seg"] Cons.prems(2) 1 2 3 4 g sb0(2)
    by (cases "seg_type seg = AS_SEQUENCE"; cases "rest = []") (simp_all add: sb0_def[symmetric] Let_def)
qed simp

lemma make_str_ok:
  "\<forall>seg\<in>set segs. known_type (seg_type seg) \<Longrightarrow> aspath_make_str_count segs = Inr (Some (path_text segs))"
  using str_loop_ok[of "\<lparr>sb_text = '''', sb_len = 0, sb_size = _\<rparr>" segs]
  by (auto simp: aspath_make_str_count_def sb_ok_def)

text \<open>Tokens.\<close>

lemma digits_asn_append: "digits_asn v (xs @ ys) = digits_asn (digits_asn v xs) ys"
  by (induction xs arbitrary: v) auto

lemma digit_value: "d < 10 \<Longrightarrow> (of_char (char_of (48 + d :: nat) :: char) :: as_t) - 48 = of_nat d"
proof -
  assume "d < 10"
  then have "(of_char (char_of (48 + d :: nat) :: char) :: nat) = 48 + d" by (rule of_char_digit)
  then have "(of_char (char_of (48 + d :: nat) :: char) :: as_t) = of_nat (48 + d)"
    by (metis of_nat_of_char)
  then show ?thesis by simp
qed

lemma digits_asn_dec: "digits_asn 0 (dec_str n) = of_nat n"
proof (induction n rule: dec_str.induct)
  case (1 n)
  show ?case
  proof (cases "n < 10")
    case True
    then show ?thesis by (subst dec_str.simps) (simp add: digit_value)
  next
    case False
    have "(of_nat n :: as_t) = of_nat (n div 10 * 10 + n mod 10)" by (simp only: div_mult_mod_eq)
    also have "\<dots> = of_nat (n div 10) * 10 + of_nat (n mod 10)" by (simp only: of_nat_add of_nat_mult of_nat_numeral)
    finally have n: "of_nat (n div 10) * 10 + of_nat (n mod 10) = (of_nat n :: as_t)" ..
    have "dec_str n = dec_str (n div 10) @ [char_of (48 + n mod 10)]" using False by (subst dec_str.simps) simp
    then have "digits_asn 0 (dec_str n) = of_nat (n div 10) * 10 + of_nat (n mod 10)"
      using 1[OF False] by (simp only: digits_asn_append digits_asn.simps digit_value[OF mod_less_divisor] zero_less_numeral)
    then show ?thesis unfolding n .
  qed
qed

lemma dec_str_Cons: "\<exists>c cs. dec_str n = c # cs \<and> isdigit c \<and> list_all isdigit cs"
  using dec_str_digits[of n] by (cases "dec_str n") (auto simp: dec_str.simps[of n] split: if_splits)

definition stops :: "string \<Rightarrow> bool" where
  "stops t \<longleftrightarrow> t = [] \<or> \<not> isdigit (hd t)"

lemma gettoken_number:
  assumes "stops t"
  shows "aspath_gettoken (dec_str (unat a) @ t) n = Some (as_token_asval, a, t)"
proof -
  obtain c cs where c: "dec_str (unat a) = c # cs" "isdigit c" "list_all isdigit cs" using dec_str_Cons by blast
  have "\<not> isspace c" "c \<noteq> CHR '',''" "c \<notin> set ''{}()[]''"
    using c(2) by (auto simp: isdigit_def isspace_def)
  moreover have "takeWhile isdigit (cs @ t) = cs" "dropWhile isdigit (cs @ t) = t"
    using c(3) assms by (cases t; simp add: takeWhile_append dropWhile_append list_all_iff stops_def)+
  moreover have "digits_asn 0 (c # cs) = a" using digits_asn_dec[of "unat a"] c(1) by simp
  ultimately show ?thesis using c(1,2) by (simp add: aspath_gettoken_def)
qed

lemma gettoken_sep:
  "aspath_gettoken (CHR '' '' # t) n = aspath_gettoken t n" "aspath_gettoken (CHR '','' # t) n = aspath_gettoken t n"
  by (simp_all add: aspath_gettoken_def isspace_def)

lemma str2segs_cong: "aspath_gettoken s n = aspath_gettoken t n \<Longrightarrow> str2segs ty nt n acc s = str2segs ty nt n acc t"
  by (subst (1 2) str2segs.simps) simp

lemmas str2segs_sep = str2segs_cong[OF gettoken_sep(1)] str2segs_cong[OF gettoken_sep(2)]

lemma str2segs_number:
  assumes "stops t"
  shows "str2segs ty nt n acc (dec_str (unat a) @ t) =
     str2segs ty False a (aspath_as_add (if nt then aspath_segment_add acc ty else acc) a) t"
  by (subst str2segs.simps) (simp add: gettoken_number[OF assms])

lemma stops_sep: "stops (sep_of ty # t)" "stops (CHR '' '' # t)" "stops (aspath_delimiter_char ty b # t)" "stops []"
  by (simp_all add: stops_def sep_of_def isdigit_def aspath_delimiter_char_def)

lemma str2segs_join:
  assumes "stops t" "seg_length seg + length as < 65536"
  shows "\<exists>n'. str2segs ty False n (acc @ [seg]) (join_asns (sep_of st) as @ t) =
     str2segs ty False n' (acc @ [seg\<lparr>seg_as := seg_as seg @ as\<rparr>]) t"
  using assms(2)
proof (induction as arbitrary: seg n)
  case (Cons a as)
  have add: "aspath_as_add (acc @ [seg]) a = acc @ [seg\<lparr>seg_as := seg_as seg @ [a]\<rparr>]"
    using Cons.prems by (simp add: aspath_as_add_def append_asns_small)
  show ?case
  proof (cases "as = []")
    case True
    then show ?thesis using str2segs_number[OF assms(1), of ty False n "acc @ [seg]" a] add by auto
  next
    case False
    let ?r = "join_asns (sep_of st) as @ t"
    have "str2segs ty False n (acc @ [seg]) (dec_str (unat a) @ sep_of st # ?r) =
        str2segs ty False a (acc @ [seg\<lparr>seg_as := seg_as seg @ [a]\<rparr>]) (sep_of st # ?r)"
      using str2segs_number[OF stops_sep(1), of ty False n "acc @ [seg]" a st ?r] add by simp
    also have "\<dots> = str2segs ty False a (acc @ [seg\<lparr>seg_as := seg_as seg @ [a]\<rparr>]) ?r"
      by (simp add: sep_of_def str2segs_sep)
    finally show ?thesis
      using Cons.IH[of "seg\<lparr>seg_as := seg_as seg @ [a]\<rparr>" a] Cons.prems False by simp
  qed
qed auto

definition text_ok :: "assegment list \<Rightarrow> bool" where
  "text_ok segs \<longleftrightarrow> successively (\<lambda>x y. \<not> ASSEGMENT_TYPES_PACKABLE x y) segs \<and>
     (\<forall>seg\<in>set segs. known_type (seg_type seg) \<and> (seg_type seg = AS_SEQUENCE \<longrightarrow> seg_as seg \<noteq> []) \<and> seg_length seg < 65536)"

lemma str2segs_sequence:
  assumes "stops t" "as \<noteq> []" "length as < 65536"
  shows "\<exists>n'. str2segs AS_SEQUENCE True n acc (join_asns (sep_of AS_SEQUENCE) as @ t) =
     str2segs AS_SEQUENCE False n' (acc @ [\<lparr>seg_type = AS_SEQUENCE, seg_as = as\<rparr>]) t"
proof -
  obtain a as' where as: "as = a # as'" using assms(2) by (cases as) auto
  have add: "aspath_as_add (aspath_segment_add acc AS_SEQUENCE) a = acc @ [\<lparr>seg_type = AS_SEQUENCE, seg_as = [a]\<rparr>]"
    by (simp add: aspath_as_add_def aspath_segment_add_def assegment_new_def append_asns_small)
  let ?r = "join_asns (sep_of AS_SEQUENCE) as' @ t"
  show ?thesis
  proof (cases "as' = []")
    case True
    then show ?thesis using str2segs_number[OF assms(1), of AS_SEQUENCE True n acc a] add as by auto
  next
    case False
    have "str2segs AS_SEQUENCE True n acc (dec_str (unat a) @ sep_of AS_SEQUENCE # ?r) =
        str2segs AS_SEQUENCE False a (acc @ [\<lparr>seg_type = AS_SEQUENCE, seg_as = [a]\<rparr>]) (sep_of AS_SEQUENCE # ?r)"
      using str2segs_number[OF stops_sep(1), of AS_SEQUENCE True n acc a AS_SEQUENCE ?r] add by simp
    also have "\<dots> = str2segs AS_SEQUENCE False a (acc @ [\<lparr>seg_type = AS_SEQUENCE, seg_as = [a]\<rparr>]) ?r"
      by (simp add: sep_of_def str2segs_sep)
    finally show ?thesis
      using str2segs_join[OF assms(1), of "\<lparr>seg_type = AS_SEQUENCE, seg_as = [a]\<rparr>" as' AS_SEQUENCE a acc AS_SEQUENCE] assms(3) as False
      by simp
  qed
qed

lemma str2segs_delimited:
  assumes "known_type (seg_type seg)" "seg_type seg \<noteq> AS_SEQUENCE" "seg_length seg < 65536"
  shows "\<exists>n'. str2segs ty nt n acc (seg_text seg @ t) = str2segs AS_SEQUENCE True n' (acc @ [seg]) t"
proof -
  let ?ty = "seg_type seg" let ?new = "\<lparr>seg_type = ?ty, seg_as = []\<rparr>"
  let ?r = "join_asns (sep_of ?ty) (seg_as seg) @ aspath_delimiter_char ?ty True # t"
  have full: "\<lparr>seg_type = seg_type seg, seg_as = seg_as seg\<rparr> = seg" by simp
  have ty: "?ty = AS_SET \<or> ?ty = AS_CONFED_SET \<or> ?ty = AS_CONFED_SEQUENCE"
    using assms(1,2) by (auto simp: known_type_def)
  have 1: "str2segs ty nt n acc (aspath_delimiter_char ?ty False # ?r) = str2segs ?ty False n (acc @ [?new]) ?r"
    using ty by (subst str2segs.simps)
      (auto simp: aspath_gettoken_def aspath_delimiter_char_def isspace_def aspath_segment_add_def assegment_new_def)
  obtain n1 where 2: "str2segs ?ty False n (acc @ [?new]) ?r = str2segs ?ty False n1 (acc @ [seg]) (aspath_delimiter_char ?ty True # t)"
    using str2segs_join[OF stops_sep(3), of ?new "seg_as seg" ?ty n acc ?ty ?ty True t] assms(3) by (auto simp: full)
  have 3: "str2segs ?ty False n1 (acc @ [seg]) (aspath_delimiter_char ?ty True # t) = str2segs AS_SEQUENCE True n1 (acc @ [seg]) t"
    using ty by (subst str2segs.simps) (auto simp: aspath_gettoken_def aspath_delimiter_char_def isspace_def)
  show ?thesis using 1 2 3 assms(2) by (auto simp: seg_text_def Let_def)
qed

lemma str2segs_path:
  assumes "text_ok segs" "segs \<noteq> [] \<and> \<not> nt \<Longrightarrow> seg_type (hd segs) \<noteq> AS_SEQUENCE"
  shows "str2segs AS_SEQUENCE nt n acc (path_text segs) = Some (acc @ segs)"
  using assms
proof (induction segs arbitrary: nt n acc)
  case Nil
  then show ?case by (subst str2segs.simps) (simp add: aspath_gettoken_def)
next
  case (Cons seg rest)
  have ok: "known_type (seg_type seg)" "seg_length seg < 65536" "text_ok rest"
    "seg_type seg = AS_SEQUENCE \<Longrightarrow> seg_as seg \<noteq> []"
    "rest \<noteq> [] \<Longrightarrow> seg_type seg = AS_SEQUENCE \<Longrightarrow> seg_type (hd rest) \<noteq> AS_SEQUENCE"
    using Cons.prems(1) by (auto simp: text_ok_def successively_Cons ASSEGMENT_TYPES_PACKABLE_def)
  let ?t = "if rest = [] then [] else CHR '' '' # path_text rest"
  have skip: "str2segs AS_SEQUENCE b m acc' ?t = str2segs AS_SEQUENCE b m acc' (path_text rest)" for b m acc'
    by (simp add: str2segs_sep)
  have "\<exists>b m. str2segs AS_SEQUENCE nt n acc (seg_text seg @ ?t) = str2segs AS_SEQUENCE b m (acc @ [seg]) ?t \<and>
      (rest \<noteq> [] \<and> \<not> b \<longrightarrow> seg_type (hd rest) \<noteq> AS_SEQUENCE)"
  proof (cases "seg_type seg = AS_SEQUENCE")
    case True
    have nt: "nt" using Cons.prems(2) True by auto
    have seg: "seg = \<lparr>seg_type = AS_SEQUENCE, seg_as = seg_as seg\<rparr>" using True by simp
    have tx: "seg_text seg = join_asns (sep_of AS_SEQUENCE) (seg_as seg)" using True by (simp add: seg_text_def Let_def)
    have "stops ?t" by (simp add: stops_sep)
    then obtain m where "str2segs AS_SEQUENCE True n acc (join_asns (sep_of AS_SEQUENCE) (seg_as seg) @ ?t) =
        str2segs AS_SEQUENCE False m (acc @ [\<lparr>seg_type = AS_SEQUENCE, seg_as = seg_as seg\<rparr>]) ?t"
      using str2segs_sequence[OF _ ok(4)[OF True] ok(2)] by blast
    then have "str2segs AS_SEQUENCE nt n acc (seg_text seg @ ?t) = str2segs AS_SEQUENCE False m (acc @ [seg]) ?t"
      unfolding tx seg[symmetric] using nt by simp
    then show ?thesis using ok(5) True by blast
  next
    case False
    then show ?thesis using str2segs_delimited[OF ok(1) False ok(2), of AS_SEQUENCE nt n acc ?t] by blast
  qed
  then obtain b m where "str2segs AS_SEQUENCE nt n acc (seg_text seg @ ?t) = str2segs AS_SEQUENCE b m (acc @ [seg]) ?t"
    "rest \<noteq> [] \<and> \<not> b \<Longrightarrow> seg_type (hd rest) \<noteq> AS_SEQUENCE" by blast
  then show ?case using Cons.IH[OF ok(3), of b m "acc @ [seg]"] skip by simp
qed

text \<open>C19: The text form of an AS path is faithful. For a chain of segments of known types without adjacent or
  empty sequences, \<^verbatim>\<open>aspath_make_str_count\<close> never overruns or truncates its buffer and its final assertion
  holds, and \<^verbatim>\<open>aspath_str2aspath\<close> applied to the string returns a path with the same chain, carrying the
  same string.\<close>

theorem aspath_text_roundtrip:
  assumes "text_ok segs"
  shows "\<exists>t. aspath_make_str_count segs = Inr (Some t) \<and>
     aspath_str2aspath t = Inr (Some \<lparr>refcnt = 0, segments = segs, str = Some t\<rparr>)"
proof -
  have m: "aspath_make_str_count segs = Inr (Some (path_text segs))"
    using assms by (intro make_str_ok) (auto simp: text_ok_def)
  moreover have "str2segs AS_SEQUENCE True 0 [] (path_text segs) = Some segs" using str2segs_path[OF assms, of True] by simp
  ultimately show ?thesis by (auto simp: aspath_str2aspath_def aspath_new_def)
qed

theorem aspath_text_roundtrip_witness:
  "\<exists>t. aspath_make_str_count [\<lparr>seg_type = AS_SEQUENCE, seg_as = [100, 4294967295]\<rparr>, \<lparr>seg_type = AS_SET, seg_as = [7, 8]\<rparr>] = Inr (Some t) \<and>
     aspath_str2aspath t = Inr (Some \<lparr>refcnt = 0,
       segments = [\<lparr>seg_type = AS_SEQUENCE, seg_as = [100, 4294967295]\<rparr>, \<lparr>seg_type = AS_SET, seg_as = [7, 8]\<rparr>], str = Some t\<rparr>)"
  by (rule aspath_text_roundtrip) (simp add: text_ok_def ASSEGMENT_TYPES_PACKABLE_def known_type_def)

subsection \<open>Joining, aggregating and reconciling paths\<close>

definition asns :: "assegment list \<Rightarrow> as_t set" where
  "asns segs = (\<Union>seg\<in>set segs. set (seg_as seg))"

fun item_asns :: "item \<Rightarrow> as_t set" where
  "item_asns (Hop a) = {a}"
| "item_asns (AnyOf as) = as"
| "item_asns (Confed as) = set as"
| "item_asns (ConfedAny as) = as"

lemma seg_items_asns: "(\<Union>i\<in>set (seg_items seg). item_asns i) = set (seg_as seg)"
  by (auto simp: seg_items_def)

lemma items_asns: "(\<Union>i\<in>set (items segs). item_asns i) = asns segs"
  unfolding asns_def by (induction segs) (simp_all add: seg_items_asns)

lemma asns_simps [simp]:
  "asns [] = {}" "asns (seg # segs) = set (seg_as seg) \<union> asns segs" "asns (xs @ ys) = asns xs \<union> asns ys"
  by (auto simp: asns_def)

lemma normalise_asns: "wf_segs segs \<Longrightarrow> asns (assegment_normalise segs) = asns segs"
  using normalise_spec[of segs] items_asns[of segs] items_asns[of "assegment_normalise segs"] by simp

lemma dup_all_eq [simp]: "assegment_dup_all segs = segs"
  by (induction segs) (auto simp: assegment_dup_def assegment_new_def)

lemma str_update_ok:
  "\<forall>seg\<in>set (segments p). known_type (seg_type seg) \<Longrightarrow> aspath_str_update p = Inr (p\<lparr>str := Some (path_text (segments p))\<rparr>)"
  by (simp add: aspath_str_update_def make_str_ok)

lemma wf_known: "wf_segs segs \<Longrightarrow> \<forall>seg\<in>set segs. known_type (seg_type seg)"
  by (auto simp: wf_segs_def wf_seg_def)

lemma str_update_wf: "wf_segs (segments p) \<Longrightarrow> aspath_str_update p = Inr (p\<lparr>str := Some (path_text (segments p))\<rparr>)"
  by (intro str_update_ok wf_known)

text \<open>The set built from the rest of both paths.\<close>

definition members :: "as_t list option \<Rightarrow> as_t set" where
  "members asset = (case asset of None \<Rightarrow> {} | Some as \<Rightarrow> set as)"

definition asset_ok :: "nat \<Rightarrow> as_t list option \<Rightarrow> bool" where
  "asset_ok n asset \<longleftrightarrow> (case asset of None \<Rightarrow> True | Some as \<Rightarrow> as \<noteq> [] \<and> length as \<le> n)"

lemma set_add_ok:
  assumes "asset_ok n asset" "n + 1 < 65536"
  shows "\<exists>asset'. aspath_aggregate_as_set_add asset a = Inr asset' \<and> asset_ok (n + 1) asset' \<and>
     members asset' = insert a (members asset)"
  using assms by (auto simp: aspath_aggregate_as_set_add_def asset_ok_def members_def u_short_def dvd_imp_le split: option.splits dest: dvd_imp_le)

lemma set_adds_ok:
  assumes "asset_ok n asset" "n + length as < 65536"
  shows "\<exists>asset'. foldE aspath_aggregate_as_set_add asset as = Inr asset' \<and> asset_ok (n + length as) asset' \<and>
     members asset' = set as \<union> members asset"
  using assms
proof (induction as arbitrary: asset n)
  case (Cons a as)
  obtain a1 where a1: "aspath_aggregate_as_set_add asset a = Inr a1" "asset_ok (n + 1) a1" "members a1 = insert a (members asset)"
    using set_add_ok[OF Cons.prems(1), of a] Cons.prems(2) by auto
  obtain a2 where "foldE aspath_aggregate_as_set_add a1 as = Inr a2" "asset_ok (n + 1 + length as) a2" "members a2 = set as \<union> members a1"
    using Cons.IH[OF a1(2)] Cons.prems(2) by auto
  then show ?case using a1 by auto
qed simp

lemma rest_ok:
  assumes "asset_ok n asset" "n + asn_total segs < 65536"
  shows "\<exists>asset'. aggregate_rest from segs asset = Inr asset' \<and> asset_ok (n + asn_total segs) asset' \<and>
     members asset' = members asset \<union> (case segs of [] \<Rightarrow> {} | seg # rest \<Rightarrow> set (drop from (seg_as seg)) \<union> asns rest)"
  using assms
proof (induction segs arbitrary: asset n "from")
  case (Cons seg segs)
  have le: "n + length (drop from (seg_as seg)) < 65536" using Cons.prems(2) by (simp add: le_less_trans[OF diff_le_self] trans_less_add1)
  obtain a1 where a1: "foldE aspath_aggregate_as_set_add asset (drop from (seg_as seg)) = Inr a1"
    "asset_ok (n + length (drop from (seg_as seg))) a1" "members a1 = set (drop from (seg_as seg)) \<union> members asset"
    using set_adds_ok[OF Cons.prems(1) le] by blast
  have "asset_ok (n + seg_length seg) a1" using a1(2) by (auto simp: asset_ok_def split: option.splits)
  then obtain a2 where "aggregate_rest 0 segs a1 = Inr a2" "asset_ok (n + seg_length seg + asn_total segs) a2"
     "members a2 = members a1 \<union> (case segs of [] \<Rightarrow> {} | seg # rest \<Rightarrow> set (drop 0 (seg_as seg)) \<union> asns rest)"
    using Cons.IH[of "n + seg_length seg" a1 0] Cons.prems(2) by auto
  moreover have "(case segs of [] \<Rightarrow> {} | seg # rest \<Rightarrow> set (drop 0 (seg_as seg)) \<union> asns rest) = asns segs"
    by (cases segs) auto
  ultimately show ?case using a1 by (auto simp: add.assoc)
qed simp

lemma common_length_take: "common_length as bs \<le> length as \<and> common_length as bs \<le> length bs \<and>
    take (common_length as bs) as = take (common_length as bs) bs"
  by (induction as bs rule: common_length.induct) auto

definition first_differ :: "assegment list \<Rightarrow> assegment list \<Rightarrow> bool" where
  "first_differ xs ys \<longleftrightarrow> (case (xs, ys) of (x # _, y # _) \<Rightarrow> x \<noteq> y | _ \<Rightarrow> True)"

lemma common_length_full: "common_length as bs = length as \<Longrightarrow> length as = length bs \<Longrightarrow> as = bs"
  using common_length_take[of as bs] by simp

lemma aggregate_common_first:
  assumes "first_differ xs ys" "wf_segs xs" "wf_segs ys"
  shows "\<exists>new m. aggregate_common 0 xs ys = (new, m, xs, ys) \<and> wf_segs new \<and> asn_total new = m \<and>
     (case xs of [] \<Rightarrow> m = 0 | x # _ \<Rightarrow> m \<le> seg_length x \<and> asns new = set (take m (seg_as x))) \<and>
     (case ys of [] \<Rightarrow> m = 0 | y # _ \<Rightarrow> m \<le> seg_length y \<and> asns new = set (take m (seg_as y)))"
proof (cases "\<exists>x xs' y ys'. xs = x # xs' \<and> ys = y # ys' \<and> seg_type x = seg_type y")
  case True
  then obtain x xs' y ys' where xy: "xs = x # xs'" "ys = y # ys'" "seg_type x = seg_type y" by blast
  define m where "m = common_length (seg_as x) (seg_as y)"
  note m = common_length_take[of "seg_as x" "seg_as y", folded m_def]
  have ne: "seg_as x \<noteq> seg_as y" using assms(1) xy by (auto simp: first_differ_def)
  then have brk: "m \<noteq> min (seg_length x) (seg_length y) \<or> m \<noteq> seg_length x \<or> seg_length x \<noteq> seg_length y"
    using common_length_full[of "seg_as x" "seg_as y"] by (auto simp: m_def)
  have kt: "known_type (seg_type x)" "seg_length x < 65536" using assms(2) xy by (auto simp: wf_segs_def wf_seg_def)
  let ?new = "if m \<noteq> 0 then [\<lparr>seg_type = seg_type x, seg_as = take m (seg_as x)\<rparr>] else []"
  have "aggregate_common 0 xs ys = (?new, m, xs, ys)"
    using xy brk m kt by (simp add: m_def[symmetric] Let_def assegment_new_def append_asns_small)
  moreover have le: "m \<le> seg_length x" "m \<le> seg_length y" and same: "take m (seg_as x) = take m (seg_as y)"
    using m by simp_all
  moreover have "asns ?new = set (take m (seg_as x))" by simp
  moreover have "wf_segs ?new \<and> asn_total ?new = m"
    using kt le(1) by (cases "m = 0") (auto simp: wf_segs_def wf_seg_def)
  ultimately show ?thesis unfolding xy(1,2) by (intro exI[of _ ?new] exI[of _ m]) (simp only: list.case simp_thms)
next
  case False
  then have "aggregate_common 0 xs ys = ([], 0, xs, ys)"
    by (cases xs; cases ys) auto
  then show ?thesis by (auto simp: wf_segs_def split: list.splits)
qed

lemma loop_check_absent: "a \<notin> asns (segments q) \<Longrightarrow> aspath_loop_check (Some q) a = 0"
  by (auto simp: aspath_loop_check_def asns_def filter_empty_conv)

text \<open>C31: Aggregating two AS paths whose first segments differ keeps every AS number of both and adds none,
  so loop detection on the aggregate still sees all of them; the string of the result is up to date.\<close>

theorem aspath_aggregate_covers:
  assumes "wf_segs (segments p1)" "wf_segs (segments p2)" "first_differ (segments p1) (segments p2)"
    "asn_total (segments p1) + asn_total (segments p2) < 32768"
  shows "\<exists>q. aspath_aggregate p1 p2 = Inr q \<and> asns (segments q) = asns (segments p1) \<union> asns (segments p2) \<and>
     canonical_segs (segments q) \<and> aspath_make_str_count (segments q) = Inr (str q)"
proof -
  let ?xs = "segments p1" let ?ys = "segments p2"
  obtain new m where c: "aggregate_common 0 ?xs ?ys = (new, m, ?xs, ?ys)" "wf_segs new" "asn_total new = m"
     "case ?xs of [] \<Rightarrow> m = 0 | x # _ \<Rightarrow> m \<le> seg_length x \<and> asns new = set (take m (seg_as x))"
     "case ?ys of [] \<Rightarrow> m = 0 | y # _ \<Rightarrow> m \<le> seg_length y \<and> asns new = set (take m (seg_as y))"
    using aggregate_common_first[OF assms(3,1,2)] by blast
  obtain a1 where a1: "aggregate_rest m ?xs None = Inr a1" "asset_ok (asn_total ?xs) a1"
     "members a1 = (case ?xs of [] \<Rightarrow> {} | seg # rest \<Rightarrow> set (drop m (seg_as seg)) \<union> asns rest)"
    using rest_ok[of 0 None ?xs m] assms(4) by (auto simp: asset_ok_def members_def)
  obtain a2 where a2: "aggregate_rest m ?ys a1 = Inr a2" "asset_ok (asn_total ?xs + asn_total ?ys) a2"
     "members a2 = members a1 \<union> (case ?ys of [] \<Rightarrow> {} | seg # rest \<Rightarrow> set (drop m (seg_as seg)) \<union> asns rest)"
    using rest_ok[OF a1(2), of ?ys m] assms(4) by auto
  define tail where "tail = (case a2 of None \<Rightarrow> [] | Some as \<Rightarrow> [\<lparr>seg_type = AS_SET, seg_as = as\<rparr>])"
  have tail: "asns tail = members a2" "\<forall>seg\<in>set tail. wf_seg seg" "asn_total tail \<le> asn_total ?xs + asn_total ?ys"
    using a2(2) by (auto simp: tail_def members_def asset_ok_def wf_seg_def known_type_def split: option.splits)
  have "m \<le> asn_total ?xs" using c(4) by (cases ?xs) auto
  then have wf: "wf_segs (new @ tail)" using c(2,3) tail assms(4) by (auto simp: wf_segs_def)
  note n = normalise_spec[OF wf]
  have split: "set (take k as) \<union> set (drop k as) = set as" for k and as :: "as_t list"
    by (metis append_take_drop_id set_append)
  have none: "asns new = {}" if "m = 0"
    using c(2,3) that by (cases new) (auto simp: wf_segs_def wf_seg_def)
  have cover: "asns new \<union> members a2 = asns ?xs \<union> asns ?ys"
  proof (cases ?xs)
    case Nil
    then show ?thesis using c(4) a1(3) a2(3) none by (cases ?ys) auto
  next
    case x: (Cons x xs)
    show ?thesis
    proof (cases ?ys)
      case Nil
      then show ?thesis using c(5) a1(3) a2(3) none x by auto
    next
      case (Cons y ys)
      then show ?thesis using c(4,5) a1(3) a2(3) x split[of m "seg_as x", symmetric] split[of m "seg_as y", symmetric] by auto
    qed
  qed
  have wfn: "wf_segs (assegment_normalise (new @ tail))"
    using n wf by (auto simp: canonical_segs_def wf_segs_def)
  let ?q = "aspath_new\<lparr>segments := assegment_normalise (new @ tail), str := Some (path_text (assegment_normalise (new @ tail)))\<rparr>"
  have "aspath_aggregate p1 p2 = Inr ?q"
    using c(1) a1(1) a2(1) wfn str_update_wf[of "aspath_new\<lparr>segments := assegment_normalise (new @ tail)\<rparr>"]
    by (simp add: aspath_aggregate_def tail_def[symmetric] Let_def)
  moreover have "asns (assegment_normalise (new @ tail)) = asns ?xs \<union> asns ?ys"
    using normalise_asns[OF wf] tail(1) cover by simp
  ultimately show ?thesis using n make_str_ok[OF wf_known[OF wfn]] by (intro exI[of _ ?q]) simp
qed

theorem aspath_aggregate_covers_witness:
  "\<exists>q. aspath_aggregate
        \<lparr>refcnt = 0, segments = [\<lparr>seg_type = AS_SEQUENCE, seg_as = [1, 2, 3]\<rparr>], str = None\<rparr>
        \<lparr>refcnt = 0, segments = [\<lparr>seg_type = AS_SEQUENCE, seg_as = [1, 5]\<rparr>], str = None\<rparr> = Inr q \<and>
      asns (segments q) = {1, 2, 3, 5}"
  using aspath_aggregate_covers[of
    "\<lparr>refcnt = 0, segments = [\<lparr>seg_type = AS_SEQUENCE, seg_as = [1, 2, 3]\<rparr>], str = None\<rparr>"
    "\<lparr>refcnt = 0, segments = [\<lparr>seg_type = AS_SEQUENCE, seg_as = [1, 5]\<rparr>], str = None\<rparr>"]
  by (auto simp: wf_segs_def wf_seg_def known_type_def first_differ_def insert_commute)

text \<open>C38: When a path continues after a first segment that is the whole of the other path, the aggregate
  forgets AS numbers: as many numbers at the start of the next segment as the first one has, because the count of
  numbers matched in the first segment is still applied to the next. The aggregate has exactly the numbers of the
  first segment, those of the second from that position on and those of the remaining segments, so loop
  detection no longer sees the skipped ones unless they occur again.\<close>

theorem aspath_aggregate_loses:
  assumes "wf_segs (x # e # rest)" "asn_total (x # e # rest) < 32768" "segments p1 = x # e # rest" "segments p2 = [x]"
  shows "\<exists>q. aspath_aggregate p1 p2 = Inr q \<and>
     asns (segments q) = set (seg_as x) \<union> set (drop (seg_length x) (seg_as e)) \<union> asns rest \<and>
     (\<forall>a. a \<in> set (take (seg_length x) (seg_as e)) - asns (segments q) \<longrightarrow>
        aspath_loop_check (Some p1) a > 0 \<and> aspath_loop_check (Some q) a = 0)"
proof -
  have x: "wf_seg x" "seg_length x < 65536" using assms(1,2) by (auto simp: wf_segs_def)
  have full: "common_length as as = length as" for as :: "as_t list" by (induction as) auto
  have c: "aggregate_common 0 (x # e # rest) [x] = ([x], seg_length x, e # rest, [])"
    using x by (simp add: full Let_def append_asns_small assegment_new_def wf_seg_def)
  obtain as where as: "aggregate_rest (seg_length x) (e # rest) None = Inr as" "asset_ok (asn_total (e # rest)) as"
      "members as = set (drop (seg_length x) (seg_as e)) \<union> asns rest"
    using rest_ok[of 0 None "e # rest" "seg_length x"] assms(2) by (auto simp: asset_ok_def members_def)
  define tail where "tail = (case as of None \<Rightarrow> [] | Some as \<Rightarrow> [\<lparr>seg_type = AS_SET, seg_as = as\<rparr>])"
  have tail: "asns tail = members as" "\<forall>seg\<in>set tail. wf_seg seg" "asn_total tail \<le> asn_total (e # rest)"
    using as(2) by (auto simp: tail_def members_def asset_ok_def wf_seg_def known_type_def split: option.splits)
  define new where "new = x # tail"
  have wf: "wf_segs new" using x tail assms(2) by (auto simp: wf_segs_def new_def)
  note n = normalise_spec[OF wf]
  have wfn: "wf_segs (assegment_normalise new)" using n wf by (auto simp: canonical_segs_def wf_segs_def)
  let ?q = "aspath_new\<lparr>segments := assegment_normalise new, str := Some (path_text (assegment_normalise new))\<rparr>"
  have "aspath_aggregate p1 p2 = Inr ?q"
    using c as(1) wfn assms(3,4) str_update_wf[of "aspath_new\<lparr>segments := assegment_normalise new\<rparr>"]
    by (simp add: aspath_aggregate_def tail_def[symmetric] new_def[symmetric] Let_def
        del: aggregate_common.simps aggregate_rest.simps(2) assegment_normalise.simps)
  moreover have "asns (segments ?q) = set (seg_as x) \<union> set (drop (seg_length x) (seg_as e)) \<union> asns rest"
    using normalise_asns[OF wf] tail(1) as(3) by (auto simp: new_def)
  moreover have "aspath_loop_check (Some p1) a > 0" if "a \<in> set (take (seg_length x) (seg_as e))" for a
    using that assms(3) by (auto simp: aspath_loop_check_def filter_empty_conv dest: in_set_takeD)
  moreover have "aspath_loop_check (Some ?q) a = 0" if "a \<notin> asns (segments ?q)" for a
    using loop_check_absent that by blast
  ultimately show ?thesis by blast
qed

theorem aspath_aggregate_loses_witness:
  "\<exists>q. aspath_aggregate
        \<lparr>refcnt = 0, segments = [\<lparr>seg_type = AS_SEQUENCE, seg_as = [1, 2]\<rparr>, \<lparr>seg_type = AS_SET, seg_as = [3, 4, 5]\<rparr>], str = None\<rparr>
        \<lparr>refcnt = 0, segments = [\<lparr>seg_type = AS_SEQUENCE, seg_as = [1, 2]\<rparr>], str = None\<rparr> = Inr q \<and>
      asns (segments q) = {1, 2, 5} \<and> aspath_loop_check (Some q) 3 = 0"
  using aspath_aggregate_loses[of "\<lparr>seg_type = AS_SEQUENCE, seg_as = [1, 2]\<rparr>" "\<lparr>seg_type = AS_SET, seg_as = [3, 4, 5]\<rparr>" "[]"
    "\<lparr>refcnt = 0, segments = [\<lparr>seg_type = AS_SEQUENCE, seg_as = [1, 2]\<rparr>, \<lparr>seg_type = AS_SET, seg_as = [3, 4, 5]\<rparr>], str = None\<rparr>"
    "\<lparr>refcnt = 0, segments = [\<lparr>seg_type = AS_SEQUENCE, seg_as = [1, 2]\<rparr>], str = None\<rparr>"]
  by (auto simp: wf_segs_def wf_seg_def known_type_def insert_commute)

text \<open>Reconciling a path of old speakers with the four-octet path.\<close>

definition public_segs :: "assegment list \<Rightarrow> bool" where
  "public_segs segs \<longleftrightarrow> (\<forall>seg\<in>set segs. seg_type seg = AS_SEQUENCE \<or> seg_type seg = AS_SET)"

lemma public_Cons [simp]:
  "public_segs (seg # segs) \<longleftrightarrow> (seg_type seg = AS_SEQUENCE \<or> seg_type seg = AS_SET) \<and> public_segs segs"
  "public_segs []"
  by (auto simp: public_segs_def)

lemma public_counts: "public_segs segs \<Longrightarrow> count_hops segs = length (items segs) \<and> count_confeds segs = 0"
  by (induction segs) (auto simp: seg_items_def)

lemma reconcile_step:
  assumes "seg_type seg = AS_SEQUENCE \<or> seg_type seg = AS_SET" "0 < h" "seg_length seg < 65536"
  shows "reconcile_loop (int h) c (seg # segs) =
    (let k = (if seg_type seg = AS_SET then seg_length seg else min (seg_length seg) h) in
     bindE (reconcile_loop (int h - int (if seg_type seg = AS_SET then 1 else seg_length seg)) k segs) (\<lambda>r.
       Inr (seg\<lparr>seg_as := take k (seg_as seg)\<rparr> # r)))"
  using assms by (cases seg) (auto simp: append_asns_small assegment_new_def Let_def min_def)

lemma reconcile_done: "h \<le> 0 \<Longrightarrow> reconcile_loop h c segs = Inr []"
  by (cases segs) auto

lemma reconcile_loop_ok:
  assumes "public_segs segs" "\<forall>seg\<in>set segs. wf_seg seg" "asn_total segs < 65536"
  shows "\<exists>new. reconcile_loop (int h) c segs = Inr new \<and> items new = take h (items segs) \<and>
     (\<forall>seg\<in>set new. wf_seg seg) \<and> asn_total new \<le> asn_total segs \<and> (new = [] \<longleftrightarrow> h = 0 \<or> segs = [])"
  using assms
proof (induction segs arbitrary: h c)
  case (Cons seg segs)
  show ?case
  proof (cases "h = 0")
    case False
    define k where "k = (if seg_type seg = AS_SET then seg_length seg else min (seg_length seg) h)"
    define d where "d = (if seg_type seg = AS_SET then 1 else seg_length seg)"
    have t: "seg_type seg = AS_SEQUENCE \<or> seg_type seg = AS_SET" using Cons.prems(1) by simp
    have step: "reconcile_loop (int h) c (seg # segs) =
      bindE (reconcile_loop (int h - int d) k segs) (\<lambda>r. Inr (seg\<lparr>seg_as := take k (seg_as seg)\<rparr> # r))"
      using reconcile_step[OF t, of h c segs] False Cons.prems(3) by (simp add: k_def d_def Let_def)
    have "reconcile_loop (int h - int d) k segs = reconcile_loop (int (h - d)) k segs"
      by (cases "d \<le> h") (simp_all add: reconcile_done of_nat_diff)
    moreover obtain new where new: "reconcile_loop (int (h - d)) k segs = Inr new" "items new = take (h - d) (items segs)"
       "\<forall>seg\<in>set new. wf_seg seg" "asn_total new \<le> asn_total segs"
      using Cons.IH[of "h - d" k] Cons.prems by auto
    ultimately have "reconcile_loop (int h) c (seg # segs) = Inr (seg\<lparr>seg_as := take k (seg_as seg)\<rparr> # new)"
      by (simp only: step bindE.simps)
    moreover have "seg_items (seg\<lparr>seg_as := take k (seg_as seg)\<rparr>) = take h (seg_items seg)" "length (seg_items seg) = d"
      using t False by (auto simp: seg_items_def k_def d_def take_map min_def)
    moreover have "wf_seg (seg\<lparr>seg_as := take k (seg_as seg)\<rparr>)"
      using Cons.prems(2) False by (auto simp: wf_seg_def k_def)
    ultimately show ?thesis using new False by (simp del: reconcile_loop.simps)
  qed (simp add: reconcile_done)
qed (simp add: reconcile_done)

text \<open>C32: Reconciling an AS path without confederation segments, relayed by two-octet speakers, with its
  four-octet path puts hops of the first in front of the whole of the second. When the four-octet path has at most as
  many hops, these are as many as the two differ by, so the number of hops does not change (for a
  four-octet path without confederation segments); when it has more, they are all hops of the first path, and the
  hops add up. The string of the result is up to date.\<close>

theorem aspath_reconcile_as4_spec:
  assumes "wf_segs (segments p)" "public_segs (segments p)" "wf_segs (segments as4)"
    "asn_total (segments p) + asn_total (segments as4) < 65536"
  shows "\<exists>q. aspath_reconcile_as4 (Some p) as4 = Inr (Some q) \<and>
     items (segments q) =
       take (if aspath_count_hops as4 \<le> aspath_count_hops p then aspath_count_hops p - aspath_count_hops as4
             else aspath_count_hops p) (items (segments p)) @ items (segments as4) \<and>
     (public_segs (segments as4) \<longrightarrow>
        length (items (segments q)) =
          (if aspath_count_hops as4 \<le> aspath_count_hops p then aspath_count_hops p
           else aspath_count_hops p + aspath_count_hops as4)) \<and>
     aspath_make_str_count (segments q) = Inr (str q)"
proof -
  let ?d = "aspath_count_hops as4 \<le> aspath_count_hops p"
  define h where "h = (if ?d then aspath_count_hops p - aspath_count_hops as4 else aspath_count_hops p)"
  have hops: "(let hops0 = int (aspath_count_hops p + aspath_count_confeds p) - int (aspath_count_hops as4)
      in if hops0 < 0 then int (aspath_count_hops p) else hops0) = int h"
    using public_counts[OF assms(2)] by (auto simp: h_def aspath_count_confeds_def of_nat_diff Let_def)
  have len: "aspath_count_hops p = length (items (segments p))"
    using public_counts[OF assms(2)] by (simp add: aspath_count_hops_def)
  have len4: "public_segs (segments as4) \<Longrightarrow> aspath_count_hops as4 = length (items (segments as4))"
    using public_counts by (simp add: aspath_count_hops_def)
  have total: "h + aspath_count_hops as4 = (if ?d then aspath_count_hops p else aspath_count_hops p + aspath_count_hops as4)"
    "h \<le> length (items (segments p))" using len by (auto simp: h_def)
  have dup: "aspath_dup as4 = Inr (aspath_new\<lparr>segments := segments as4, str := Some (path_text (segments as4))\<rparr>)"
    using make_str_ok[OF wf_known[OF assms(3)]] by (simp add: aspath_dup_def aspath_new_def)
  show ?thesis
  proof (cases "h = 0")
    case True
    have "aspath_reconcile_as4 (Some p) as4 = Inr (Some (aspath_new\<lparr>segments := segments as4, str := Some (path_text (segments as4))\<rparr>))"
      using hops True dup by (simp add: aspath_reconcile_as4_def Let_def)
    then show ?thesis using True total len4 make_str_ok[OF wf_known[OF assms(3)]]
      unfolding h_def[symmetric] by auto
  next
    case False
    obtain new where new: "reconcile_loop (int h) 0 (segments p) = Inr new" "items new = take h (items (segments p))"
       "\<forall>seg\<in>set new. wf_seg seg" "asn_total new \<le> asn_total (segments p)" "new = [] \<longleftrightarrow> h = 0 \<or> segments p = []"
      using reconcile_loop_ok[OF assms(2), of h 0] assms(1) by (auto simp: wf_segs_def)
    have ne: "new \<noteq> []" using new(5) False total(2) by auto
    have wf: "wf_segs (new @ segments as4)" using new(3,4) assms(3,4) by (auto simp: wf_segs_def)
    note n = normalise_spec[OF wf]
    have wfn: "wf_segs (assegment_normalise (new @ segments as4))"
      using n wf by (auto simp: canonical_segs_def wf_segs_def)
    have "aspath_reconcile_as4 (Some p) as4 = Inr (Some (aspath_new\<lparr>segments := assegment_normalise (new @ segments as4),
        str := Some (path_text (assegment_normalise (new @ segments as4)))\<rparr>))"
      using hops False new(1) ne dup
      by (simp add: aspath_reconcile_as4_def Let_def aspath_merge_def str_update_wf wf wfn aspath_new_def)
    then show ?thesis using n new(2) len4 total make_str_ok[OF wf_known[OF wfn]]
      unfolding h_def[symmetric] by auto
  qed
qed

theorem aspath_reconcile_as4_spec_witness:
  "\<exists>q. aspath_reconcile_as4
        (Some \<lparr>refcnt = 0, segments = [\<lparr>seg_type = AS_SEQUENCE, seg_as = [10, 23456, 23456]\<rparr>], str = None\<rparr>)
        \<lparr>refcnt = 0, segments = [\<lparr>seg_type = AS_SEQUENCE, seg_as = [70000, 80000]\<rparr>], str = None\<rparr> = Inr (Some q) \<and>
      items (segments q) = [Hop 10, Hop 70000, Hop 80000]"
  using aspath_reconcile_as4_spec[of
    "\<lparr>refcnt = 0, segments = [\<lparr>seg_type = AS_SEQUENCE, seg_as = [10, 23456, 23456]\<rparr>], str = None\<rparr>"
    "\<lparr>refcnt = 0, segments = [\<lparr>seg_type = AS_SEQUENCE, seg_as = [70000, 80000]\<rparr>], str = None\<rparr>"]
  by (auto simp: wf_segs_def wf_seg_def known_type_def aspath_count_hops_def seg_items_def)

text \<open>Adding an AS number in front.\<close>

lemma add_seq_items:
  assumes "wf_segs (segments p)" "asn_total (segments p) < 65535"
  shows "items (segments (aspath_add_seq p a)) = Hop a # items (segments p) \<and> wf_segs (segments (aspath_add_seq p a)) \<and>
     str (aspath_add_seq p a) = str p"
proof (cases "segments p")
  case Nil
  then show ?thesis
    by (simp add: aspath_add_seq_def aspath_add_one_as_def seg_items_def assegment_new_def wf_segs_def wf_seg_def known_type_def)
next
  case (Cons seg segs)
  then show ?thesis using assms
    by (auto simp: aspath_add_seq_def aspath_add_one_as_def seg_items_def assegment_new_def wf_segs_def wf_seg_def known_type_def
        assegment_prepend_asns_def AS_SEGMENT_MAX_def u_short_def)
qed

lemma path_text_inject:
  assumes "text_ok xs" "text_ok ys" "path_text xs = path_text ys"
  shows "xs = ys"
  using str2segs_path[OF assms(1), of True 0 "[]"] str2segs_path[OF assms(2), of True 0 "[]"] assms(3) by simp

lemma add_seq_text_ok:
  assumes "text_ok (segments p)" "wf_segs (segments p)" "asn_total (segments p) < 65535"
  shows "text_ok (segments (aspath_add_seq p a))"
proof (cases "segments p")
  case Nil
  then show ?thesis
    by (simp add: aspath_add_seq_def aspath_add_one_as_def text_ok_def assegment_new_def known_type_def)
next
  case (Cons seg segs)
  then show ?thesis using assms
    by (cases segs) (auto simp: aspath_add_seq_def aspath_add_one_as_def text_ok_def assegment_new_def known_type_def wf_segs_def wf_seg_def
        assegment_prepend_asns_def AS_SEGMENT_MAX_def u_short_def ASSEGMENT_TYPES_PACKABLE_def)
qed

text \<open>Adding the local AS number in front of a copy of a path, as the UPDATE parser does, puts it in front of
  the hops, but the copy keeps the string of the old path: the string never is the text of the new segments, and
  the hash key, the comparison by display and the path shown to the operator are made from it.\<close>

theorem aspath_add_seq_stale:
  assumes "wf_segs (segments p)" "text_ok (segments p)" "asn_total (segments p) < 65535"
  shows "\<exists>d s t. aspath_dup p = Inr d \<and> str (aspath_add_seq d a) = Some s \<and>
     aspath_make_str_count (segments p) = Inr (Some s) \<and>
     aspath_make_str_count (segments (aspath_add_seq d a)) = Inr (Some t) \<and> s \<noteq> t \<and>
     items (segments (aspath_add_seq d a)) = Hop a # items (segments p)"
proof -
  define d where "d = aspath_new\<lparr>segments := segments p, str := Some (path_text (segments p))\<rparr>"
  have seg: "segments d = segments p" "str d = Some (path_text (segments p))" by (simp_all add: d_def)
  have dup: "aspath_dup p = Inr d"
    using make_str_ok[OF wf_known[OF assms(1)]] by (simp add: aspath_dup_def aspath_new_def d_def)
  have add: "items (segments (aspath_add_seq d a)) = Hop a # items (segments p)" "wf_segs (segments (aspath_add_seq d a))"
     "str (aspath_add_seq d a) = Some (path_text (segments p))"
    using add_seq_items[of d a] assms(1,3) seg by simp_all
  have "segments (aspath_add_seq d a) \<noteq> segments p" using add(1) by auto
  then have "path_text (segments (aspath_add_seq d a)) \<noteq> path_text (segments p)"
    using path_text_inject[OF add_seq_text_ok[of d a] assms(2)] assms seg by auto
  then show ?thesis using dup add make_str_ok[OF wf_known[OF add(2)]] make_str_ok[OF wf_known[OF assms(1)]] by force
qed

theorem aspath_add_seq_stale_witness:
  "\<exists>d s t. aspath_dup \<lparr>refcnt = 1, segments = [\<lparr>seg_type = AS_SEQUENCE, seg_as = [200, 300]\<rparr>], str = None\<rparr> = Inr d \<and>
     str (aspath_add_seq d 100) = Some s \<and> aspath_make_str_count (segments (aspath_add_seq d 100)) = Inr (Some t) \<and> s \<noteq> t"
  using aspath_add_seq_stale[of "\<lparr>refcnt = 1, segments = [\<lparr>seg_type = AS_SEQUENCE, seg_as = [200, 300]\<rparr>], str = None\<rparr>" 100]
  by (auto simp: wf_segs_def wf_seg_def known_type_def text_ok_def)

text \<open>Prepending a whole path.\<close>

definition frees_first :: "assegment list \<Rightarrow> assegment list \<Rightarrow> bool" where
  "frees_first xs ys \<longleftrightarrow> xs \<noteq> [] \<and> ys \<noteq> [] \<and> seg_type (last xs) = AS_SEQUENCE \<and> seg_type (hd ys) = AS_CONFED_SEQUENCE"

text \<open>C33: Prepending a path puts its hops in front of those of the other and keeps the string up to date, with
  one exception: when a sequence is put in front of a confederation sequence the code reads a segment that it
  has just freed.\<close>

theorem aspath_prepend_spec:
  assumes "wf_segs (segments p1)" "wf_segs (segments p2)" "asn_total (segments p1) + asn_total (segments p2) < 65536"
    "str p2 = Some (path_text (segments p2))"
  shows "if frees_first (segments p1) (segments p2) then aspath_prepend (Some p1) (Some p2) = Inl NullDeref
     else \<exists>q. aspath_prepend (Some p1) (Some p2) = Inr (Some q) \<and> items (segments q) = items (segments p1) @ items (segments p2) \<and>
       aspath_make_str_count (segments q) = Inr (str q)"
proof -
  have upd: "\<exists>r. bindE (aspath_str_update (p2\<lparr>segments := segs\<rparr>)) (\<lambda>p. Inr (Some p)) = Inr (Some r) \<and>
      segments r = segs \<and> aspath_make_str_count (segments r) = Inr (str r)" if "wf_segs segs" for segs
    using str_update_wf[of "p2\<lparr>segments := segs\<rparr>"] make_str_ok[OF wf_known[OF that]] that by simp
  have wf: "wf_segs (segments p1 @ segments p2)" using assms by (auto simp: wf_segs_def)
  have merge: "\<exists>r. aspath_merge (Some p1) (Some p2) = Inr (Some r) \<and>
      segments r = segments p1 @ segments p2 \<and> aspath_make_str_count (segments r) = Inr (str r)" if "segments p1 \<noteq> []"
    using upd[OF wf] that by (simp add: aspath_merge_def)
  show ?thesis
  proof (cases "segments p1 = [] \<or> segments p2 = []")
    case True
    then show ?thesis using upd[OF assms(1)] make_str_ok[OF wf_known[OF assms(2)]] assms(4)
      by (cases "segments p2") (auto simp: frees_first_def aspath_prepend_def)
  next
    case False
    then obtain xs x y ys where xy: "segments p1 = xs @ [x]" "segments p2 = y # ys"
      by (metis append_butlast_last_id neq_Nil_conv)
    show ?thesis
    proof (cases "seg_type x = AS_SEQUENCE \<and> seg_type y = AS_CONFED_SEQUENCE")
      case True
      have "wf_segs (drop_confed segs)" if "wf_segs segs" for segs
        using that by (induction segs) (auto simp: wf_segs_def)
      moreover have "wf_segs ys" using assms(2) xy by (simp add: wf_segs_def)
      ultimately show ?thesis using True xy str_update_wf[of "p2\<lparr>segments := drop_confed ys\<rparr>"]
        by (auto simp: frees_first_def aspath_prepend_def aspath_delete_confed_seq_def is_confed_def)
    next
      case nf: False
      show ?thesis
      proof (cases "seg_type x = AS_SEQUENCE \<and> seg_type y = AS_SEQUENCE")
        case True
        let ?z = "x\<lparr>seg_as := seg_as x @ seg_as y\<rparr>"
        have z: "assegment_append_asns x (seg_as y) = ?z" "seg_items ?z = seg_items x @ seg_items y"
          using assms(3) xy True by (simp_all add: append_asns_small seg_items_def)
        have "wf_segs (xs @ ?z # ys)" using wf xy by (auto simp: wf_segs_def wf_seg_def)
        from upd[OF this] show ?thesis using True xy z by (auto simp: frees_first_def aspath_prepend_def Let_def)
      next
        case False
        then show ?thesis using merge nf xy by (auto simp: frees_first_def aspath_prepend_def Let_def)
      qed
    qed
  qed
qed

theorem aspath_prepend_spec_witness:
  "\<exists>q. aspath_prepend (Some \<lparr>refcnt = 0, segments = [\<lparr>seg_type = AS_SEQUENCE, seg_as = [1]\<rparr>], str = None\<rparr>)
        (Some \<lparr>refcnt = 0, segments = [\<lparr>seg_type = AS_SEQUENCE, seg_as = [2]\<rparr>],
           str = Some (path_text [\<lparr>seg_type = AS_SEQUENCE, seg_as = [2]\<rparr>])\<rparr>) = Inr (Some q) \<and>
      items (segments q) = [Hop 1, Hop 2]"
  using aspath_prepend_spec[of "\<lparr>refcnt = 0, segments = [\<lparr>seg_type = AS_SEQUENCE, seg_as = [1]\<rparr>], str = None\<rparr>"
    "\<lparr>refcnt = 0, segments = [\<lparr>seg_type = AS_SEQUENCE, seg_as = [2]\<rparr>],
       str = Some (path_text [\<lparr>seg_type = AS_SEQUENCE, seg_as = [2]\<rparr>])\<rparr>"]
  by (auto simp: wf_segs_def wf_seg_def known_type_def frees_first_def seg_items_def simp del: path_text.simps)

text \<open>The parser on arbitrary input.\<close>

lemma get_asns_any:
  assumes "stream_ok s" "n * asn_size use32bit \<le> length (unread s)"
  shows "\<exists>as s'. get_asns use32bit n s = Inr (as, s') \<and> length as = n \<and> stream_ok s' \<and>
     unread s' = drop (n * asn_size use32bit) (unread s)"
  using assms
proof (induction n arbitrary: s)
  case (Suc n)
  have "\<exists>a s1. (if use32bit then stream_getl s else bindE (stream_getw s) (\<lambda>(w, s'). Inr (ucast w, s'))) = Inr (a, s1) \<and>
      stream_ok s1 \<and> unread s1 = drop (asn_size use32bit) (unread s)"
  proof (cases use32bit)
    case True
    then have "4 \<le> length (unread s)" using Suc.prems(2) by (simp add: asn_size_def AS_VALUE_SIZE_def AS16_VALUE_SIZE_def)
    then show ?thesis using field_l.getter_any[OF Suc.prems(1)] True by (simp add: asn_size_def AS_VALUE_SIZE_def AS16_VALUE_SIZE_def)
  next
    case False
    then have "2 \<le> length (unread s)" using Suc.prems(2) by (simp add: asn_size_def AS_VALUE_SIZE_def AS16_VALUE_SIZE_def)
    from field_w.getter_any[OF Suc.prems(1) this] show ?thesis using False by (auto simp: asn_size_def AS16_VALUE_SIZE_def)
  qed
  then obtain a s1 where s1: "(if use32bit then stream_getl s else bindE (stream_getw s) (\<lambda>(w, s'). Inr (ucast w, s'))) = Inr (a, s1)"
     "stream_ok s1" "unread s1 = drop (asn_size use32bit) (unread s)" by blast
  have "n * asn_size use32bit \<le> length (unread s1)" using s1(3) Suc.prems(2) by (simp add: le_diff_conv2)
  then obtain as s2 where "get_asns use32bit n s1 = Inr (as, s2)" "length as = n" "stream_ok s2"
     "unread s2 = drop (n * asn_size use32bit) (unread s1)"
    using Suc.IH[OF s1(2)] by blast
  then show ?case using s1 by (auto simp: add.commute)
qed simp

lemma parse_loop_any:
  assumes "stream_ok s" "len - bytes \<le> length (unread s)" "bytes \<le> len" "2 * asn_total head + 2 * length head \<le> bytes"
    "\<forall>seg\<in>set head. wf_seg seg" "len < 131072"
  shows "\<exists>r s'. parse_loop use32bit len bytes head s = Inr (r, s') \<and> stream_ok s' \<and>
     (\<forall>segs. r = Some segs \<longrightarrow> canonical_segs segs \<and> wf_segs segs)"
  using assms
proof (induction use32bit len bytes head s rule: parse_loop.induct)
  case (1 use32bit len bytes head s)
  note IH = 1(1) and P = 1(2-7)
  show ?case
  proof (cases "bytes < len \<and> \<not> len - bytes \<le> AS_HEADER_SIZE")
    case False
    have wf: "wf_segs head" using P(3-6) by (simp add: wf_segs_def)
    have "canonical_segs (assegment_normalise head)" "wf_segs (assegment_normalise head)"
      using normalise_spec[OF wf] wf by (auto simp: canonical_segs_def wf_segs_def)
    then show ?thesis using False P(1) by (subst parse_loop.simps) auto
  next
    case True
    then have len: "2 < length (unread s)" using P(2) by (auto simp: AS_HEADER_SIZE_def)
    obtain t s1 where s1: "stream_getc s = Inr (t, s1)" "stream_ok s1" "unread s1 = drop 1 (unread s)"
      using field_c.getter_any[OF P(1)] len by auto
    obtain l s2 where s2: "stream_getc s1 = Inr (l, s2)" "stream_ok s2" "unread s2 = drop 2 (unread s)"
    proof -
      have "1 \<le> length (unread s1)" using s1(3) len by simp
      from field_c.getter_any[OF s1(2) this] show ?thesis using that s1(3) by (auto simp: eval_nat_numeral)
    qed
    let ?sz = "ASSEGMENT_SIZE (unat l) use32bit"
    show ?thesis
    proof (cases "bytes + ?sz > len \<or> l = 0 \<or> \<not> known_type t")
      case bad: True
      then have "parse_loop use32bit len bytes head s = Inr (None, s2)"
        using True s1(1) s2(1) by (subst parse_loop.simps) (auto simp: Let_def)
      then show ?thesis using s2(2) by auto
    next
      case False
      have sz: "?sz = 2 + unat l * asn_size use32bit"
        by (simp add: ASSEGMENT_SIZE_def ASSEGMENT_DATA_SIZE_def AS_HEADER_SIZE_def asn_size_def AS_VALUE_SIZE_def AS16_VALUE_SIZE_def)
      have "unat l * asn_size use32bit \<le> length (unread s2)" 
        using s2(3) P(2) False sz len by (simp, linarith)
      then obtain as s3 where s3: "get_asns use32bit (unat l) s2 = Inr (as, s3)" "length as = unat l" "stream_ok s3"
         "unread s3 = drop (unat l * asn_size use32bit) (unread s2)"
        using get_asns_any[OF s2(2)] by blast
      let ?seg = "(assegment_new t (unat l))\<lparr>seg_as := as\<rparr>"
      have seg: "wf_seg ?seg" "seg_length ?seg = unat l"
        using False s3(2) by (auto simp: wf_seg_def assegment_new_def unat_eq_0)
      have a2: "2 * unat l \<le> unat l * asn_size use32bit" by (simp add: asn_size_def AS_VALUE_SIZE_def AS16_VALUE_SIZE_def)
      have step: "parse_loop use32bit len bytes head s = parse_loop use32bit len (bytes + ?sz) (head @ [?seg]) s3"
        using True False s1(1) s2(1) s3(1) by (subst parse_loop.simps) (simp add: Let_def)
      have "\<exists>r s'. parse_loop use32bit len (bytes + ?sz) (head @ [?seg]) s3 = Inr (r, s') \<and> stream_ok s' \<and>
        (\<forall>segs. r = Some segs \<longrightarrow> canonical_segs segs \<and> wf_segs segs)"
      proof (rule IH)
        show "len - (bytes + ?sz) \<le> length (unread s3)" using s3(4) s2(3) P(2) sz by simp
        show "2 * asn_total (head @ [?seg]) + 2 * length (head @ [?seg]) \<le> bytes + ?sz"
        proof -
          have "asn_total (head @ [?seg]) = asn_total head + unat l" "length (head @ [?seg]) = length head + 1" using seg(2) by simp_all
          then show ?thesis using P(4) a2 unfolding sz by linarith
        qed
        show "\<forall>x\<in>set (head @ [?seg]). wf_seg x" using P(5) seg(1) by simp
      qed (use True False s3(3) P(6) in auto)
      then show ?thesis unfolding step .
    qed
  qed
qed

lemma parse_any_ok:
  assumes "stream_ok s" "len < 131072"
  shows "\<exists>r s'. assegments_parse s len use32bit = Inr (r, s') \<and> stream_ok s' \<and>
     (\<forall>segs. r = Some segs \<longrightarrow> canonical_segs segs \<and> wf_segs segs)"
proof (cases "len = 0 \<or> STREAM_READABLE s < len \<or> STREAM_READABLE s < AS_HEADER_SIZE \<or> len mod AS16_VALUE_SIZE \<noteq> 0")
  case True
  then show ?thesis using assms by (auto simp: assegments_parse_def canonical_segs_def wf_segs_def)
next
  case False
  have "len \<le> length (unread s)" using False assms by (auto simp: STREAM_READABLE_def length_unread stream_ok_def)
  then show ?thesis using False parse_loop_any[OF assms(1), of len 0 "[]" use32bit] assms(2)
    by (simp add: assegments_parse_def)
qed

text \<open>C12: Parsing an AS path attribute from arbitrary bytes never reads outside the message and always ends,
  with an error or with a well-formed path in normal form.\<close>

theorem assegments_parse_safe:
  assumes "stream_ok s" "len < 131072"
  shows "\<exists>r s'. assegments_parse s len use32bit = Inr (r, s') \<and> stream_ok s' \<and>
     (\<forall>segs. r = Some segs \<longrightarrow> canonical_segs segs \<and> wf_segs segs)"
  by (rule parse_any_ok[OF assms])

theorem assegments_parse_safe_witness:
  "\<exists>r s'. assegments_parse (empty_stream 4096) 8 True = Inr (r, s') \<and> stream_ok s'"
  using assegments_parse_safe[of "empty_stream 4096" 8 True] empty_stream_ok[of 4096] by (auto simp: SIZE_LIM_def)

end
