(* ===== verification/Hash.thy ===== *)
theory Hash
  imports Prelude
begin

text \<open>
  The chained hash table of \<^verbatim>\<open>lib/hash.c\<close> and the hash functions of \<^verbatim>\<open>lib/jhash.c\<close>.

  A chain of buckets is a list. The data of a bucket is a pointer, of type \<open>'a\<close>; the key, comparison and
  allocation callbacks read and write through it, so they are functions of a memory of type \<open>'m\<close> and may
  fault. The locale \<open>hash_callbacks\<close> states what the table relies on in its client; its lemmas say that
  the table then holds at most one entry for each value.
\<close>

subsection \<open>Hash functions\<close>

definition JHASH_GOLDEN_RATIO :: u32 where "JHASH_GOLDEN_RATIO = 0x9e3779b9"

definition jhash_mix :: "u32 \<times> u32 \<times> u32 \<Rightarrow> u32 \<times> u32 \<times> u32" where
  "jhash_mix abc =
     (let (a, b, c) = abc;
          a = (a - b - c) XOR drop_bit 13 c;
          b = (b - c - a) XOR push_bit 8 a;
          c = (c - a - b) XOR drop_bit 13 b;
          a = (a - b - c) XOR drop_bit 12 c;
          b = (b - c - a) XOR push_bit 16 a;
          c = (c - a - b) XOR drop_bit 5 b;
          a = (a - b - c) XOR drop_bit 3 c;
          b = (b - c - a) XOR push_bit 10 a;
          c = (c - a - b) XOR drop_bit 15 b
      in (a, b, c))"

definition le_word :: "byte list \<Rightarrow> nat \<Rightarrow> u32" where
  "le_word k i = ucast (k ! i) + push_bit 8 (ucast (k ! (i + 1))) + push_bit 16 (ucast (k ! (i + 2))) +
     push_bit 24 (ucast (k ! (i + 3)))"

fun jhash_loop :: "u32 \<times> u32 \<times> u32 \<Rightarrow> byte list \<Rightarrow> (u32 \<times> u32 \<times> u32) \<times> byte list" where
  "jhash_loop (a, b, c) k =
     (if length k \<ge> 12
      then jhash_loop (jhash_mix (a + le_word k 0, b + le_word k 4, c + le_word k 8)) (drop 12 k)
      else ((a, b, c), k))"

declare jhash_loop.simps [simp del]

text \<open>The \<^verbatim>\<open>switch\<close> on the remaining length falls through from its entry to the end.\<close>

definition jhash_tail :: "u32 \<times> u32 \<times> u32 \<Rightarrow> byte list \<Rightarrow> u32 \<times> u32 \<times> u32" where
  "jhash_tail abc k =
     (let (a, b, c) = abc; len = length k;
          c = (if len \<ge> 11 then c + push_bit 24 (ucast (k ! 10)) else c);
          c = (if len \<ge> 10 then c + push_bit 16 (ucast (k ! 9)) else c);
          c = (if len \<ge> 9 then c + push_bit 8 (ucast (k ! 8)) else c);
          b = (if len \<ge> 8 then b + push_bit 24 (ucast (k ! 7)) else b);
          b = (if len \<ge> 7 then b + push_bit 16 (ucast (k ! 6)) else b);
          b = (if len \<ge> 6 then b + push_bit 8 (ucast (k ! 5)) else b);
          b = (if len \<ge> 5 then b + ucast (k ! 4) else b);
          a = (if len \<ge> 4 then a + push_bit 24 (ucast (k ! 3)) else a);
          a = (if len \<ge> 3 then a + push_bit 16 (ucast (k ! 2)) else a);
          a = (if len \<ge> 2 then a + push_bit 8 (ucast (k ! 1)) else a);
          a = (if len \<ge> 1 then a + ucast (k ! 0) else a)
      in (a, b, c))"

definition jhash :: "byte list \<Rightarrow> u32 \<Rightarrow> u32 \<Rightarrow> u32 res" where
  "jhash key len initval =
     bindE (mem_read key 0 (unat len)) (\<lambda>k.
       let ((a, b, c), rest) = jhash_loop (JHASH_GOLDEN_RATIO, JHASH_GOLDEN_RATIO, initval) k
       in Inr (snd (snd (jhash_mix (jhash_tail (a, b, c + len) rest)))))"

fun jhash2_loop :: "u32 \<times> u32 \<times> u32 \<Rightarrow> u32 list \<Rightarrow> (u32 \<times> u32 \<times> u32) \<times> u32 list" where
  "jhash2_loop (a, b, c) (k0 # k1 # k2 # k) = jhash2_loop (jhash_mix (a + k0, b + k1, c + k2)) k"
| "jhash2_loop (a, b, c) k = ((a, b, c), k)"

definition jhash2 :: "u32 list \<Rightarrow> u32 \<Rightarrow> u32 \<Rightarrow> u32 res" where
  "jhash2 key len initval =
     bindE (mem_read key 0 (unat len)) (\<lambda>k.
       let ((a, b, c), rest) = jhash2_loop (JHASH_GOLDEN_RATIO, JHASH_GOLDEN_RATIO, initval) k;
           c = c + len * 4;
           b = (if length rest \<ge> 2 then b + rest ! 1 else b);
           a = (if length rest \<ge> 1 then a + rest ! 0 else a)
       in Inr (snd (snd (jhash_mix (a, b, c)))))"

definition jhash_3words :: "u32 \<Rightarrow> u32 \<Rightarrow> u32 \<Rightarrow> u32 \<Rightarrow> u32" where
  "jhash_3words a b c initval =
     snd (snd (jhash_mix (a + JHASH_GOLDEN_RATIO, b + JHASH_GOLDEN_RATIO, c + initval)))"

definition jhash_2words :: "u32 \<Rightarrow> u32 \<Rightarrow> u32 \<Rightarrow> u32" where
  "jhash_2words a b initval = jhash_3words a b 0 initval"

definition jhash_1word :: "u32 \<Rightarrow> u32 \<Rightarrow> u32" where
  "jhash_1word a initval = jhash_3words a 0 0 initval"

text \<open>Whether a plain \<^verbatim>\<open>char\<close> is signed depends on the platform; the bytes are those before the
  terminating zero.\<close>

definition string_hash_make :: "bool \<Rightarrow> byte list \<Rightarrow> u32" where
  "string_hash_make char_signed str =
     foldl (\<lambda>hash c. (hash * 33) XOR (if char_signed then scast c else ucast c)) 0 (takeWhile (\<lambda>c. c \<noteq> 0) str)"

subsection \<open>The table\<close>

definition HASHTABSIZE :: u32 where "HASHTABSIZE = 1024"

record 'a hash_backet =
  backet_key :: u32
  backet_data :: 'a

record ('m, 'a) hash =
  hash_index :: "'a hash_backet list list"
  hash_size :: u32
  hash_key :: "'a \<Rightarrow> 'm \<Rightarrow> (u32 \<times> 'm) res"
  hash_cmp :: "'a \<Rightarrow> 'a \<Rightarrow> 'm \<Rightarrow> bool res"
  hash_count :: u64

definition hash_create_size ::
  "u32 \<Rightarrow> ('a \<Rightarrow> 'm \<Rightarrow> (u32 \<times> 'm) res) \<Rightarrow> ('a \<Rightarrow> 'a \<Rightarrow> 'm \<Rightarrow> bool res) \<Rightarrow> ('m, 'a) hash" where
  "hash_create_size sz key cmp =
     \<lparr>hash_index = replicate (unat sz) [], hash_size = sz, hash_key = key, hash_cmp = cmp, hash_count = 0\<rparr>"

definition hash_create ::
  "('a \<Rightarrow> 'm \<Rightarrow> (u32 \<times> 'm) res) \<Rightarrow> ('a \<Rightarrow> 'a \<Rightarrow> 'm \<Rightarrow> bool res) \<Rightarrow> ('m, 'a) hash" where
  "hash_create key cmp = hash_create_size HASHTABSIZE key cmp"

definition hash_alloc_intern :: "'a \<Rightarrow> 'm \<Rightarrow> ('a option \<times> 'm) res" where
  "hash_alloc_intern arg m = Inr (Some arg, m)"

text \<open>The remainder by a zero size raises an arithmetic exception, which ends the process.\<close>

definition hash_slot :: "('m, 'a) hash \<Rightarrow> u32 \<Rightarrow> nat res" where
  "hash_slot hash key = (if hash_size hash = 0 then Inl Abort else Inr (unat (key mod hash_size hash)))"

fun find_backet ::
  "('a \<Rightarrow> 'a \<Rightarrow> 'm \<Rightarrow> bool res) \<Rightarrow> u32 \<Rightarrow> 'a \<Rightarrow> 'm \<Rightarrow> 'a hash_backet list \<Rightarrow> 'a option res" where
  "find_backet cmp key d m [] = Inr None"
| "find_backet cmp key d m (b # bs) =
     (if backet_key b = key
      then bindE (cmp (backet_data b) d m) (\<lambda>eq. if eq then Inr (Some (backet_data b)) else find_backet cmp key d m bs)
      else find_backet cmp key d m bs)"

definition hash_get ::
  "('m, 'a) hash \<Rightarrow> 'a \<Rightarrow> ('a \<Rightarrow> 'm \<Rightarrow> ('a option \<times> 'm) res) option \<Rightarrow> 'm \<Rightarrow> ('a option \<times> ('m, 'a) hash \<times> 'm) res" where
  "hash_get hash d alloc_func m =
     bindE (hash_key hash d m) (\<lambda>(key, m).
     bindE (hash_slot hash key) (\<lambda>i.
     bindE (aget (hash_index hash) i) (\<lambda>chain.
     bindE (find_backet (hash_cmp hash) key d m chain) (\<lambda>found.
       case found of
         Some e \<Rightarrow> Inr (Some e, hash, m)
       | None \<Rightarrow>
           (case alloc_func of
              None \<Rightarrow> Inr (None, hash, m)
            | Some alloc \<Rightarrow>
                bindE (alloc d m) (\<lambda>(newdata, m).
                  case newdata of
                    None \<Rightarrow> Inr (None, hash, m)
                  | Some e \<Rightarrow>
                      Inr (Some e, hash\<lparr>hash_index := (hash_index hash)[i := \<lparr>backet_key = key, backet_data = e\<rparr> # chain],
                                         hash_count := hash_count hash + 1\<rparr>, m)))))))"

definition hash_lookup :: "('m, 'a) hash \<Rightarrow> 'a \<Rightarrow> 'm \<Rightarrow> ('a option \<times> ('m, 'a) hash \<times> 'm) res" where
  "hash_lookup hash d m = hash_get hash d None m"

fun release_backet ::
  "('a \<Rightarrow> 'a \<Rightarrow> 'm \<Rightarrow> bool res) \<Rightarrow> u32 \<Rightarrow> 'a \<Rightarrow> 'm \<Rightarrow> 'a hash_backet list \<Rightarrow> ('a option \<times> 'a hash_backet list) res" where
  "release_backet cmp key d m [] = Inr (None, [])"
| "release_backet cmp key d m (b # bs) =
     (let next = bindE (release_backet cmp key d m bs) (\<lambda>(ret, bs'). Inr (ret, b # bs'))
      in if backet_key b = key
         then bindE (cmp (backet_data b) d m) (\<lambda>eq. if eq then Inr (Some (backet_data b), bs) else next)
         else next)"

definition hash_release :: "('m, 'a) hash \<Rightarrow> 'a \<Rightarrow> 'm \<Rightarrow> ('a option \<times> ('m, 'a) hash \<times> 'm) res" where
  "hash_release hash d m =
     bindE (hash_key hash d m) (\<lambda>(key, m).
     bindE (hash_slot hash key) (\<lambda>i.
     bindE (aget (hash_index hash) i) (\<lambda>chain.
     bindE (release_backet (hash_cmp hash) key d m chain) (\<lambda>(ret, chain').
       case ret of
         None \<Rightarrow> Inr (None, hash, m)
       | Some e \<Rightarrow>
           Inr (Some e, hash\<lparr>hash_index := (hash_index hash)[i := chain'], hash_count := hash_count hash - 1\<rparr>, m)))))"

text \<open>The iterator reads the successor of a bucket before it calls the function, so a function that
  releases at most the bucket it is given does not disturb the walk over the chain.\<close>

fun iterate_from ::
  "nat \<Rightarrow> nat \<Rightarrow> ('a hash_backet \<Rightarrow> ('m, 'a) hash \<times> 'm \<Rightarrow> (('m, 'a) hash \<times> 'm) res) \<Rightarrow> ('m, 'a) hash \<times> 'm \<Rightarrow>
     (('m, 'a) hash \<times> 'm) res" where
  "iterate_from 0 i func st = Inr st"
| "iterate_from (Suc n) i func st =
     bindE (aget (hash_index (fst st)) i) (\<lambda>chain.
     bindE (foldE (\<lambda>st hb. func hb st) st chain) (\<lambda>st.
       iterate_from n (Suc i) func st))"

definition hash_iterate ::
  "('a hash_backet \<Rightarrow> ('m, 'a) hash \<times> 'm \<Rightarrow> (('m, 'a) hash \<times> 'm) res) \<Rightarrow> ('m, 'a) hash \<times> 'm \<Rightarrow> (('m, 'a) hash \<times> 'm) res" where
  "hash_iterate func st = iterate_from (unat (hash_size (fst st))) 0 func st"

fun clean_from :: "nat \<Rightarrow> nat \<Rightarrow> ('a \<Rightarrow> 'm \<Rightarrow> 'm res) option \<Rightarrow> ('m, 'a) hash \<times> 'm \<Rightarrow> (('m, 'a) hash \<times> 'm) res" where
  "clean_from 0 i free_func st = Inr st"
| "clean_from (Suc n) i free_func (hash, m) =
     bindE (aget (hash_index hash) i) (\<lambda>chain.
     bindE (foldE (\<lambda>m hb. case free_func of None \<Rightarrow> Inr m | Some f \<Rightarrow> f (backet_data hb) m) m chain) (\<lambda>m.
       clean_from n (Suc i) free_func
         (hash\<lparr>hash_index := (hash_index hash)[i := []], hash_count := hash_count hash - of_nat (length chain)\<rparr>, m)))"

definition hash_clean :: "('a \<Rightarrow> 'm \<Rightarrow> 'm res) option \<Rightarrow> ('m, 'a) hash \<times> 'm \<Rightarrow> (('m, 'a) hash \<times> 'm) res" where
  "hash_clean free_func st = clean_from (unat (hash_size (fst st))) 0 free_func st"

subsection \<open>The contract of the callbacks\<close>

text \<open>A key call may change the memory, but not what the callbacks see in it. The table compares two data only when
  their keys are equal, so the comparison needs to decide the equivalence of the table only there.\<close>

definition agree :: "('m \<Rightarrow> 'a \<Rightarrow> bool) \<Rightarrow> ('m \<Rightarrow> 'a \<Rightarrow> u32) \<Rightarrow> ('m \<Rightarrow> 'a \<Rightarrow> 'a \<Rightarrow> bool) \<Rightarrow> 'm \<Rightarrow> 'm \<Rightarrow> bool" where
  "agree valid kv eqv m m' \<longleftrightarrow>
     (\<forall>a. valid m a \<longrightarrow> valid m' a \<and> kv m' a = kv m a \<and> (\<forall>b. valid m b \<longrightarrow> eqv m' a b = eqv m a b))"

lemma agreeD:
  assumes "agree valid kv eqv m m'" "valid m a"
  shows "valid m' a" "kv m' a = kv m a" "valid m b \<Longrightarrow> eqv m' a b = eqv m a b"
  using assms by (auto simp: agree_def)

definition entries :: "('m, 'a) hash \<Rightarrow> 'a set" where
  "entries h = backet_data ` set (concat (hash_index h))"

definition slot_of :: "u32 \<Rightarrow> u32 \<Rightarrow> nat" where
  "slot_of sz k = unat (k mod sz)"

lemma hash_slot_of: "hash_size h \<noteq> 0 \<Longrightarrow> hash_slot h k = Inr (slot_of (hash_size h) k)"
  by (simp add: hash_slot_def slot_of_def)

lemma slot_of_less: "sz \<noteq> 0 \<Longrightarrow> slot_of sz k < unat sz"
  by (simp add: slot_of_def unat_mod unat_gt_0)

lemma length_concat_update:
  "i < length xs \<Longrightarrow> length (concat (xs[i := c])) + length (xs ! i) = length (concat xs) + length c"
proof (induction xs arbitrary: i)
  case (Cons x xs)
  then show ?case by (cases i) auto
qed simp

locale hash_callbacks =
  fixes kf :: "'a \<Rightarrow> 'm \<Rightarrow> (u32 \<times> 'm) res"
    and cf :: "'a \<Rightarrow> 'a \<Rightarrow> 'm \<Rightarrow> bool res"
    and kv :: "'m \<Rightarrow> 'a \<Rightarrow> u32"
    and eqv :: "'m \<Rightarrow> 'a \<Rightarrow> 'a \<Rightarrow> bool"
    and valid :: "'m \<Rightarrow> 'a \<Rightarrow> bool"
  assumes key_call: "valid m a \<Longrightarrow> \<exists>m'. kf a m = Inr (kv m a, m') \<and> agree valid kv eqv m m'"
    and cmp_call: "valid m a \<Longrightarrow> valid m b \<Longrightarrow> kv m a = kv m b \<Longrightarrow> cf a b m = Inr (eqv m a b)"
    and eqv_refl: "valid m a \<Longrightarrow> eqv m a a"
    and eqv_sym: "valid m a \<Longrightarrow> valid m b \<Longrightarrow> eqv m a b \<Longrightarrow> eqv m b a"
    and eqv_trans: "valid m a \<Longrightarrow> valid m b \<Longrightarrow> valid m c \<Longrightarrow> eqv m a b \<Longrightarrow> eqv m b c \<Longrightarrow> eqv m a c"
    and eqv_key: "valid m a \<Longrightarrow> valid m b \<Longrightarrow> eqv m a b \<Longrightarrow> kv m a = kv m b"
begin

definition chain_ok :: "'m \<Rightarrow> u32 \<Rightarrow> nat \<Rightarrow> 'a hash_backet list \<Rightarrow> bool" where
  "chain_ok m sz i chain \<longleftrightarrow>
     (\<forall>b\<in>set chain. valid m (backet_data b) \<and> backet_key b = kv m (backet_data b) \<and> slot_of sz (backet_key b) = i) \<and>
     sorted_wrt (\<lambda>x y. \<not> eqv m (backet_data x) (backet_data y)) chain"

definition table_ok :: "'m \<Rightarrow> ('m, 'a) hash \<Rightarrow> bool" where
  "table_ok m h \<longleftrightarrow> hash_key h = kf \<and> hash_cmp h = cf \<and> hash_size h \<noteq> 0 \<and> length (hash_index h) = unat (hash_size h) \<and>
     hash_count h = of_nat (length (concat (hash_index h))) \<and>
     (\<forall>i < length (hash_index h). chain_ok m (hash_size h) i (hash_index h ! i))"

lemma create_ok: "sz \<noteq> 0 \<Longrightarrow> table_ok m (hash_create_size sz kf cf) \<and> entries (hash_create_size sz kf cf) = {}"
  by (simp add: table_ok_def hash_create_size_def chain_ok_def entries_def)

lemma chain_ok_Cons: "chain_ok m sz i (x # chain) \<longleftrightarrow> valid m (backet_data x) \<and> backet_key x = kv m (backet_data x) \<and>
    slot_of sz (kv m (backet_data x)) = i \<and> (\<forall>y\<in>set chain. \<not> eqv m (backet_data x) (backet_data y)) \<and> chain_ok m sz i chain"
  by (auto simp: chain_ok_def)

lemma chain_ok_valid: "chain_ok m sz i chain \<Longrightarrow> b \<in> set chain \<Longrightarrow> valid m (backet_data b)"
  by (auto simp: chain_ok_def)

lemma chain_agree:
  assumes "chain_ok m sz i chain" "agree valid kv eqv m m'"
  shows "chain_ok m' sz i chain"
  using assms
proof (induction chain)
  case (Cons x chain)
  then have x: "valid m (backet_data x)" "chain_ok m sz i chain" by (simp_all add: chain_ok_Cons)
  have "\<forall>y\<in>set chain. eqv m' (backet_data x) (backet_data y) = eqv m (backet_data x) (backet_data y)"
    using agreeD(3)[OF Cons.prems(2) x(1)] chain_ok_valid[OF x(2)] by blast
  then show ?case using Cons x agreeD(1,2)[OF Cons.prems(2) x(1)] by (simp add: chain_ok_Cons)
qed (simp add: chain_ok_def)

lemma table_agree: "table_ok m h \<Longrightarrow> agree valid kv eqv m m' \<Longrightarrow> table_ok m' h"
  using chain_agree by (auto simp: table_ok_def)

lemma entry_valid: "table_ok m h \<Longrightarrow> e \<in> entries h \<Longrightarrow> valid m e"
proof -
  assume h: "table_ok m h" and "e \<in> entries h"
  then obtain chain b where c: "chain \<in> set (hash_index h)" "b \<in> set chain" "backet_data b = e" by (auto simp: entries_def)
  then obtain i where "i < length (hash_index h)" "chain = hash_index h ! i" by (metis in_set_conv_nth)
  then show ?thesis using h c unfolding table_ok_def chain_ok_def by blast
qed

lemma slot_less: "table_ok m h \<Longrightarrow> slot_of (hash_size h) k < length (hash_index h)"
  by (simp add: table_ok_def slot_of_less)

lemma entry_chain:
  assumes "table_ok m h" "e \<in> entries h"
  shows "\<exists>b\<in>set (hash_index h ! slot_of (hash_size h) (kv m e)). backet_data b = e"
proof -
  obtain i b where i: "i < length (hash_index h)" "b \<in> set (hash_index h ! i)" "backet_data b = e"
  proof -
    obtain chain b where "chain \<in> set (hash_index h)" "b \<in> set chain" "backet_data b = e"
      using assms(2) by (auto simp: entries_def)
    then show ?thesis using that by (auto simp: in_set_conv_nth[of chain])
  qed
  then have "backet_key b = kv m e" "slot_of (hash_size h) (backet_key b) = i"
    using assms(1) i unfolding table_ok_def chain_ok_def by blast+
  then show ?thesis using i by auto
qed

lemma find_none:
  assumes "chain_ok m sz i chain" "valid m a" "\<forall>b\<in>set chain. \<not> eqv m (backet_data b) a"
  shows "find_backet cf (kv m a) a m chain = Inr None"
  using assms by (induction chain) (auto simp: cmp_call chain_ok_Cons)

lemma find_some:
  assumes "chain_ok m sz i chain" "valid m a" "b \<in> set chain" "eqv m (backet_data b) a"
  shows "find_backet cf (kv m a) a m chain = Inr (Some (backet_data b)) \<and>
     (\<exists>chain'. release_backet cf (kv m a) a m chain = Inr (Some (backet_data b), chain') \<and> chain_ok m sz i chain' \<and>
        Suc (length chain') = length chain \<and> backet_data ` set chain' = backet_data ` set chain - {backet_data b})"
  using assms
proof (induction chain)
  case (Cons x chain)
  have val: "valid m (backet_data x)" "\<forall>y\<in>set chain. valid m (backet_data y)"
    and keys: "backet_key x = kv m (backet_data x)" and ok: "chain_ok m sz i chain"
    and dif: "\<forall>y\<in>set chain. \<not> eqv m (backet_data x) (backet_data y)"
    using Cons.prems(1) chain_ok_valid[OF Cons.prems(1)] by (auto simp: chain_ok_Cons)
  show ?case
  proof (cases "b = x")
    case True
    have "backet_data x \<notin> backet_data ` set chain" using dif val eqv_refl by force
    then show ?thesis using True val Cons.prems keys ok eqv_key by (auto simp: cmp_call)
  next
    case False
    then have b: "b \<in> set chain" using Cons.prems(3) by simp
    have "\<not> eqv m (backet_data x) a"
      using dif b val Cons.prems(2,4) eqv_sym eqv_trans by blast
    moreover have "backet_data x \<noteq> backet_data b" using dif b val eqv_refl by force
    moreover obtain chain' where c: "release_backet cf (kv m a) a m chain = Inr (Some (backet_data b), chain')" "chain_ok m sz i chain'"
        "Suc (length chain') = length chain" "backet_data ` set chain' = backet_data ` set chain - {backet_data b}"
        "find_backet cf (kv m a) a m chain = Inr (Some (backet_data b))"
      using Cons.IH[OF ok Cons.prems(2) b Cons.prems(4)] by blast
    moreover have "\<forall>y\<in>set chain'. \<not> eqv m (backet_data x) (backet_data y)"
    proof
      fix y assume "y \<in> set chain'"
      then have "backet_data y \<in> backet_data ` set chain" using c(4) by blast
      then show "\<not> eqv m (backet_data x) (backet_data y)" using dif by auto
    qed
    then have "chain_ok m sz i (x # chain')" using c(2) Cons.prems(1) by (simp add: chain_ok_Cons)
    ultimately show ?thesis using val Cons.prems(2) keys by (auto simp: cmp_call Let_def)
  qed
qed simp

lemma entries_update:
  assumes "table_ok m h" "i < length (hash_index h)" "chain_ok m (hash_size h) i chain"
    "cnt = hash_count h + of_nat (length chain) - of_nat (length (hash_index h ! i))"
  shows "table_ok m (h\<lparr>hash_index := (hash_index h)[i := chain], hash_count := cnt\<rparr>)"
proof -
  from length_concat_update[OF assms(2), of chain]
  have "(of_nat (length (concat ((hash_index h)[i := chain]))) :: u64) + of_nat (length (hash_index h ! i)) =
      of_nat (length (concat (hash_index h))) + of_nat (length chain)"
    by (metis of_nat_add)
  then have "cnt = of_nat (length (concat ((hash_index h)[i := chain])))"
    using assms(1,4) by (simp add: table_ok_def diff_eq_eq)
  moreover have "chain_ok m (hash_size h) j ((hash_index h)[i := chain] ! j)" if "j < length (hash_index h)" for j
    using that assms(1,3) by (cases "j = i") (simp_all add: table_ok_def)
  ultimately show ?thesis using assms(1) by (simp add: table_ok_def)
qed

lemma entry_unique:
  assumes "table_ok m h" "x \<in> entries h" "y \<in> entries h" "eqv m x y"
  shows "x = y"
proof -
  have v: "valid m x" "valid m y" using entry_valid assms by auto
  then have k: "kv m x = kv m y" using eqv_key assms(4) by blast
  let ?i = "slot_of (hash_size h) (kv m x)"
  obtain b c where b: "b \<in> set (hash_index h ! ?i)" "backet_data b = x" and c: "c \<in> set (hash_index h ! ?i)" "backet_data c = y"
    using entry_chain[OF assms(1,2)] entry_chain[OF assms(1,3)] k by auto
  have "chain_ok m (hash_size h) ?i (hash_index h ! ?i)" using assms(1) slot_less[OF assms(1)] by (simp add: table_ok_def)
  from find_some[OF this v(2) b(1)] find_some[OF this v(2) c(1)] show ?thesis
    using b(2) c(2) assms(4) eqv_refl[OF v(2)] by auto
qed

lemma entries_in: "table_ok m h \<Longrightarrow> i < length (hash_index h) \<Longrightarrow> b \<in> set (hash_index h ! i) \<Longrightarrow> backet_data b \<in> entries h"
  unfolding entries_def using nth_mem[of i "hash_index h"] by (auto simp del: nth_mem)

lemma entries_set_update:
  assumes "table_ok m h" "i < length (hash_index h)"
    "backet_data ` set chain = (backet_data ` set (hash_index h ! i) - D) \<union> N"
    "\<forall>j < length (hash_index h). j \<noteq> i \<longrightarrow> backet_data ` set (hash_index h ! j) \<inter> D = {}"
  shows "entries (h\<lparr>hash_index := (hash_index h)[i := chain], hash_count := cnt\<rparr>) = (entries h - D) \<union> N"
proof -
  have e: "backet_data ` set (concat xs) = (\<Union>j<length xs. backet_data ` set (xs ! j))" for xs :: "'a hash_backet list list"
  proof -
    have "set xs = (\<lambda>j. xs ! j) ` {..<length xs}" by (auto simp: set_conv_nth)
    then show ?thesis by (simp add: image_UN)
  qed
  define rest where "rest = (\<Union>j\<in>{..<length (hash_index h)} - {i}. backet_data ` set (hash_index h ! j))"
  have new: "entries (h\<lparr>hash_index := (hash_index h)[i := chain], hash_count := cnt\<rparr>) = backet_data ` set chain \<union> rest"
  proof -
    have "(\<Union>j<length (hash_index h). backet_data ` set ((hash_index h)[i := chain] ! j)) = backet_data ` set chain \<union> rest"
      unfolding rest_def using assms(2) by (auto simp: nth_list_update split: if_splits)
    moreover have "hash_index (h\<lparr>hash_index := (hash_index h)[i := chain], hash_count := cnt\<rparr>) = (hash_index h)[i := chain]" by simp
    ultimately show ?thesis unfolding entries_def by (simp only: e length_list_update)
  qed
  have "(\<Union>j<length (hash_index h). backet_data ` set (hash_index h ! j)) = backet_data ` set (hash_index h ! i) \<union> rest"
    unfolding rest_def using assms(2) by auto
  then have old: "entries h = backet_data ` set (hash_index h ! i) \<union> rest" unfolding entries_def by (simp only: e)
  have "rest \<inter> D = {}" unfolding rest_def using assms(4) by auto
  then show ?thesis unfolding new old assms(3) by blast
qed

lemma table_frame:
  assumes "table_ok m h" "\<And>e. e \<in> entries h \<Longrightarrow> valid m' e \<and> kv m' e = kv m e"
    "\<And>e f. e \<in> entries h \<Longrightarrow> f \<in> entries h \<Longrightarrow> eqv m' e f = eqv m e f"
  shows "table_ok m' h"
proof -
  have "chain_ok m' (hash_size h) i chain" if "chain_ok m (hash_size h) i chain" "backet_data ` set chain \<subseteq> entries h" for i chain
    using that
  proof (induction chain)
    case (Cons x chain)
    have "\<forall>y\<in>set chain. eqv m' (backet_data x) (backet_data y) = eqv m (backet_data x) (backet_data y)"
      using Cons.prems(2) assms(3) by auto
    then show ?case using Cons assms(2)[of "backet_data x"] by (simp add: chain_ok_Cons)
  qed (simp add: chain_ok_def)
  moreover have "backet_data ` set (hash_index h ! i) \<subseteq> entries h" if "i < length (hash_index h)" for i
    using entries_in[OF assms(1) that] by auto
  ultimately show ?thesis using assms(1) by (simp add: table_ok_def)
qed

lemma get_found:
  assumes "table_ok m h" "valid m a" "kf a m = Inr (k, m')" "e \<in> entries h" "eqv m e a"
  shows "hash_get h a alloc m = Inr (Some e, h, m')"
proof -
  obtain m1 where "kf a m = Inr (kv m a, m1)" "agree valid kv eqv m m1" using key_call[OF assms(2)] by blast
  then have k: "k = kv m a" and ag: "agree valid kv eqv m m'" using assms(3) by simp_all
  have e: "valid m e" "kv m e = kv m a" using entry_valid[OF assms(1,4)] eqv_key assms(2,5) by blast+
  note t = table_agree[OF assms(1) ag]
  let ?i = "slot_of (hash_size h) (kv m a)"
  have i: "?i < length (hash_index h)" using slot_less[OF assms(1)] .
  obtain b where b: "b \<in> set (hash_index h ! ?i)" "backet_data b = e" using entry_chain[OF assms(1,4)] e(2) by auto
  have c: "chain_ok m' (hash_size h) ?i (hash_index h ! ?i)" using t i by (simp add: table_ok_def)
  have "find_backet cf (kv m' a) a m' (hash_index h ! ?i) = Inr (Some e)"
    using find_some[OF c agreeD(1)[OF ag assms(2)] b(1)] b(2) assms(5) agreeD(3)[OF ag e(1) assms(2)] by simp
  then show ?thesis using assms(1,3) i k agreeD(2)[OF ag assms(2)]
    by (simp add: hash_get_def table_ok_def hash_slot_of)
qed

lemma get_absent:
  assumes "table_ok m h" "valid m a" "kf a m = Inr (k, m')" "\<forall>e\<in>entries h. \<not> eqv m e a"
  shows "hash_get h a None m = Inr (None, h, m') \<and>
    (alloc a m' = Inr (None, m'') \<longrightarrow> hash_get h a (Some alloc) m = Inr (None, h, m'')) \<and>
    (alloc a m' = Inr (Some e, m'') \<longrightarrow> agree valid kv eqv m' m'' \<longrightarrow> valid m'' e \<longrightarrow> kv m'' e = kv m' a \<longrightarrow>
      (\<forall>x\<in>entries h. \<not> eqv m'' e x) \<longrightarrow>
      (\<exists>h'. hash_get h a (Some alloc) m = Inr (Some e, h', m'') \<and> table_ok m'' h' \<and> entries h' = insert e (entries h) \<and>
        hash_count h' = hash_count h + 1))"
proof -
  obtain m1 where "kf a m = Inr (kv m a, m1)" "agree valid kv eqv m m1" using key_call[OF assms(2)] by blast
  then have k: "k = kv m a" and ag: "agree valid kv eqv m m'" using assms(3) by simp_all
  note t = table_agree[OF assms(1) ag]
  let ?i = "slot_of (hash_size h) (kv m a)"
  have i: "?i < length (hash_index h)" using slot_less[OF assms(1)] .
  let ?c = "hash_index h ! ?i"
  have c: "chain_ok m' (hash_size h) ?i ?c" using t i by (simp add: table_ok_def)
  have "\<forall>b\<in>set ?c. valid m' (backet_data b) \<and> \<not> eqv m' (backet_data b) a"
    using chain_ok_valid[OF c] entries_in[OF assms(1) i] entry_valid[OF assms(1)] assms(2,4) agreeD(3)[OF ag] by blast
  then have f: "find_backet cf k a m' ?c = Inr None"
    using find_none[OF c agreeD(1)[OF ag assms(2)]] agreeD(2)[OF ag assms(2)] k by simp
  have h: "hash_key h = kf" "hash_cmp h = cf" "hash_size h \<noteq> 0" using assms(1) by (simp_all add: table_ok_def)
  note get = hash_get_def assms(3) h hash_slot_of[OF h(3)] i f k
  have new: "\<exists>h'. hash_get h a (Some alloc) m = Inr (Some e, h', m'') \<and> table_ok m'' h' \<and> entries h' = insert e (entries h) \<and>
        hash_count h' = hash_count h + 1"
    if "alloc a m' = Inr (Some e, m'')" "agree valid kv eqv m' m''" "valid m'' e" "kv m'' e = kv m' a" "\<forall>x\<in>entries h. \<not> eqv m'' e x"
  proof -
    let ?b = "\<lparr>backet_key = k, backet_data = e\<rparr>"
    let ?h = "h\<lparr>hash_index := (hash_index h)[?i := ?b # ?c], hash_count := hash_count h + 1\<rparr>"
    have "chain_ok m'' (hash_size h) ?i (?b # ?c)"
      using chain_agree[OF c that(2)] that(3,4,5) k agreeD(2)[OF ag assms(2)] entries_in[OF assms(1) i] by (simp add: chain_ok_Cons)
    then have "table_ok m'' ?h"
      using entries_update[OF table_agree[OF t that(2)] i, of "?b # ?c" "hash_count h + 1"] by simp
    moreover have "entries ?h = insert e (entries h)"
      using entries_set_update[OF assms(1) i, of "?b # ?c" "{}" "{e}"] by simp
    moreover have "hash_get h a (Some alloc) m = Inr (Some e, ?h, m'')" using f that(1) by (simp add: get)
    ultimately show ?thesis by auto
  qed
  show ?thesis using new f by (simp add: get)
qed

lemma release_found:
  assumes "table_ok m h" "valid m a" "kf a m = Inr (k, m')" "e \<in> entries h" "eqv m e a"
  shows "\<exists>h'. hash_release h a m = Inr (Some e, h', m') \<and> table_ok m' h' \<and> entries h' = entries h - {e} \<and>
    hash_count h' = hash_count h - 1"
proof -
  obtain m1 where "kf a m = Inr (kv m a, m1)" "agree valid kv eqv m m1" using key_call[OF assms(2)] by blast
  then have k: "k = kv m a" and ag: "agree valid kv eqv m m'" using assms(3) by simp_all
  have e: "valid m e" "kv m e = kv m a" using entry_valid[OF assms(1,4)] eqv_key assms(2,5) by blast+
  note t = table_agree[OF assms(1) ag]
  let ?i = "slot_of (hash_size h) (kv m a)"
  have i: "?i < length (hash_index h)" using slot_less[OF assms(1)] .
  obtain b where b: "b \<in> set (hash_index h ! ?i)" "backet_data b = e" using entry_chain[OF assms(1,4)] e(2) by auto
  have c: "chain_ok m' (hash_size h) ?i (hash_index h ! ?i)" using t i by (simp add: table_ok_def)
  obtain chain' where r: "release_backet cf (kv m' a) a m' (hash_index h ! ?i) = Inr (Some e, chain')" "chain_ok m' (hash_size h) ?i chain'"
     "Suc (length chain') = length (hash_index h ! ?i)" "backet_data ` set chain' = backet_data ` set (hash_index h ! ?i) - {e}"
    using find_some[OF c agreeD(1)[OF ag assms(2)] b(1)] b(2) assms(5) agreeD(3)[OF ag e(1) assms(2)] by auto
  let ?h = "h\<lparr>hash_index := (hash_index h)[?i := chain'], hash_count := hash_count h - 1\<rparr>"
  have "table_ok m' ?h"
    using entries_update[OF t i r(2), of "hash_count h - 1"] r(3)[symmetric] by simp
  moreover have "entries ?h = entries h - {e}"
  proof -
    have "backet_data ` set (hash_index h ! j) \<inter> {e} = {}" if j: "j < length (hash_index h)" "j \<noteq> ?i" for j
    proof -
      have "backet_data x \<noteq> e" if "x \<in> set (hash_index h ! j)" for x
        using assms(1) j e(2) that unfolding table_ok_def chain_ok_def by metis
      then show ?thesis by auto
    qed
    then show ?thesis using entries_set_update[OF assms(1) i, of chain' "{e}" "{}"] r(4) by simp
  qed
  moreover have "hash_release h a m = Inr (Some e, ?h, m')"
    using r(1) assms(1,3) i k agreeD(2)[OF ag assms(2)] by (simp add: hash_release_def table_ok_def hash_slot_of)
  ultimately show ?thesis by auto
qed

end

subsection \<open>The word hash\<close>

text \<open>The four octets of a word, lowest first.\<close>

definition le_bytes :: "u32 \<Rightarrow> byte list" where
  "le_bytes w = [ucast w, ucast (drop_bit 8 w), ucast (drop_bit 16 w), ucast (drop_bit 24 w)]"

lemma le_bytes_length [simp]: "length (le_bytes w) = 4" "length (concat (map le_bytes ws)) = 4 * length ws"
  by (simp_all add: le_bytes_def length_concat comp_def sum_list_triv)

lemma le_sum:
  fixes w :: u32
  shows "ucast (ucast w :: byte) + push_bit 8 (ucast (ucast (drop_bit 8 w) :: byte)) +
     push_bit 16 (ucast (ucast (drop_bit 16 w) :: byte)) + push_bit 24 (ucast (ucast (drop_bit 24 w) :: byte)) = w"
proof -
  have "(ucast (ucast w :: byte) :: u32) + push_bit 8 (ucast (ucast (drop_bit 8 w) :: byte)) =
      ucast (ucast w :: byte) OR push_bit 8 (ucast (ucast (drop_bit 8 w) :: byte))" (is "?s1 = ?o1")
    by (rule disjunctive_add_eq_or, rule bit_word_eqI) (auto simp: bit_and_iff bit_byte_of_word bit_low_byte)
  moreover have "?o1 + push_bit 16 (ucast (ucast (drop_bit 16 w) :: byte)) = ?o1 OR push_bit 16 (ucast (ucast (drop_bit 16 w) :: byte))" (is "?s2 = ?o2")
    by (rule disjunctive_add_eq_or, rule bit_word_eqI) (auto simp: bit_and_iff bit_or_iff bit_byte_of_word bit_low_byte)
  moreover have "?o2 + push_bit 24 (ucast (ucast (drop_bit 24 w) :: byte)) = ?o2 OR push_bit 24 (ucast (ucast (drop_bit 24 w) :: byte))" (is "?s3 = ?o3")
    by (rule disjunctive_add_eq_or, rule bit_word_eqI) (auto simp: bit_and_iff bit_or_iff bit_byte_of_word bit_low_byte)
  moreover have "?o3 = w"
    by (rule bit_word_eqI) (auto simp: bit_or_iff bit_byte_of_word bit_low_byte)
  ultimately show ?thesis by simp
qed

lemma le_word_bytes:
  "le_word (le_bytes w @ k) 0 = w"
  "le_word (le_bytes v @ le_bytes w @ k) 4 = w"
  "le_word (le_bytes u @ le_bytes v @ le_bytes w @ k) 8 = w"
  by (simp_all add: le_word_def le_bytes_def le_sum)

lemma loop_words:
  "fst (jhash_loop s (concat (map le_bytes ws))) = fst (jhash2_loop s ws) \<and>
   snd (jhash_loop s (concat (map le_bytes ws))) = concat (map le_bytes (snd (jhash2_loop s ws))) \<and>
   length (snd (jhash2_loop s ws)) < 3"
proof (induction s ws rule: jhash2_loop.induct)
  case (1 a b c k0 k1 k2 k)
  have "jhash_loop (a, b, c) (concat (map le_bytes (k0 # k1 # k2 # k))) =
      jhash_loop (jhash_mix (a + k0, b + k1, c + k2)) (concat (map le_bytes k))"
    by (subst jhash_loop.simps) (simp add: le_word_bytes)
  then show ?case using 1 by simp
qed (simp_all add: jhash_loop.simps)

lemma tail_words:
  "length ws < 3 \<Longrightarrow> jhash_tail (a, b, c) (concat (map le_bytes ws)) =
     (if length ws \<ge> 1 then a + ws ! 0 else a, if length ws \<ge> 2 then b + ws ! 1 else b, c)"
proof -
  assume "length ws < 3"
  then consider "ws = []" | w where "ws = [w]" | v w where "ws = [v, w]"
    by (cases ws; cases "tl ws"; auto simp: length_Suc_conv)
  then show ?thesis
  proof cases
    case 1
    then show ?thesis by (simp add: jhash_tail_def)
  next
    case (2 w)
    then show ?thesis using le_sum[of w] by (simp add: jhash_tail_def le_bytes_def algebra_simps)
  next
    case (3 v w)
    then show ?thesis using le_sum[of v] le_sum[of w] by (simp add: jhash_tail_def le_bytes_def algebra_simps)
  qed
qed

text \<open>C34: The hash of an array of words computed by the optimised \<^verbatim>\<open>jhash2\<close> is the hash that the generic
  \<^verbatim>\<open>jhash\<close> computes of its octets in little-endian order.\<close>

theorem jhash2_is_jhash:
  assumes "4 * length ws < 2 ^ 32"
  shows "jhash2 ws (of_nat (length ws)) initval =
    jhash (concat (map le_bytes ws)) (of_nat (4 * length ws)) initval"
proof -
  have len: "unat (of_nat (length ws) :: u32) = length ws" "unat (of_nat (4 * length ws) :: u32) = 4 * length ws"
    using assms by (simp_all only: unat_of_nat) simp_all
  obtain a b c r where l2: "jhash2_loop (JHASH_GOLDEN_RATIO, JHASH_GOLDEN_RATIO, initval) ws = ((a, b, c), r)" by (metis prod.collapse)
  note w = loop_words[of "(JHASH_GOLDEN_RATIO, JHASH_GOLDEN_RATIO, initval)" ws, unfolded l2]
  then have l1: "jhash_loop (JHASH_GOLDEN_RATIO, JHASH_GOLDEN_RATIO, initval) (concat (map le_bytes ws)) =
      ((a, b, c), concat (map le_bytes r))"
    by (simp add: prod_eq_iff)
  have "(of_nat (4 * length ws) :: u32) = of_nat (length ws) * 4" by simp
  then show ?thesis unfolding jhash_def jhash2_def mem_read_def len
    using tail_words[of r a b] w by (simp add: l1 l2 Let_def mult.commute)
qed

theorem jhash2_is_jhash_witness:
  "jhash2 [1, 2, 3, 0xdeadbeef] 4 7 = jhash (concat (map le_bytes [1, 2, 3, 0xdeadbeef])) 16 7"
  using jhash2_is_jhash[of "[1, 2, 3, 0xdeadbeef]" 7] by simp

end
