(* ===== verification/Bgp_Intern.thy ===== *)
theory Bgp_Intern
  imports Bgp_Aspath Hash
begin

text \<open>
  The table of interned AS paths of \<^verbatim>\<open>bgpd/bgp_aspath.c\<close>: one shared, reference-counted structure for all
  equal paths. AS path structures live in a memory of cells; an address that holds no cell is free, and an
  access through it a fault.
\<close>

subsection \<open>Memory\<close>

record as_mem =
  as_cell :: "nat \<Rightarrow> aspath option"
  as_brk :: nat

definition as_get :: "as_mem \<Rightarrow> nat \<Rightarrow> aspath res" where
  "as_get m p = (case as_cell m p of None \<Rightarrow> Inl NullDeref | Some a \<Rightarrow> Inr a)"

definition as_set :: "as_mem \<Rightarrow> nat \<Rightarrow> aspath option \<Rightarrow> as_mem" where
  "as_set m p a = m\<lparr>as_cell := (as_cell m)(p := a)\<rparr>"

definition as_alloc :: "as_mem \<Rightarrow> aspath \<Rightarrow> nat \<times> as_mem" where
  "as_alloc m a = (as_brk m, (as_set m (as_brk m) (Some a))\<lparr>as_brk := as_brk m + 1\<rparr>)"

definition aspath_free :: "nat \<Rightarrow> as_mem \<Rightarrow> as_mem res" where
  "aspath_free p m = bindE (as_get m p) (\<lambda>_. Inr (as_set m p None))"

subsection \<open>The table\<close>

type_synonym as_hash = "(as_mem, nat) hash"

definition aspath_key_make :: "nat \<Rightarrow> as_mem \<Rightarrow> (u32 \<times> as_mem) res" where
  "aspath_key_make p m =
     bindE (as_get m p) (\<lambda>a.
     bindE (if str a = None then aspath_str_update a else Inr a) (\<lambda>a.
       case str a of
         None \<Rightarrow> Inl NullDeref
       | Some s \<Rightarrow>
           bindE (jhash (map of_char s) (of_nat (length s)) 2334325) (\<lambda>key.
             Inr (key, as_set m p (Some a)))))"

definition aspath_cmp_at :: "nat \<Rightarrow> nat \<Rightarrow> as_mem \<Rightarrow> bool res" where
  "aspath_cmp_at p q m = bindE (as_get m p) (\<lambda>a. bindE (as_get m q) (\<lambda>b. Inr (aspath_cmp a b)))"

definition aspath_init :: as_hash where
  "aspath_init = hash_create_size 32767 aspath_key_make aspath_cmp_at"

definition aspath_hash_alloc :: "nat \<Rightarrow> as_mem \<Rightarrow> (nat option \<times> as_mem) res" where
  "aspath_hash_alloc arg m =
     bindE (as_get m arg) (\<lambda>a.
     bindE (aspath_dup a) (\<lambda>new.
       if str new = None then Inr (None, m)
       else let (q, m) = as_alloc m new in Inr (Some q, m)))"

definition aspath_intern :: "as_hash \<Rightarrow> nat \<Rightarrow> as_mem \<Rightarrow> (nat \<times> as_hash \<times> as_mem) res" where
  "aspath_intern ashash p m =
     bindE (as_get m p) (\<lambda>a.
     bindE (assertE (refcnt a = 0)) (\<lambda>_.
     bindE (hash_get ashash p (Some hash_alloc_intern) m) (\<lambda>(find, ashash, m).
     bindE (if find \<noteq> Some p then aspath_free p m else Inr m) (\<lambda>m.
       case find of
         None \<Rightarrow> Inl NullDeref
       | Some f \<Rightarrow>
           bindE (as_get m f) (\<lambda>b.
             let b = b\<lparr>refcnt := refcnt b + 1\<rparr>
             in bindE (if str b = None then aspath_str_update b else Inr b) (\<lambda>b.
                  Inr (f, ashash, as_set m f (Some b))))))))"

text \<open>The second component is the pointer of the caller, cleared when the path is gone.\<close>

definition aspath_unintern :: "as_hash \<Rightarrow> nat \<Rightarrow> as_mem \<Rightarrow> (nat option \<times> as_hash \<times> as_mem) res" where
  "aspath_unintern ashash p m =
     bindE (as_get m p) (\<lambda>a.
       let a = (if refcnt a \<noteq> 0 then a\<lparr>refcnt := refcnt a - 1\<rparr> else a);
           m = as_set m p (Some a)
       in if refcnt a = 0
          then bindE (hash_release ashash p m) (\<lambda>(ret, ashash, m).
               bindE (assertE (ret \<noteq> None)) (\<lambda>_.
               bindE (aspath_free p m) (\<lambda>m.
                 Inr (None, ashash, m))))
          else Inr (Some p, ashash, m))"

text \<open>The local structure on the stack is a cell that is released before the function returns.\<close>

definition aspath_parse ::
  "stream \<Rightarrow> nat \<Rightarrow> bool \<Rightarrow> as_hash \<Rightarrow> as_mem \<Rightarrow> (nat option \<times> stream \<times> as_hash \<times> as_mem) res" where
  "aspath_parse s len use32bit ashash m =
     (if len mod AS16_VALUE_SIZE \<noteq> 0 then Inr (None, s, ashash, m)
      else bindE (assegments_parse s len use32bit) (\<lambda>(segs, s).
        case segs of
          None \<Rightarrow> Inr (None, s, ashash, m)
        | Some segs \<Rightarrow>
            let (tmp, m) = as_alloc m (aspath_new\<lparr>segments := segs\<rparr>)
            in bindE (hash_get ashash tmp (Some aspath_hash_alloc) m) (\<lambda>(find, ashash, m).
                 let m = as_set m tmp None
                 in case find of
                      None \<Rightarrow> Inr (None, s, ashash, m)
                    | Some f \<Rightarrow>
                        bindE (as_get m f) (\<lambda>b.
                          Inr (Some f, s, ashash, as_set m f (Some (b\<lparr>refcnt := refcnt b + 1\<rparr>)))))))"

subsection \<open>What the callbacks see\<close>

definition path_key :: "string \<Rightarrow> u32" where
  "path_key s = (case jhash (map of_char s) (of_nat (length s)) 2334325 of Inr k \<Rightarrow> k | Inl _ \<Rightarrow> 0)"

definition fit_path :: "aspath \<Rightarrow> bool" where
  "fit_path a \<longleftrightarrow> (\<forall>seg\<in>set (segments a). known_type (seg_type seg))"

text \<open>The string a path is hashed by: the one it carries, whether or not it is the text of the segments, and the
  text of the segments when it carries none.\<close>

definition path_str :: "aspath \<Rightarrow> string" where
  "path_str a = (case str a of None \<Rightarrow> path_text (segments a) | Some s \<Rightarrow> s)"

definition as_valid :: "as_mem \<Rightarrow> nat \<Rightarrow> bool" where
  "as_valid m p \<longleftrightarrow> (case as_cell m p of None \<Rightarrow> False | Some a \<Rightarrow> fit_path a)"

definition as_segs :: "as_mem \<Rightarrow> nat \<Rightarrow> assegment list" where
  "as_segs m p = (case as_cell m p of None \<Rightarrow> [] | Some a \<Rightarrow> segments a)"

definition as_key :: "as_mem \<Rightarrow> nat \<Rightarrow> u32" where
  "as_key m p = (case as_cell m p of None \<Rightarrow> 0 | Some a \<Rightarrow> path_key (path_str a))"

definition as_eqv :: "as_mem \<Rightarrow> nat \<Rightarrow> nat \<Rightarrow> bool" where
  "as_eqv m p q \<longleftrightarrow> as_segs m p = as_segs m q \<and> as_key m p = as_key m q"

lemma jhash_string: "jhash (map of_char s) (of_nat (length s)) 2334325 = Inr (path_key s)"
proof -
  have "unat (of_nat (length s) :: u32) \<le> length (map of_char s :: byte list)" by (simp add: unat_of_nat)
  then have "\<exists>k. jhash (map of_char s) (of_nat (length s)) 2334325 = Inr k"
    by (auto simp: jhash_def mem_read_def Let_def split: prod.splits)
  then show ?thesis by (auto simp: path_key_def)
qed

lemma as_mem_simps [simp]:
  "as_cell (as_set m p a) = (as_cell m)(p := a)"
  "as_brk (as_set m p a) = as_brk m"
  by (simp_all add: as_set_def)

lemma as_validE:
  assumes "as_valid m p"
  obtains a where "as_cell m p = Some a" "fit_path a" "as_segs m p = segments a" "as_get m p = Inr a"
  using assms by (auto simp: as_valid_def as_segs_def as_get_def split: option.splits)

definition with_str :: "aspath \<Rightarrow> aspath" where
  "with_str a = a\<lparr>str := Some (path_str a)\<rparr>"

lemma with_str_simps [simp]: "segments (with_str a) = segments a" "refcnt (with_str a) = refcnt a"
  "str (with_str a) = Some (path_str a)" "path_str (with_str a) = path_str a" "fit_path a \<Longrightarrow> fit_path (with_str a)"
  by (simp_all add: with_str_def fit_path_def path_str_def)

lemma str_update_fit: "fit_path a \<Longrightarrow> (if str a = None then aspath_str_update a else Inr a) = Inr (with_str a)"
  using str_update_ok[of a] by (auto simp: fit_path_def with_str_def path_str_def)

lemma key_make_ok:
  assumes "as_cell m p = Some a" "fit_path a"
  shows "aspath_key_make p m = Inr (as_key m p, as_set m p (Some (with_str a)))"
  using assms str_update_fit[OF assms(2)] jhash_string[of "path_str a"]
  by (simp add: aspath_key_make_def as_get_def as_key_def)

lemma agree_with_str:
  assumes "as_cell m p = Some a" "fit_path a"
  shows "agree as_valid as_key as_eqv m (as_set m p (Some (with_str a)))"
  using assms by (auto simp: agree_def as_valid_def as_key_def as_eqv_def as_segs_def)

interpretation as_table: hash_callbacks aspath_key_make aspath_cmp_at as_key as_eqv as_valid
proof
  fix m p
  assume "as_valid m p"
  then show "\<exists>m'. aspath_key_make p m = Inr (as_key m p, m') \<and> agree as_valid as_key as_eqv m m'"
    using key_make_ok agree_with_str by (metis as_validE)
next
  fix m p q
  assume "as_valid m p" "as_valid m q" "as_key m p = as_key m q"
  then show "aspath_cmp_at p q m = Inr (as_eqv m p q)"
    by (auto simp: aspath_cmp_at_def as_eqv_def aspath_cmp_def segs_cmp_eq elim!: as_validE)
qed (auto simp: as_eqv_def)

subsection \<open>Reachable tables\<close>

text \<open>A state is the memory, the table and the multiset of the references handed out. Paths are built by
  the parsers and the operations on paths, interned, and released by the holder of a reference. A path that is
  built has segments of the known types and any string, also one that is not the text of its segments.\<close>

type_synonym as_state = "as_mem \<times> as_hash \<times> nat multiset"

inductive as_step :: "as_state \<Rightarrow> as_state \<Rightarrow> bool" where
  build: "refcnt a = 0 \<Longrightarrow> fit_path a \<Longrightarrow> as_step (m, h, H) (snd (as_alloc m a), h, H)"
| intern: "as_cell m p = Some a \<Longrightarrow> refcnt a = 0 \<Longrightarrow>
    aspath_intern h p m = Inr (f, h', m') \<Longrightarrow> as_step (m, h, H) (m', h', add_mset f H)"
| parse: "stream_ok s \<Longrightarrow> len < 131072 \<Longrightarrow> aspath_parse s len use32bit h m = Inr (r, s', h', m') \<Longrightarrow>
    as_step (m, h, H) (m', h', (case r of None \<Rightarrow> H | Some f \<Rightarrow> add_mset f H))"
| unintern: "p \<in># H \<Longrightarrow> aspath_unintern h p m = Inr (r, h', m') \<Longrightarrow> as_step (m, h, H) (m', h', H - {#p#})"

inductive as_reachable :: "as_state \<Rightarrow> bool" where
  init: "as_reachable (\<lparr>as_cell = (\<lambda>_. None), as_brk = 0\<rparr>, aspath_init, {#})"
| step: "as_reachable st \<Longrightarrow> as_step st st' \<Longrightarrow> as_reachable st'"

definition as_inv :: "as_state \<Rightarrow> bool" where
  "as_inv st = (case st of (m, h, H) \<Rightarrow>
     as_table.table_ok m h \<and> entries h = set_mset H \<and>
     (\<forall>p a. as_cell m p = Some a \<longrightarrow> p < as_brk m \<and> fit_path a \<and> refcnt a = count H p) \<and>
     (\<forall>p\<in>#H. \<exists>a. as_cell m p = Some a \<and> str a \<noteq> None))"

lemma as_invD:
  assumes "as_inv (m, h, H)"
  shows "as_table.table_ok m h" "entries h = set_mset H"
    "as_cell m p = Some a \<Longrightarrow> p < as_brk m \<and> fit_path a \<and> refcnt a = count H p"
    "p \<in># H \<Longrightarrow> \<exists>a. as_cell m p = Some a \<and> str a \<noteq> None"
  using assms by (auto simp: as_inv_def)

lemma as_invI:
  assumes "as_table.table_ok m h" "entries h = set_mset H"
    "\<forall>p a. as_cell m p = Some a \<longrightarrow> p < as_brk m \<and> fit_path a \<and> refcnt a = count H p"
    "\<forall>p\<in>#H. \<exists>a. as_cell m p = Some a \<and> str a \<noteq> None"
  shows "as_inv (m, h, H)"
  using assms by (simp add: as_inv_def)

lemma in_release: "x \<in># H - {#p#} \<longleftrightarrow> (if x = p then 2 \<le> count H p else x \<in># H)"
proof (cases "x = p")
  case True
  then show ?thesis by (simp only: in_diff_count count_single) auto
next
  case False
  then have "count {#p#} x = 0" by simp
  then show ?thesis using False by (simp only: in_diff_count count_greater_zero_iff if_False)
qed

lemma agree_refcnt:
  assumes "as_cell m p = Some a" "segments b = segments a" "path_str b = path_str a" "fit_path b"
  shows "agree as_valid as_key as_eqv m (as_set m p (Some b))"
  using assms by (auto simp: agree_def as_valid_def as_key_def as_eqv_def as_segs_def)

lemma agree_fresh:
  assumes "as_cell m p = None"
  shows "agree as_valid as_key as_eqv m (as_set m p a)" "agree as_valid as_key as_eqv m (m\<lparr>as_brk := n\<rparr>)"
  using assms by (auto simp: agree_def as_valid_def as_key_def as_eqv_def as_segs_def)

lemma table_cells:
  assumes "as_table.table_ok m h"
    "\<And>e. e \<in> entries h \<Longrightarrow> \<exists>a b. as_cell m e = Some a \<and> as_cell m' e = Some b \<and> segments b = segments a \<and> path_str b = path_str a \<and> fit_path b"
  shows "as_table.table_ok m' h"
proof (rule as_table.table_frame[OF assms(1)])
  have segs: "as_segs m' e = as_segs m e" if "e \<in> entries h" for e
    using assms(2)[OF that] by (auto simp: as_segs_def)
  have key: "as_key m' e = as_key m e" if "e \<in> entries h" for e
    using assms(2)[OF that] by (auto simp: as_key_def)
  show "as_valid m' e \<and> as_key m' e = as_key m e" if "e \<in> entries h" for e
    using assms(2)[OF that] key[OF that] by (auto simp: as_valid_def)
  show "as_eqv m' e f = as_eqv m e f" if "e \<in> entries h" "f \<in> entries h" for e f
    using segs key that by (simp add: as_eqv_def)
qed

lemma fit_refcnt [simp]: "fit_path (a\<lparr>refcnt := n\<rparr>) = fit_path a" "with_str (a\<lparr>refcnt := n\<rparr>) = (with_str a)\<lparr>refcnt := n\<rparr>"
  "path_str (a\<lparr>refcnt := n\<rparr>) = path_str a"
  by (simp_all add: fit_path_def with_str_def path_str_def split: option.split)

lemma with_str_same: "str a \<noteq> None \<Longrightarrow> with_str a = a"
  by (auto simp: path_str_def with_str_def)

text \<open>One more reference to an entry of the table.\<close>

lemma bump_inv:
  assumes "as_table.table_ok m h" "entries h = insert f (set_mset H)"
    "\<forall>p a. as_cell m p = Some a \<longrightarrow> p < as_brk m \<and> fit_path a \<and> refcnt a = count H p"
    "\<forall>p\<in>#add_mset f H. \<exists>a. as_cell m p = Some a \<and> str a \<noteq> None" "as_cell m f = Some b"
  shows "as_inv (as_set m f (Some (b\<lparr>refcnt := refcnt b + 1\<rparr>)), h, add_mset f H)"
proof -
  have "as_table.table_ok (as_set m f (Some (b\<lparr>refcnt := refcnt b + 1\<rparr>))) h"
  proof (rule table_cells[OF assms(1)])
    fix e assume "e \<in> entries h"
    then obtain a where "as_cell m e = Some a" using assms(2,4) by auto
    then show "\<exists>a b'. as_cell m e = Some a \<and> as_cell (as_set m f (Some (b\<lparr>refcnt := refcnt b + 1\<rparr>))) e = Some b' \<and>
        segments b' = segments a \<and> path_str b' = path_str a \<and> fit_path b'"
      using assms(3,5) by (cases "e = f") auto
  qed
  then show ?thesis using assms(2-5) by (auto simp: as_inv_def)
qed

lemma key_result: "as_cell m p = Some a \<Longrightarrow> fit_path a \<Longrightarrow> as_valid m p \<and> as_segs m p = segments a"
  by (simp add: as_valid_def as_segs_def)

lemma as_inv_valid: "as_inv (m, h, H) \<Longrightarrow> p \<in># H \<Longrightarrow> \<exists>a. as_cell m p = Some a \<and> fit_path a \<and> as_segs m p = segments a"
  using as_invD(3,4)[of m h H p] by (auto simp: as_segs_def)

text \<open>The key of a path in the table is made from the string it carries, and the call changes nothing.\<close>

lemma key_held:
  assumes "as_inv (m, h, H)" "p \<in># H"
  shows "\<exists>a. as_cell m p = Some a \<and> fit_path a \<and> as_segs m p = segments a \<and> aspath_key_make p m = Inr (as_key m p, m)"
proof -
  obtain a where a: "as_cell m p = Some a" "str a \<noteq> None" using as_invD(4)[OF assms] by blast
  have "as_set m p (Some a) = m" using a(1) by (simp add: as_set_def fun_upd_idem)
  then show ?thesis using a key_make_ok[OF a(1)] as_invD(3)[OF assms(1) a(1)] with_str_same[OF a(2)] by (simp add: as_segs_def)
qed

lemma intern_ok:
  assumes inv: "as_inv (m, h, H)" and a: "as_cell m p = Some a" "refcnt a = 0"
  shows "\<exists>f h' m'. aspath_intern h p m = Inr (f, h', m') \<and> as_inv (m', h', add_mset f H) \<and> as_segs m' f = segments a \<and>
     (f \<in># H \<longleftrightarrow> (\<exists>e\<in>#H. as_eqv m e p)) \<and> as_key m' f = as_key m p \<and>
     (\<forall>e\<in>#H. as_segs m' e = as_segs m e \<and> as_key m' e = as_key m e) \<and> (f \<noteq> p \<longrightarrow> as_cell m' p = None)"
proof -
  have fit: "fit_path a" and pH: "p \<notin># H" and brk: "p < as_brk m"
    using as_invD(3)[OF inv a(1)] a(2) by (auto simp: not_in_iff)
  note key = key_make_ok[OF a(1) fit] and v = key_result[OF a(1) fit]
  let ?m1 = "as_set m p (Some (with_str a))"
  note inv_cells = as_invD(3)[OF inv]
  show ?thesis
  proof (cases "\<exists>e\<in>#H. as_eqv m e p")
    case True
    then obtain e where e: "e \<in># H" "as_eqv m e p" by blast
    obtain b where b: "as_cell m e = Some b" "str b \<noteq> None" using as_invD(4)[OF inv e(1)] by blast
    have ep: "e \<noteq> p" using e(1) pH by auto
    have bf: "fit_path b" "segments b = segments a" "path_key (path_str b) = as_key m p"
      using inv_cells[OF b(1)] e(2) b(1) a(1) by (auto simp: as_eqv_def as_segs_def as_key_def)
    have "hash_get h p (Some hash_alloc_intern) m = Inr (Some e, h, ?m1)"
      using as_table.get_found[OF as_invD(1)[OF inv] conjunct1[OF v] key] e as_invD(2)[OF inv] by simp
    then have res: "aspath_intern h p m = Inr (e, h, as_set (as_set ?m1 p None) e (Some (b\<lparr>refcnt := refcnt b + 1\<rparr>)))"
      using a b ep by (auto simp: aspath_intern_def as_get_def aspath_free_def Let_def)
    let ?m2 = "as_set ?m1 p None"
    have "as_table.table_ok ?m2 h"
    proof (rule table_cells[OF as_invD(1)[OF inv]])
      fix x assume "x \<in> entries h"
      then have x: "x \<in># H" using as_invD(2)[OF inv] by simp
      then have "x \<noteq> p" using pH by auto
      then show "\<exists>a b. as_cell m x = Some a \<and> as_cell ?m2 x = Some b \<and> segments b = segments a \<and> path_str b = path_str a \<and> fit_path b"
        using as_inv_valid[OF inv x] by auto
    qed
    then have "as_inv (as_set ?m2 e (Some (b\<lparr>refcnt := refcnt b + 1\<rparr>)), h, add_mset e H)"
    proof (rule bump_inv)
      show "entries h = insert e (set_mset H)" using as_invD(2)[OF inv] e(1) by auto
      show "\<forall>p a. as_cell ?m2 p = Some a \<longrightarrow> p < as_brk ?m2 \<and> fit_path a \<and> refcnt a = count H p"
        using inv_cells by simp
      show "\<forall>x\<in>#add_mset e H. \<exists>a. as_cell ?m2 x = Some a \<and> str a \<noteq> None"
        using as_invD(4)[OF inv] pH e(1) by auto
    qed (use b ep in simp)
    moreover have "\<forall>x\<in>#H. as_segs ?m2 x = as_segs m x \<and> as_key ?m2 x = as_key m x"
      using pH by (auto simp: as_segs_def as_key_def)
    ultimately show ?thesis using res e bf b True ep by (auto simp: as_segs_def as_key_def)
  next
    case False
    then have none: "\<forall>e\<in>entries h. \<not> as_eqv m e p" using as_invD(2)[OF inv] by auto
    have ag: "agree as_valid as_key as_eqv ?m1 ?m1" by (simp add: agree_def)
    have vm: "as_valid ?m1 p" "as_key ?m1 p = as_key m p" using a fit by (auto simp: as_valid_def as_key_def as_segs_def)
    have "\<forall>x\<in>entries h. \<not> as_eqv ?m1 p x"
      using False as_invD(2)[OF inv] pH a by (auto simp: as_eqv_def as_segs_def as_key_def split: if_splits)
    then obtain h' where h': "hash_get h p (Some hash_alloc_intern) m = Inr (Some p, h', ?m1)" "as_table.table_ok ?m1 h'"
        "entries h' = insert p (entries h)"
      using as_table.get_absent[OF as_invD(1)[OF inv] conjunct1[OF v] key none, of hash_alloc_intern ?m1 p] ag vm
      by (auto simp: hash_alloc_intern_def)
    have res: "aspath_intern h p m = Inr (p, h', as_set ?m1 p (Some ((with_str a)\<lparr>refcnt := refcnt (with_str a) + 1\<rparr>)))"
      using a h'(1) by (simp add: aspath_intern_def as_get_def Let_def)
    have "as_inv (as_set ?m1 p (Some ((with_str a)\<lparr>refcnt := refcnt (with_str a) + 1\<rparr>)), h', add_mset p H)"
    proof (rule bump_inv[OF h'(2)])
      show "entries h' = insert p (set_mset H)" using h'(3) as_invD(2)[OF inv] by simp
      show "\<forall>q b. as_cell ?m1 q = Some b \<longrightarrow> q < as_brk ?m1 \<and> fit_path b \<and> refcnt b = count H q"
        using inv_cells inv_cells[OF a(1)] fit by auto
      show "\<forall>x\<in>#add_mset p H. \<exists>a. as_cell ?m1 x = Some a \<and> str a \<noteq> None"
        using as_invD(4)[OF inv] by auto
    qed simp
    moreover have "\<forall>x\<in>#H. x \<noteq> p" using pH by auto
    ultimately show ?thesis using res pH False a by (auto simp: as_segs_def as_key_def)
  qed
qed

lemma unintern_ok:
  assumes inv: "as_inv (m, h, H)" and p: "p \<in># H"
  shows "\<exists>r h' m'. aspath_unintern h p m = Inr (r, h', m') \<and> as_inv (m', h', H - {#p#}) \<and>
     r = (if count H p = 1 then None else Some p) \<and> (count H p = 1 \<longrightarrow> as_cell m' p = None)"
proof -
  obtain a where a: "as_cell m p = Some a" "str a \<noteq> None" using as_invD(4)[OF inv p] by blast
  have fit: "fit_path a" and cnt: "refcnt a = count H p" using as_invD(3)[OF inv a(1)] by auto
  have pos: "0 < count H p" using p by (simp add: count_greater_zero_iff)
  let ?a = "a\<lparr>refcnt := refcnt a - 1\<rparr>"
  let ?m1 = "as_set m p (Some ?a)"
  have t1: "as_table.table_ok ?m1 h"
    by (rule as_table.table_agree[OF as_invD(1)[OF inv] agree_refcnt[OF a(1)]]) (simp_all add: fit)
  have cells: "\<forall>q b. as_cell ?m1 q = Some b \<longrightarrow> q < as_brk ?m1 \<and> fit_path b \<and> refcnt b = count (H - {#p#}) q"
    using as_invD(3)[OF inv] cnt a(1) by (auto simp: fit)
  show ?thesis
  proof (cases "count H p = 1")
    case False
    then have two: "2 \<le> count H p" using pos by linarith
    have same: "set_mset (H - {#p#}) = set_mset H"
      using p two by (auto simp only: in_release split: if_splits)
    have "as_inv (?m1, h, H - {#p#})"
    proof (rule as_invI[OF t1 _ cells])
      show "entries h = set_mset (H - {#p#})" using as_invD(2)[OF inv] same by simp
      show "\<forall>x\<in>#H - {#p#}. \<exists>b. as_cell ?m1 x = Some b \<and> str b \<noteq> None"
        unfolding same using as_invD(4)[OF inv] a(2) by simp
    qed
    moreover have "aspath_unintern h p m = Inr (Some p, h, ?m1)"
      using two a(1) cnt by (simp add: aspath_unintern_def as_get_def Let_def)
    ultimately show ?thesis using False by auto
  next
    case True
    have c1: "as_cell ?m1 p = Some ?a" "fit_path ?a" by (simp_all add: fit)
    note key = key_make_ok[OF c1] and v = key_result[OF c1]
    let ?m2 = "as_set ?m1 p (Some (with_str ?a))"
    obtain h' where h': "hash_release h p ?m1 = Inr (Some p, h', ?m2)" "as_table.table_ok ?m2 h'" "entries h' = entries h - {p}"
      using as_table.release_found[OF t1 conjunct1[OF v] key, of p] p as_invD(2)[OF inv] by (auto simp: as_eqv_def)
    let ?m3 = "as_set ?m2 p None"
    have H: "set_mset (H - {#p#}) = set_mset H - {p}" 
      using True by (auto simp only: in_release split: if_splits)
    have "as_table.table_ok ?m3 h'"
    proof (rule table_cells[OF h'(2)])
      fix e assume "e \<in> entries h'"
      then have "e \<in># H" "e \<noteq> p" using h'(3) as_invD(2)[OF inv] by auto
      then show "\<exists>a b. as_cell ?m2 e = Some a \<and> as_cell ?m3 e = Some b \<and> segments b = segments a \<and> path_str b = path_str a \<and> fit_path b"
        using as_inv_valid[OF inv] by fastforce
    qed
    then have "as_inv (?m3, h', H - {#p#})"
    proof (rule as_invI)
      show "entries h' = set_mset (H - {#p#})" using h'(3) H as_invD(2)[OF inv] by simp
      show "\<forall>q b. as_cell ?m3 q = Some b \<longrightarrow> q < as_brk ?m3 \<and> fit_path b \<and> refcnt b = count (H - {#p#}) q"
      proof (intro allI impI)
        fix q b assume "as_cell ?m3 q = Some b"
        then have b: "as_cell ?m1 q = Some b" by (simp split: if_splits)
        have "as_brk ?m3 = as_brk ?m1" by simp
        then show "q < as_brk ?m3 \<and> fit_path b \<and> refcnt b = count (H - {#p#}) q" using cells b by metis
      qed
      show "\<forall>x\<in>#H - {#p#}. \<exists>b. as_cell ?m3 x = Some b \<and> str b \<noteq> None"
        unfolding H using as_invD(4)[OF inv] by simp
    qed
    moreover have "aspath_unintern h p m = Inr (None, h', ?m3)"
      using True a(1) cnt h'(1) by (simp add: aspath_unintern_def as_get_def Let_def aspath_free_def)
    ultimately show ?thesis using True by auto
  qed
qed

lemma build_ok:
  assumes "as_inv (m, h, H)" "refcnt a = 0" "fit_path a"
  shows "as_inv (snd (as_alloc m a), h, H) \<and> as_cell (snd (as_alloc m a)) (as_brk m) = Some a \<and> as_brk m \<notin># H"
proof -
  have new: "as_brk m \<notin># H" using as_invD(3,4)[OF assms(1)] by (metis less_irrefl)
  have "as_table.table_ok (snd (as_alloc m a)) h"
  proof (rule table_cells[OF as_invD(1)[OF assms(1)]])
    fix e assume "e \<in> entries h"
    then have "e \<in># H" "e \<noteq> as_brk m" using as_invD(2)[OF assms(1)] new by auto
    then show "\<exists>x b. as_cell m e = Some x \<and> as_cell (snd (as_alloc m a)) e = Some b \<and> segments b = segments x \<and> path_str b = path_str x \<and> fit_path b"
      using as_inv_valid[OF assms(1)] by (fastforce simp: as_alloc_def)
  qed
  moreover have "count H (as_brk m) = 0" using new by (simp add: not_in_iff)
  ultimately show ?thesis using new assms(2,3) as_invD(2-4)[OF assms(1)]
    by (auto simp: as_inv_def as_alloc_def less_Suc_eq dest: less_imp_le)
qed

lemma alloc_case: "(case as_alloc m a of (p, m') \<Rightarrow> f p m') = f (as_brk m) (snd (as_alloc m a))"
  by (simp add: as_alloc_def)

lemma parse_ok:
  assumes inv: "as_inv (m, h, H)" and s: "stream_ok s" "len < 131072"
  shows "\<exists>r s' h' m'. aspath_parse s len use32bit h m = Inr (r, s', h', m') \<and> stream_ok s' \<and>
     as_inv (m', h', case r of None \<Rightarrow> H | Some f \<Rightarrow> add_mset f H)"
proof -
  obtain segs s1 where ps: "assegments_parse s len use32bit = Inr (segs, s1)" "stream_ok s1"
      "\<forall>x. segs = Some x \<longrightarrow> canonical_segs x \<and> wf_segs x"
    using parse_any_ok[OF s] by blast
  show ?thesis
  proof (cases "len mod AS16_VALUE_SIZE \<noteq> 0 \<or> segs = None")
    case True
    then show ?thesis using ps inv s(1) by (auto simp: aspath_parse_def)
  next
    case False
    then obtain x where x: "segs = Some x" "len mod AS16_VALUE_SIZE = 0" by auto
    let ?a = "aspath_new\<lparr>segments := x\<rparr>"
    have fit: "fit_path ?a" "refcnt ?a = 0" using ps(3) x(1) wf_known by (auto simp: fit_path_def aspath_new_def)
    let ?t = "as_brk m"
    define m0 where "m0 = snd (as_alloc m ?a)"
    have inv0: "as_inv (m0, h, H)" and t: "as_cell m0 ?t = Some ?a" "?t \<notin># H" using build_ok[OF inv fit(2,1)] unfolding m0_def by auto
    note key = key_make_ok[OF t(1) fit(1)] and v = key_result[OF t(1) fit(1)]
    let ?m1 = "as_set m0 ?t (Some (with_str ?a))"
    have run: "aspath_parse s len use32bit h m = bindE (hash_get h ?t (Some aspath_hash_alloc) m0) (\<lambda>(find, ashash, m).
        case find of None \<Rightarrow> Inr (None, s1, ashash, as_set m ?t None)
        | Some f \<Rightarrow> bindE (as_get (as_set m ?t None) f) (\<lambda>b.
            Inr (Some f, s1, ashash, as_set (as_set m ?t None) f (Some (b\<lparr>refcnt := refcnt b + 1\<rparr>)))))"
      using x ps(1) by (simp add: aspath_parse_def Let_def alloc_case m0_def)
    have rel: "as_table.table_ok m2 h2 \<Longrightarrow> ?t \<notin> entries h2 \<Longrightarrow> \<forall>e\<in>entries h2. as_valid m2 e \<Longrightarrow>
        as_table.table_ok (as_set m2 ?t None) h2" for m2 h2
      by (rule table_cells) (auto simp: as_valid_def split: option.splits)
    show ?thesis
    proof (cases "\<exists>e\<in>#H. as_eqv m0 e ?t")
      case True
      then obtain e where e: "e \<in># H" "as_eqv m0 e ?t" by blast
      have et: "e \<noteq> ?t" using e t(2) by auto
      obtain b where b: "as_cell m0 e = Some b" "str b \<noteq> None" using as_invD(4)[OF inv0 e(1)] by blast
      have get: "hash_get h ?t (Some aspath_hash_alloc) m0 = Inr (Some e, h, ?m1)"
        using as_table.get_found[OF as_invD(1)[OF inv0] conjunct1[OF v] key] e as_invD(2)[OF inv0] by simp
      let ?m2 = "as_set ?m1 ?t None"
      have "as_table.table_ok ?m1 h"
        by (rule as_table.table_agree[OF as_invD(1)[OF inv0] agree_with_str[OF t(1) fit(1)]])
      then have "as_table.table_ok ?m2 h"
        using rel t(2) as_invD(2)[OF inv0] as_table.entry_valid by blast
      then have "as_inv (as_set ?m2 e (Some (b\<lparr>refcnt := refcnt b + 1\<rparr>)), h, add_mset e H)"
      proof (rule bump_inv)
        show "entries h = insert e (set_mset H)" using as_invD(2)[OF inv0] e(1) by auto
        show "\<forall>p a. as_cell ?m2 p = Some a \<longrightarrow> p < as_brk ?m2 \<and> fit_path a \<and> refcnt a = count H p"
          using as_invD(3)[OF inv0] by simp
        show "\<forall>x\<in>#add_mset e H. \<exists>a. as_cell ?m2 x = Some a \<and> str a \<noteq> None"
          using as_invD(4)[OF inv0] t(2) e(1) by auto
      qed (use b et in simp)
      moreover have "aspath_parse s len use32bit h m = Inr (Some e, s1, h, as_set ?m2 e (Some (b\<lparr>refcnt := refcnt b + 1\<rparr>)))"
        unfolding run get using b(1) et by (simp add: as_get_def)
      ultimately show ?thesis using ps(2) by auto
    next
      case False
      let ?q = "as_brk m0" let ?n = "with_str ?a"
      let ?m2 = "snd (as_alloc ?m1 ?n)"
      have q: "?q \<notin># H" "?q \<noteq> ?t" "as_brk ?m1 = ?q" using build_ok[OF inv0 fit(2,1)] by (auto simp: m0_def as_alloc_def)
      have none: "\<forall>e\<in>entries h. \<not> as_eqv m0 e ?t" using False as_invD(2)[OF inv0] by auto
      have dup: "aspath_dup (with_str ?a) = Inr ?n"
        using make_str_ok[OF wf_known[of x]] ps(3) x(1) by (simp add: aspath_dup_def with_str_def path_str_def aspath_new_def)
      have alloc: "aspath_hash_alloc ?t ?m1 = Inr (Some ?q, ?m2)"
        using dup q(3) by (simp add: aspath_hash_alloc_def as_get_def as_alloc_def)
      have q0: "as_cell ?m1 ?q = None" using as_invD(3)[OF inv0, of ?q] q(2) by (cases "as_cell m0 ?q") auto
      have ag: "agree as_valid as_key as_eqv ?m1 ?m2"
        using q0 q(3) by (auto simp: agree_def as_valid_def as_key_def as_eqv_def as_segs_def as_alloc_def)
      have nv: "as_valid ?m2 ?q" "as_key ?m2 ?q = as_key ?m1 ?t"
        using fit(1) q(2,3) by (auto simp: as_valid_def as_key_def as_segs_def as_alloc_def)
      have ne: "\<forall>e\<in>entries h. \<not> as_eqv ?m2 ?q e"
        using False as_invD(2)[OF inv0] q t by (auto simp: as_eqv_def as_segs_def as_key_def as_alloc_def split: if_splits)
      obtain h' where h': "hash_get h ?t (Some aspath_hash_alloc) m0 = Inr (Some ?q, h', ?m2)" "as_table.table_ok ?m2 h'"
          "entries h' = insert ?q (entries h)"
        using as_table.get_absent[OF as_invD(1)[OF inv0] conjunct1[OF v] key none, of aspath_hash_alloc ?m2 ?q] alloc ag nv ne by auto
      let ?m3 = "as_set ?m2 ?t None"
      have c3: "as_cell ?m3 y = (if y = ?t then None else if y = ?q then Some ?n else as_cell m0 y)" for y
        using q(2,3) by (simp add: as_alloc_def)
      have b3: "as_brk ?m3 = Suc ?q" using q(3) by (simp add: as_alloc_def)
      have "as_table.table_ok ?m3 h'"
        using rel[OF h'(2)] h'(3) t(2) q(2) as_invD(2)[OF inv0] as_table.entry_valid[OF h'(2)] by auto
      then have "as_inv (as_set ?m3 ?q (Some (?n\<lparr>refcnt := refcnt ?n + 1\<rparr>)), h', add_mset ?q H)"
      proof (rule bump_inv)
        show "entries h' = insert ?q (set_mset H)" using h'(3) as_invD(2)[OF inv0] by simp
        show "\<forall>p a. as_cell ?m3 p = Some a \<longrightarrow> p < as_brk ?m3 \<and> fit_path a \<and> refcnt a = count H p"
        proof (intro allI impI)
          fix p a assume "as_cell ?m3 p = Some a"
          then consider "p = ?q" "a = ?n" | "p \<noteq> ?q" "as_cell m0 p = Some a" unfolding c3 by (auto split: if_splits)
          then show "p < as_brk ?m3 \<and> fit_path a \<and> refcnt a = count H p"
          proof cases
            case 1
            have "count H ?q = 0" using q(1) by (simp only: not_in_iff)
            then show ?thesis unfolding b3 1 using fit by simp
          next
            case 2
            then show ?thesis unfolding b3 using as_invD(3)[OF inv0 2(2)] by auto
          qed
        qed
        show "\<forall>x\<in>#add_mset ?q H. \<exists>a. as_cell ?m3 x = Some a \<and> str a \<noteq> None"
        proof
          fix y assume "y \<in># add_mset ?q H"
          then consider "y = ?q" | "y \<in># H" "y \<noteq> ?q" by auto
          then show "\<exists>a. as_cell ?m3 y = Some a \<and> str a \<noteq> None"
          proof cases
            case 1
            then show ?thesis unfolding c3 using q(2) by simp
          next
            case 2
            then have "y \<noteq> ?t" using t(2) by auto
            then show ?thesis unfolding c3 using 2 as_invD(4)[OF inv0 2(1)] by simp
          qed
        qed
        show "as_cell ?m3 ?q = Some ?n" unfolding c3 using q(2) by simp
      qed
      moreover have "aspath_parse s len use32bit h m = Inr (Some ?q, s1, h', as_set ?m3 ?q (Some (?n\<lparr>refcnt := refcnt ?n + 1\<rparr>)))"
        unfolding run h'(1) using c3[of ?q] q(2) by (simp add: as_get_def)
      ultimately show ?thesis using ps(2) by auto
    qed
  qed
qed

lemma as_init_inv: "as_inv (\<lparr>as_cell = (\<lambda>_. None), as_brk = 0\<rparr>, aspath_init, {#})"
  using as_table.create_ok[of 32767 "\<lparr>as_cell = (\<lambda>_. None), as_brk = 0\<rparr>"] by (simp add: as_inv_def aspath_init_def)

lemma step_inv: "as_step st st' \<Longrightarrow> as_inv st \<Longrightarrow> as_inv st'"
proof (induction rule: as_step.induct)
  case (build a m h H)
  then show ?case using build_ok by blast
next
  case (intern m p a h f h' m' H)
  then show ?case using intern_ok[of m h H p a] by auto
next
  case (parse s len use32bit h m r s' h' m' H)
  then show ?case using parse_ok[of m h H s len use32bit] by auto
next
  case (unintern p H h m r h' m')
  then show ?case using unintern_ok[of m h H p] by auto
qed

lemma reachable_inv: "as_reachable st \<Longrightarrow> as_inv st"
  by (induction rule: as_reachable.induct) (auto simp: as_init_inv step_inv)

text \<open>Interning a path that has just been built.\<close>

definition cell_is :: "as_mem \<Rightarrow> nat \<Rightarrow> aspath \<Rightarrow> bool" where
  "cell_is m p a \<longleftrightarrow> as_segs m p = segments a \<and> as_key m p = path_key (path_str a)"

lemma intern_new:
  assumes "as_reachable (m, h, H)" "refcnt a = 0" "fit_path a"
  shows "\<exists>m' h' f. as_reachable (m', h', add_mset f H) \<and> cell_is m' f a \<and> (f \<in># H \<longleftrightarrow> (\<exists>e\<in>#H. cell_is m e a)) \<and>
     (\<forall>e\<in>#H. \<forall>b. cell_is m e b \<longrightarrow> cell_is m' e b)"
proof -
  let ?m = "snd (as_alloc m a)" let ?p = "as_brk m"
  have r: "as_reachable (?m, h, H)" using as_reachable.step[OF assms(1) as_step.build[OF assms(2,3)]] .
  have c: "as_cell ?m ?p = Some a" "?p \<notin># H" using build_ok[OF reachable_inv[OF assms(1)] assms(2,3)] by auto
  obtain f h' m' where f: "aspath_intern h ?p ?m = Inr (f, h', m')" "as_segs m' f = segments a" "as_key m' f = as_key ?m ?p"
     "f \<in># H \<longleftrightarrow> (\<exists>e\<in>#H. as_eqv ?m e ?p)" "\<forall>e\<in>#H. as_segs m' e = as_segs ?m e \<and> as_key m' e = as_key ?m e"
    using intern_ok[OF reachable_inv[OF r] c(1) assms(2)] by blast
  have same: "as_segs ?m e = as_segs m e \<and> as_key ?m e = as_key m e" if "e \<in># H" for e
    using that c(2) by (auto simp: as_segs_def as_key_def as_alloc_def)
  have p: "cell_is ?m ?p a" using c(1) by (simp add: cell_is_def as_segs_def as_key_def)
  have "f \<in># H \<longleftrightarrow> (\<exists>e\<in>#H. cell_is m e a)" using f(4) same p by (simp add: as_eqv_def cell_is_def)
  moreover have "cell_is m' f a" using f(2,3) p by (simp add: cell_is_def)
  moreover have "\<forall>e\<in>#H. \<forall>b. cell_is m e b \<longrightarrow> cell_is m' e b" using f(5) same by (simp add: cell_is_def)
  ultimately show ?thesis using as_reachable.step[OF r as_step.intern[OF c(1) assms(2) f(1)]] by blast
qed

text \<open>Two references to the path 100 200, shared, and a third to an equal path that carries the string of the path
  200 it was made from, as the UPDATE parser makes it when it puts a local AS number in front: it is a second entry.\<close>

definition fresh_path :: aspath where
  "fresh_path = aspath_new\<lparr>segments := [\<lparr>seg_type = AS_SEQUENCE, seg_as = [100, 200]\<rparr>]\<rparr>"

definition stale_path :: aspath where
  "stale_path = aspath_add_seq (aspath_new\<lparr>segments := [\<lparr>seg_type = AS_SEQUENCE, seg_as = [200]\<rparr>], str := Some ''200''\<rparr>) 100"

text \<open>The hash keys of the two strings, one mixing round at a time.\<close>

lemma mix_steps:
  assumes "d = (a - b - c) XOR drop_bit 13 c" "e = (b - c - d) XOR push_bit 8 d" "f = (c - d - e) XOR drop_bit 13 e"
    "g = (d - e - f) XOR drop_bit 12 f" "h = (e - f - g) XOR push_bit 16 g" "i = (f - g - h) XOR drop_bit 5 h"
    "x = (g - h - i) XOR drop_bit 3 i" "y = (h - i - x) XOR push_bit 10 x" "z = (i - x - y) XOR drop_bit 15 y"
  shows "jhash_mix (a, b, c) = (x, y, z)"
  by (simp only: jhash_mix_def prod.case Let_def assms [symmetric])

lemma hash_200: "jhash (map of_char ''200'') (of_nat (length ''200'')) 2334325 = Inr 1254571253"
proof -
  have "jhash_mix (2657593835, 2654435769, 2334328) = (2551653361, 1859603535, 1254571253)"
    by (rule mix_steps[where d = 823462 and e = 2459430043 and f = 1836823944 and g = 4294850872 and h = 472251867 and i = 1370902939 and x = 2551653361 and y = 1859603535 and z = 1254571253]) simp_all
  then show ?thesis
    by (simp add: jhash_def jhash_loop.simps jhash_tail_def mem_read_def JHASH_GOLDEN_RATIO_def of_char_def)
qed

lemma hash_100_200: "jhash (map of_char ''100 200'') (of_nat (length ''100 200'')) 2334325 = Inr 1773213164"
proof -
  have "jhash_mix (3194464746, 2657593835, 2334332) = (989368127, 2293450725, 1773213164)"
    by (rule mix_steps[where d = 534536351 and e = 2718381520 and f = 1044715572 and g = 1066661578 and h = 3538167506 and i = 760994734 and x = 989368127 and y = 2293450725 and z = 1773213164]) simp_all
  then show ?thesis
    by (simp add: jhash_def jhash_loop.simps jhash_tail_def mem_read_def JHASH_GOLDEN_RATIO_def of_char_def)
qed
lemma sample_path_fields:
  "refcnt stale_path = 0" "str stale_path = Some ''200''" "segments stale_path = [\<lparr>seg_type = AS_SEQUENCE, seg_as = [100, 200]\<rparr>]"
  "refcnt fresh_path = 0" "str fresh_path = None" "segments fresh_path = [\<lparr>seg_type = AS_SEQUENCE, seg_as = [100, 200]\<rparr>]"
  by (simp_all add: stale_path_def fresh_path_def aspath_new_def aspath_add_seq_def aspath_add_one_as_def assegment_prepend_asns_def
      AS_SEGMENT_MAX_def u_short_def)

lemma sample_text: "path_text [\<lparr>seg_type = AS_SEQUENCE, seg_as = [100, 200]\<rparr>] = ''100 200''"
  by code_simp

lemma sample_paths: "refcnt fresh_path = 0" "fit_path fresh_path" "refcnt stale_path = 0" "fit_path stale_path"
  "segments stale_path = segments fresh_path" "path_key (path_str stale_path) \<noteq> path_key (path_str fresh_path)"
proof -
  have "path_str stale_path = ''200''" by (simp add: path_str_def sample_path_fields)
  moreover have "path_str fresh_path = ''100 200''" unfolding path_str_def sample_path_fields sample_text by simp
  moreover have "path_key ''200'' \<noteq> path_key ''100 200''" unfolding path_key_def hash_200 hash_100_200 by simp
  ultimately show "path_key (path_str stale_path) \<noteq> path_key (path_str fresh_path)" by simp
qed (simp_all add: sample_path_fields fit_path_def known_type_def)

lemma reach_shared: "\<exists>m h f g. as_reachable (m, h, {#g, f, f#}) \<and> cell_is m f fresh_path \<and> cell_is m g stale_path"
proof -
  obtain m1 h1 f where 1: "as_reachable (m1, h1, {#f#})" "cell_is m1 f fresh_path"
    using intern_new[OF as_reachable.init sample_paths(1,2)] by blast
  obtain m2 h2 where 2: "as_reachable (m2, h2, {#f, f#})" "cell_is m2 f fresh_path"
    using intern_new[OF 1(1) sample_paths(1,2)] 1(2) by auto
  show ?thesis using intern_new[OF 2(1) sample_paths(3,4)] 2(2) by (metis union_single_eq_member)
qed

text \<open>C4: In every reachable state of the table two references are the same pointer exactly when their segments are
  equal and the hash keys of the strings they carry are equal, and the reference count of a path is the number of
  references handed out and not yet released. For paths that carry the text of their segments, which is
  all of them but those made by the functions that leave the string as it was, the keys of equal paths are equal: there
  interning is canonical, one pointer for each path. Two equal paths of which one carries the string of another
  path can be two entries.\<close>

theorem aspath_intern_canonical:
  assumes "as_reachable (m, h, H)" "p \<in># H" "q \<in># H"
  shows "\<exists>a b k l. as_get m p = Inr a \<and> as_get m q = Inr b \<and> refcnt a = count H p \<and>
     aspath_key_make p m = Inr (k, m) \<and> aspath_key_make q m = Inr (l, m) \<and>
     (p = q \<longleftrightarrow> aspath_cmp a b \<and> k = l) \<and>
     (aspath_make_str_count (segments a) = Inr (str a) \<longrightarrow> aspath_make_str_count (segments b) = Inr (str b) \<longrightarrow>
       (p = q \<longleftrightarrow> aspath_cmp a b))"
proof -
  note inv = reachable_inv[OF assms(1)]
  obtain a where a: "as_cell m p = Some a" "fit_path a" "as_segs m p = segments a" "aspath_key_make p m = Inr (as_key m p, m)"
    using key_held[OF inv assms(2)] by blast
  obtain b where b: "as_cell m q = Some b" "fit_path b" "as_segs m q = segments b" "aspath_key_make q m = Inr (as_key m q, m)"
    using key_held[OF inv assms(3)] by blast
  have "p = q" if "segments a = segments b" "as_key m p = as_key m q"
    using as_table.entry_unique[OF as_invD(1)[OF inv], of p q] assms(2,3) as_invD(2)[OF inv] a(3) b(3) that by (simp add: as_eqv_def)
  moreover have "p = q \<Longrightarrow> a = b" using a(1) b(1) by simp
  ultimately have eq: "p = q \<longleftrightarrow> aspath_cmp a b \<and> as_key m p = as_key m q" unfolding aspath_cmp_def segs_cmp_eq by blast
  have "as_key m p = as_key m q"
    if "aspath_cmp a b" "aspath_make_str_count (segments a) = Inr (str a)" "aspath_make_str_count (segments b) = Inr (str b)"
    using that a(1) b(1) by (auto simp: as_key_def path_str_def aspath_cmp_def segs_cmp_eq split: option.split)
  then show ?thesis using eq a b as_invD(3)[OF inv a(1)] by (simp add: as_get_def) blast
qed

theorem aspath_intern_canonical_witness:
  "\<exists>m h f g a b. as_reachable (m, h, {#g, f, f#}) \<and> as_get m f = Inr a \<and> as_get m g = Inr b \<and> f \<noteq> g \<and> aspath_cmp a b \<and>
     refcnt a = 2 \<and> refcnt b = 1"
proof -
  obtain m h f g where r: "as_reachable (m, h, {#g, f, f#})" "cell_is m f fresh_path" "cell_is m g stale_path" using reach_shared by blast
  then have "f \<noteq> g" using sample_paths(6) by (auto simp: cell_is_def)
  moreover have "\<exists>a b. as_get m f = Inr a \<and> as_get m g = Inr b \<and> refcnt a = count {#g, f, f#} f"
    using aspath_intern_canonical[OF r(1), of f g] by auto
  moreover have "\<exists>b a. as_get m g = Inr b \<and> refcnt b = count {#g, f, f#} g"
    using aspath_intern_canonical[OF r(1), of g f] by auto
  ultimately obtain a b where ab: "as_get m f = Inr a" "as_get m g = Inr b" "refcnt a = 2" "refcnt b = 1" by auto
  then have "segments a = segments b"
    using r(2,3) sample_paths(5) by (auto simp: cell_is_def as_segs_def as_get_def split: option.splits)
  then show ?thesis using ab r(1) \<open>f \<noteq> g\<close> unfolding aspath_cmp_def segs_cmp_eq by blast
qed

text \<open>C21: No operation on a reachable table faults or fails its assertions: a new path can always be interned
  and gives a reference to an equal path, a reference can always be released, which frees the path with
  its last reference, and any attribute can be parsed.\<close>

theorem aspath_table_safe:
  assumes "as_reachable (m, h, H)"
  shows "(\<forall>p a. as_cell m p = Some a \<longrightarrow> refcnt a = 0 \<longrightarrow>
      (\<exists>f h' m' b. aspath_intern h p m = Inr (f, h', m') \<and> as_get m' f = Inr b \<and> segments b = segments a)) \<and>
    (\<forall>p\<in>#H. \<exists>h' m'. aspath_unintern h p m = Inr (if count H p = 1 then None else Some p, h', m') \<and>
      (as_cell m' p = None \<longleftrightarrow> count H p = 1)) \<and>
    (\<forall>s len use32bit. stream_ok s \<longrightarrow> len < 131072 \<longrightarrow> (\<exists>r. aspath_parse s len use32bit h m = Inr r))"
proof -
  note inv = reachable_inv[OF assms]
  have 1: "\<exists>f h' m' b. aspath_intern h p m = Inr (f, h', m') \<and> as_get m' f = Inr b \<and> segments b = segments a"
    if c: "as_cell m p = Some a" "refcnt a = 0" for p a
  proof -
    obtain f h' m' where f: "aspath_intern h p m = Inr (f, h', m')" "as_inv (m', h', add_mset f H)" "as_segs m' f = segments a"
      using intern_ok[OF inv c] by blast
    then show ?thesis using as_inv_valid[OF f(2), of f] by (auto simp: as_get_def)
  qed
  have 2: "\<exists>h' m'. aspath_unintern h p m = Inr (if count H p = 1 then None else Some p, h', m') \<and>
      (as_cell m' p = None \<longleftrightarrow> count H p = 1)" if p: "p \<in># H" for p
  proof -
    obtain r h' m' where r: "aspath_unintern h p m = Inr (r, h', m')" "as_inv (m', h', H - {#p#})"
       "r = (if count H p = 1 then None else Some p)" "count H p = 1 \<longrightarrow> as_cell m' p = None"
      using unintern_ok[OF inv p] by blast
    have pos: "0 < count H p" using p by (simp add: count_greater_zero_iff)
    have "count H p \<noteq> 1 \<longrightarrow> as_cell m' p \<noteq> None"
    proof
      assume "count H p \<noteq> 1"
      then have "2 \<le> count H p" using pos by linarith
      then have "p \<in># H - {#p#}" by (simp only: in_release refl if_True)
      then show "as_cell m' p \<noteq> None" using as_inv_valid[OF r(2)] by blast
    qed
    then show ?thesis using r by auto
  qed
  have 3: "\<exists>r. aspath_parse s len use32bit h m = Inr r" if "stream_ok s" "len < 131072" for s len use32bit
    using parse_ok[OF inv that] by blast
  show ?thesis using 1 2 3 by blast
qed

theorem aspath_table_safe_witness:
  "\<exists>m h f g h' m'. f \<noteq> g \<and> as_reachable (m, h, {#g, f, f#}) \<and> aspath_unintern h f m = Inr (Some f, h', m')"
proof -
  obtain m h f g where r: "as_reachable (m, h, {#g, f, f#})" "f \<noteq> g" using reach_shared by (metis cell_is_def sample_paths(6))
  have f: "f \<in># {#g, f, f#}" by simp
  have two: "count {#g, f, f#} f = 2" using r(2) by simp
  have "\<exists>h' m'. aspath_unintern h f m = Inr (Some f, h', m')"
    using bspec[OF conjunct1[OF conjunct2[OF aspath_table_safe[OF r(1)]]] f] unfolding two by auto
  then show ?thesis using r by blast
qed

end
