(* ===== verification/Route_Table.thy ===== *)
theory Route_Table
  imports Prefix "HOL-Library.Multiset"
begin

text \<open>
  The routing table of \<^verbatim>\<open>lib/table.c\<close>: a path-compressed binary trie of route nodes, each with a
  prefix, a reference count and the client's information pointer. A node of the model carries
  the fields \<^verbatim>\<open>p\<close>, \<^verbatim>\<open>lock\<close>, \<^verbatim>\<open>info\<close> and its two links; the table is its \<^verbatim>\<open>top\<close> node. The
  \<^verbatim>\<open>parent\<close> and \<^verbatim>\<open>table\<close> pointers are what the tree structure says. A pointer to a node is
  represented by the bit string of the node's prefix, which is unique in a table, so that it
  stays valid when other nodes are unlinked.
\<close>

subsection \<open>Nodes\<close>

datatype 'i route_node =
    Null
  | Node (rn_p: prefix) (rn_lock: u32) (rn_info: "'i option")
      (l_left: "'i route_node") (l_right: "'i route_node")

type_synonym key = "bool list"

definition route_node_new :: "'i route_node" where
  "route_node_new = Node prefix_new 0 None Null Null"

definition route_node_set :: "prefix \<Rightarrow> 'i route_node res" where
  "route_node_set p =
     bindE (prefix_copy (rn_p (route_node_new :: 'i route_node)) p) (\<lambda>q. Inr (Node q 0 None Null Null))"

text \<open>\<^verbatim>\<open>route_common\<close>: the byte loop copies equal bytes into \<^verbatim>\<open>new\<close>, the bit loop extends the
  length inside the first differing byte, never beyond the length of \<^verbatim>\<open>p\<close>.\<close>

fun common_bytes :: "byte list \<Rightarrow> byte list \<Rightarrow> byte list \<Rightarrow> nat \<Rightarrow> nat \<Rightarrow> (nat \<times> byte list) res" where
  "common_bytes np pp newp i 0 = Inr (i, newp)"
| "common_bytes np pp newp i (Suc k) =
     bindE (rd np i) (\<lambda>a. bindE (rd pp i) (\<lambda>b.
       if a = b then bindE (mem_write newp i [a]) (\<lambda>newp'. common_bytes np pp newp' (Suc i) k)
       else Inr (i, newp)))"

fun common_bits :: "byte \<Rightarrow> byte \<Rightarrow> nat \<Rightarrow> nat \<Rightarrow> nat" where
  "common_bits msk diff plen 0 = plen"
| "common_bits msk diff plen (Suc k) =
     (if msk AND diff = 0 then common_bits (drop_bit 1 msk) diff (Suc plen) k else plen)"

definition route_common :: "prefix \<Rightarrow> prefix \<Rightarrow> prefix \<Rightarrow> prefix res" where
  "route_common n p new =
     bindE (common_bytes (u_prefix n) (u_prefix p) (u_prefix new) 0 (prefixlen p div 8)) (\<lambda>(i, newp).
       let plen = i * 8 in
       if plen \<noteq> prefixlen p
       then bindE (rd (u_prefix n) i) (\<lambda>a. bindE (rd (u_prefix p) i) (\<lambda>b.
              let plen' = common_bits 0x80 (a XOR b) plen (prefixlen p - plen) in
              bindE (mem_write newp i [a AND maskbit ! (plen' mod 8)]) (\<lambda>newp'.
                Inr (new\<lparr>prefixlen := plen', u_prefix := newp'\<rparr>))))
       else Inr (new\<lparr>prefixlen := plen, u_prefix := newp\<rparr>))"

definition set_link :: "'i route_node \<Rightarrow> 'i route_node \<Rightarrow> 'i route_node res" where
  "set_link node new =
     (case node of
        Null \<Rightarrow> Inl NullDeref
      | Node q lk ifo l r \<Rightarrow>
          if new = Null then Inl NullDeref
          else bindE (prefix_bit (u_prefix (rn_p new)) (prefixlen q)) (\<lambda>bit.
                 Inr (if bit = 0 then Node q lk ifo new r else Node q lk ifo l new)))"

definition node_lock :: "'i route_node \<Rightarrow> 'i route_node" where
  "node_lock n = (case n of Null \<Rightarrow> Null | Node q lk ifo l r \<Rightarrow> Node q (lk + 1) ifo l r)"

subsection \<open>Following a pointer\<close>

definition node_key :: "'i route_node \<Rightarrow> key option" where
  "node_key n = (case n of Null \<Rightarrow> None | Node q _ _ _ _ \<Rightarrow> Some (pbits q))"

fun node_at :: "key \<Rightarrow> 'i route_node \<Rightarrow> 'i route_node" where
  "node_at k Null = Null"
| "node_at k (Node q lk ifo l r) =
     (if pbits q = k then Node q lk ifo l r
      else if prefixlen q < length k then node_at k (if k ! prefixlen q then r else l) else Null)"

fun update_at :: "key \<Rightarrow> ('i route_node \<Rightarrow> 'i route_node) \<Rightarrow> 'i route_node \<Rightarrow> 'i route_node" where
  "update_at k f Null = Null"
| "update_at k f (Node q lk ifo l r) =
     (if pbits q = k then f (Node q lk ifo l r)
      else if prefixlen q < length k
           then (if k ! prefixlen q then Node q lk ifo l (update_at k f r)
                 else Node q lk ifo (update_at k f l) r)
           else Node q lk ifo l r)"

text \<open>The \<^verbatim>\<open>parent\<close> pointer: the last node passed on the way to \<open>k\<close>.\<close>

fun parent_of :: "key \<Rightarrow> 'i route_node \<Rightarrow> key option" where
  "parent_of k Null = None"
| "parent_of k (Node q lk ifo l r) =
     (if pbits q = k then None
      else if prefixlen q < length k
           then (let c = (if k ! prefixlen q then r else l) in
                 if node_key c = Some k then Some (pbits q) else parent_of k c)
           else None)"

definition route_lock_node :: "'i route_node \<Rightarrow> key \<Rightarrow> 'i route_node" where
  "route_lock_node t k = update_at k node_lock t"

subsection \<open>Lookup\<close>

fun match_walk :: "'i route_node \<Rightarrow> prefix \<Rightarrow> key option \<Rightarrow> key option res" where
  "match_walk Null p matched = Inr matched"
| "match_walk (Node q lk ifo l r) p matched =
     bindE (if prefixlen q \<le> prefixlen p then prefix_match q p else Inr False) (\<lambda>m.
       if \<not> m then Inr matched
       else let matched' = (if ifo \<noteq> None then Some (pbits q) else matched) in
            if prefixlen q = prefixlen p then Inr matched'
            else bindE (prefix_bit (u_prefix p) (prefixlen q)) (\<lambda>b.
                   match_walk (if b = 0 then l else r) p matched'))"

definition route_node_match :: "'i route_node \<Rightarrow> prefix \<Rightarrow> (key option \<times> 'i route_node) res" where
  "route_node_match t p =
     bindE (match_walk t p None) (\<lambda>matched.
       case matched of
         None \<Rightarrow> Inr (None, t)
       | Some k \<Rightarrow> Inr (Some k, route_lock_node t k))"

definition route_node_match_ipv4 :: "'i route_node \<Rightarrow> byte list \<Rightarrow> (key option \<times> 'i route_node) res" where
  "route_node_match_ipv4 t addr =
     route_node_match t \<lparr>family = AF_INET, prefixlen = IPV4_MAX_BITLEN, u_prefix = addr @ replicate 12 0\<rparr>"

definition route_node_match_ipv6 :: "'i route_node \<Rightarrow> byte list \<Rightarrow> (key option \<times> 'i route_node) res" where
  "route_node_match_ipv6 t addr =
     route_node_match t \<lparr>family = AF_INET6, prefixlen = IPV6_MAX_BITLEN, u_prefix = addr\<rparr>"

fun lookup_walk :: "'i route_node \<Rightarrow> prefix \<Rightarrow> key option res" where
  "lookup_walk Null p = Inr None"
| "lookup_walk (Node q lk ifo l r) p =
     bindE (if prefixlen q \<le> prefixlen p then prefix_match q p else Inr False) (\<lambda>m.
       if \<not> m then Inr None
       else if prefixlen q = prefixlen p then Inr (if ifo \<noteq> None then Some (pbits q) else None)
       else bindE (prefix_bit (u_prefix p) (prefixlen q)) (\<lambda>b.
              lookup_walk (if b = 0 then l else r) p))"

definition route_node_lookup :: "'i route_node \<Rightarrow> prefix \<Rightarrow> (key option \<times> 'i route_node) res" where
  "route_node_lookup t p =
     bindE (lookup_walk t p) (\<lambda>found.
       case found of None \<Rightarrow> Inr (None, t) | Some k \<Rightarrow> Inr (Some k, route_lock_node t k))"

subsection \<open>Insertion\<close>

text \<open>
  \<^verbatim>\<open>route_node_get\<close>: the descent is the recursion; on the way back each visited node is linked
  to its (possibly new) child by \<^verbatim>\<open>set_link\<close>, which for all but the node \<^verbatim>\<open>match\<close> of the code
  stores the link that was there.
\<close>

fun route_node_get :: "'i route_node \<Rightarrow> prefix \<Rightarrow> ('i route_node \<times> key) res" where
  "route_node_get Null p =
     bindE (route_node_set p) (\<lambda>new. Inr (node_lock new, pbits (rn_p new)))"
| "route_node_get (Node q lk ifo l r) p =
     bindE (if prefixlen q \<le> prefixlen p then prefix_match q p else Inr False) (\<lambda>m.
       if m then
         (if prefixlen q = prefixlen p then Inr (node_lock (Node q lk ifo l r), pbits q)
          else bindE (prefix_bit (u_prefix p) (prefixlen q)) (\<lambda>b.
               bindE (route_node_get (if b = 0 then l else r) p) (\<lambda>(c, k).
               bindE (set_link (Node q lk ifo l r) c) (\<lambda>t. Inr (t, k)))))
       else
         bindE (route_common q p (rn_p (route_node_new :: 'i route_node))) (\<lambda>np.
         let new = Node (np\<lparr>family := family p\<rparr>) 0 None Null Null in
         bindE (set_link new (Node q lk ifo l r)) (\<lambda>new'.
         if prefixlen np \<noteq> prefixlen p
         then bindE (route_node_set p) (\<lambda>leaf.
              bindE (set_link new' (node_lock leaf)) (\<lambda>t. Inr (t, pbits (rn_p leaf))))
         else Inr (node_lock new', pbits (rn_p new')))))"

subsection \<open>Release and deletion\<close>

lemma parent_of_shorter: "parent_of k t = Some pk \<Longrightarrow> length pk < length k"
  by (induction t) (auto simp: Let_def split: if_splits)

function route_node_delete :: "'i route_node \<Rightarrow> key \<Rightarrow> 'i route_node res" where
  "route_node_delete t k =
     (case node_at k t of
        Null \<Rightarrow> Inl NullDeref
      | Node q lk ifo l r \<Rightarrow>
          bindE (assertE (lk = 0)) (\<lambda>_.
          bindE (assertE (ifo = None)) (\<lambda>_.
            if l \<noteq> Null \<and> r \<noteq> Null then Inr t
            else
              let child = (if l \<noteq> Null then l else r);
                  t' = update_at k (\<lambda>_. child) t
              in case parent_of k t of
                   None \<Rightarrow> Inr t'
                 | Some pk \<Rightarrow>
                     if rn_lock (node_at pk t) = 0 then route_node_delete t' pk else Inr t')))"
  by pat_completeness auto
termination
  by (relation "measure (\<lambda>(t, k). length k)") (auto dest: parent_of_shorter)

definition node_unlock :: "'i route_node \<Rightarrow> 'i route_node" where
  "node_unlock n = (case n of Null \<Rightarrow> Null | Node q lk ifo l r \<Rightarrow> Node q (lk - 1) ifo l r)"

definition route_unlock_node :: "'i route_node \<Rightarrow> key \<Rightarrow> 'i route_node res" where
  "route_unlock_node t k =
     (if node_at k t = Null then Inl NullDeref
      else let t' = update_at k node_unlock t in
           if rn_lock (node_at k t') = 0 then route_node_delete t' k else Inr t')"

subsection \<open>Iteration\<close>

definition route_top :: "'i route_node \<Rightarrow> key option \<times> 'i route_node" where
  "route_top t = (case node_key t of None \<Rightarrow> (None, t) | Some k \<Rightarrow> (Some k, route_lock_node t k))"

function climb :: "'i route_node \<Rightarrow> key \<Rightarrow> key option" where
  "climb t k =
     (case parent_of k t of
        None \<Rightarrow> None
      | Some pk \<Rightarrow>
          if node_key (l_left (node_at pk t)) = Some k \<and> l_right (node_at pk t) \<noteq> Null
          then node_key (l_right (node_at pk t)) else climb t pk)"
  by pat_completeness auto
termination
  by (relation "measure (\<lambda>(t, k). length k)") (auto dest: parent_of_shorter)

definition next_key :: "'i route_node \<Rightarrow> key \<Rightarrow> key option" where
  "next_key t k =
     (let n = node_at k t in
      if l_left n \<noteq> Null then node_key (l_left n)
      else if l_right n \<noteq> Null then node_key (l_right n)
      else climb t k)"

definition route_next :: "'i route_node \<Rightarrow> key \<Rightarrow> (key option \<times> 'i route_node) res" where
  "route_next t k =
     (if node_at k t = Null then Inl NullDeref
      else case next_key t k of
             None \<Rightarrow> bindE (route_unlock_node t k) (\<lambda>t'. Inr (None, t'))
           | Some nk \<Rightarrow>
               bindE (route_unlock_node (route_lock_node t nk) k) (\<lambda>t'. Inr (Some nk, t')))"

function climb_until :: "'i route_node \<Rightarrow> key \<Rightarrow> key \<Rightarrow> key option" where
  "climb_until t limit k =
     (case parent_of k t of
        None \<Rightarrow> None
      | Some pk \<Rightarrow>
          if k = limit then None
          else if node_key (l_left (node_at pk t)) = Some k \<and> l_right (node_at pk t) \<noteq> Null
          then node_key (l_right (node_at pk t)) else climb_until t limit pk)"
  by pat_completeness auto
termination
  by (relation "measure (\<lambda>(t, limit, k). length k)") (auto dest: parent_of_shorter)

definition route_next_until :: "'i route_node \<Rightarrow> key \<Rightarrow> key \<Rightarrow> (key option \<times> 'i route_node) res" where
  "route_next_until t k limit =
     (if node_at k t = Null then Inl NullDeref
      else let n = node_at k t;
               nxt = (if l_left n \<noteq> Null then node_key (l_left n)
                      else if l_right n \<noteq> Null then node_key (l_right n)
                      else climb_until t limit k)
           in case nxt of
                None \<Rightarrow> bindE (route_unlock_node t k) (\<lambda>t'. Inr (None, t'))
              | Some nk \<Rightarrow>
                  bindE (route_unlock_node (route_lock_node t nk) k) (\<lambda>t'. Inr (Some nk, t')))"

declare route_node_delete.simps [simp del] climb.simps [simp del] climb_until.simps [simp del]

subsection \<open>\<^verbatim>\<open>route_common\<close> computes the longest common prefix\<close>

lemma common_bytes_spec:
  assumes "i + k \<le> length np" "i + k \<le> length pp" "length newp = length np"
    "\<forall>j<i. np ! j = pp ! j \<and> newp ! j = np ! j"
  shows "\<exists>i' newp'. common_bytes np pp newp i k = Inr (i', newp') \<and> i \<le> i' \<and> i' \<le> i + k \<and>
     length newp' = length np \<and> (\<forall>j<i'. np ! j = pp ! j \<and> newp' ! j = np ! j) \<and>
     (i' < i + k \<longrightarrow> np ! i' \<noteq> pp ! i')"
  using assms
proof (induction k arbitrary: i newp)
  case 0
  then show ?case by auto
next
  case (Suc k)
  show ?case
  proof (cases "np ! i = pp ! i")
    case True
    let ?new = "take i newp @ [np ! i] @ drop (Suc i) newp"
    have new: "mem_write newp i [np ! i] = Inr ?new" "length ?new = length np"
      using Suc.prems by (auto simp: mem_write_def)
    have "\<forall>j<Suc i. np ! j = pp ! j \<and> ?new ! j = np ! j"
      using Suc.prems True by (auto simp: nth_append less_Suc_eq)
    from Suc.IH[OF _ _ new(2) this] Suc.prems True new show ?thesis by auto
  next
    case False
    with Suc.prems show ?thesis by auto
  qed
qed

lemma mask_and_bit:
  fixes d :: byte
  assumes "j < 8"
  shows "drop_bit j (0x80 :: byte) AND d = 0 \<longleftrightarrow> \<not> bit d (7 - j)"
proof -
  have "\<forall>j \<in> set [0..<8]. \<forall>n \<in> set [0..<8]. bit (drop_bit j (0x80 :: byte)) n = (n = 7 - j)"
    by code_simp
  then have b: "bit (drop_bit j (0x80 :: byte)) n \<longleftrightarrow> n = 7 - j" if "n < 8" for n
    using assms that by (simp del: upt.simps)
  have "drop_bit j (0x80 :: byte) AND d = 0 \<longleftrightarrow> (\<forall>n<8. \<not> (bit (drop_bit j (0x80 :: byte)) n \<and> bit d n))"
    by (auto simp: bit_eq_iff bit_and_iff dest: bit_imp_le_length)
  also have "\<dots> \<longleftrightarrow> \<not> bit d (7 - j)" using b assms by auto
  finally show ?thesis .
qed

lemma common_bits_spec:
  "\<exists>r \<le> k. common_bits msk d plen k = plen + r \<and> (\<forall>j<r. drop_bit j msk AND d = 0) \<and>
     (r < k \<longrightarrow> drop_bit r msk AND d \<noteq> 0)"
proof (induction k arbitrary: msk plen)
  case (Suc k)
  show ?case
  proof (cases "msk AND d = 0")
    case True
    from Suc[of "drop_bit 1 msk" "Suc plen"] obtain r where r: "r \<le> k"
      "common_bits (drop_bit 1 msk) d (Suc plen) k = Suc plen + r"
      "\<forall>j<r. drop_bit j (drop_bit 1 msk) AND d = 0"
      "r < k \<longrightarrow> drop_bit r (drop_bit 1 msk) AND d \<noteq> 0" by blast
    have "\<forall>j<Suc r. drop_bit j msk AND d = 0"
    proof (intro allI impI)
      fix j assume "j < Suc r"
      then show "drop_bit j msk AND d = 0"
        using True r(3) by (cases j) (auto simp: drop_bit_drop_bit)
    qed
    with True r show ?thesis
      by (intro exI[of _ "Suc r"]) (auto simp: drop_bit_drop_bit)
  next
    case False
    then show ?thesis by (intro exI[of _ 0]) simp
  qed
qed simp

text \<open>The bits of the result: as many leading bits as \<open>n\<close> and \<open>p\<close> share, at most those of \<open>p\<close>.\<close>

lemma route_common_spec:
  assumes "wf_prefix n" "wf_prefix p" "length (u_prefix new) = 16"
  obtains q where "route_common n p new = Inr q" "length (u_prefix q) = 16"
    "family q = family new" "prefixlen q \<le> prefixlen p"
    "\<And>i. i < prefixlen q \<Longrightarrow> abit (u_prefix n) i = abit (u_prefix p) i"
    "\<And>i. i < prefixlen q \<Longrightarrow> abit (u_prefix q) i = abit (u_prefix p) i"
    "prefixlen q < prefixlen p \<Longrightarrow> abit (u_prefix n) (prefixlen q) \<noteq> abit (u_prefix p) (prefixlen q)"
proof -
  let ?np = "u_prefix n" and ?pp = "u_prefix p" and ?k = "prefixlen p div 8"
  note len = wf_prefix_bounds[OF assms(1)] wf_prefix_bounds[OF assms(2)]
  have "?k \<le> 16" using len by auto
  with len assms(3) common_bytes_spec[of 0 ?k ?np ?pp "u_prefix new"] obtain i newp where
    i: "common_bytes ?np ?pp (u_prefix new) 0 ?k = Inr (i, newp)" "i \<le> ?k" "length newp = 16"
      "\<forall>j<i. ?np ! j = ?pp ! j \<and> newp ! j = ?np ! j" "i < ?k \<longrightarrow> ?np ! i \<noteq> ?pp ! i"
    by auto
  have agree: "\<forall>b<8 * i. abit ?np b = abit ?pp b" "\<forall>b<8 * i. abit newp b = abit ?pp b"
    using i(4) bytes_eq_bits[of i ?np ?pp] bytes_eq_bits[of i newp ?pp] by auto
  show thesis
  proof (cases "8 * i = prefixlen p")
    case True
    then have "route_common n p new = Inr (new\<lparr>prefixlen := 8 * i, u_prefix := newp\<rparr>)"
      using i(1) by (simp add: route_common_def mult.commute)
    then show thesis by (rule that) (use True agree i(3) in auto)
  next
    case False
    have lt: "8 * i < prefixlen p" using False i(2) div_mult_mod_eq[of "prefixlen p" 8] by linarith
    have i16: "i < 16" using lt len by linarith
    let ?d = "?np ! i XOR ?pp ! i"
    obtain r where r: "r \<le> prefixlen p - 8 * i"
      "common_bits 0x80 ?d (8 * i) (prefixlen p - 8 * i) = 8 * i + r"
      "\<forall>j<r. drop_bit j (0x80 :: byte) AND ?d = 0"
      "r < prefixlen p - 8 * i \<longrightarrow> drop_bit r (0x80 :: byte) AND ?d \<noteq> 0"
      using common_bits_spec[of "prefixlen p - 8 * i" "0x80" ?d "8 * i"] by blast
    have r8: "r < 8"
    proof (cases "i < ?k")
      case True
      then obtain j where "j < 8" "bit (?np ! i) (7 - j) \<noteq> bit (?pp ! i) (7 - j)"
        using i(5) byte_eq_iff[of "?np ! i" "?pp ! i"] by auto
      then have "drop_bit j (0x80 :: byte) AND ?d \<noteq> 0"
        using mask_and_bit[of j ?d] by (simp add: bit_xor_iff)
      with r(3) have "\<not> j < r" by blast
      with \<open>j < 8\<close> show ?thesis by simp
    next
      case False
      then have "prefixlen p - 8 * i = prefixlen p mod 8"
        using i(2) div_mult_mod_eq[of "prefixlen p" 8] by linarith
      with r(1) show ?thesis using mod_less_divisor[of 8 "prefixlen p"] by linarith
    qed
    let ?b = "?np ! i AND maskbit ! ((8 * i + r) mod 8)"
    let ?u = "take i newp @ [?b] @ drop (Suc i) newp"
    let ?q = "new\<lparr>prefixlen := 8 * i + r, u_prefix := ?u\<rparr>"
    have eq: "route_common n p new = Inr ?q"
      using i(1,3) False len r(2) i16
      by (simp add: route_common_def mult.commute mem_write_def Let_def)
    have in_byte: "abit ?np (8 * i + j) = abit ?pp (8 * i + j)" if "j < r" for j
      using r(3) that r8 mask_and_bit[of j ?d] by (auto simp: abit_in_byte bit_xor_iff)
    have u_lo: "abit ?u b = abit newp b" if "b < 8 * i" for b
      using that i(3) i16 by (auto simp: abit_append abit_take)
    have u_mid: "abit ?u (8 * i + j) = abit ?np (8 * i + j)" if "j < r" for j
    proof -
      have "abit ?u (8 * i + j) = bit ?b (7 - j)"
        using that r8 i(3) i16 by (auto simp: abit_append abit_Cons)
      also have "\<dots> = bit (?np ! i) (7 - j)"
        using that r8 by (simp add: bit_and_iff maskbit_bit mask_pos)
      finally show ?thesis using that r8 by (simp add: abit_in_byte)
    qed
    have split: "\<exists>j. b = 8 * i + j \<and> j < r" if "b < 8 * i + r" "\<not> b < 8 * i" for b
      using that by (intro exI[of _ "b - 8 * i"]) auto
    show thesis
    proof (rule that[OF eq])
      show "length (u_prefix ?q) = 16" using i(3) i16 by simp
      show "family ?q = family new" by simp
      show "prefixlen ?q \<le> prefixlen p" using r(1) lt by simp
      show "abit ?np b = abit ?pp b" if "b < prefixlen ?q" for b
        using that agree(1) in_byte split[of b] by (cases "b < 8 * i") auto
      show "abit (u_prefix ?q) b = abit ?pp b" if "b < prefixlen ?q" for b
        using that agree(2) in_byte u_lo u_mid split[of b] by (cases "b < 8 * i") auto
      show "abit ?np (prefixlen ?q) \<noteq> abit ?pp (prefixlen ?q)" if "prefixlen ?q < prefixlen p"
        using that r(4) r8 mask_and_bit[of r ?d] by (auto simp: abit_in_byte bit_xor_iff)
    qed
  qed
qed

subsection \<open>Well-formed tables\<close>

text \<open>\<open>below k b\<close>: the bit string \<open>b\<close> is an initial part of \<open>k\<close>.\<close>

definition below :: "key \<Rightarrow> key \<Rightarrow> bool" where
  "below k b \<longleftrightarrow> take (length b) k = b"

fun preorder :: "'i route_node \<Rightarrow> key list" where
  "preorder Null = []"
| "preorder (Node q lk ifo l r) = pbits q # preorder l @ preorder r"

abbreviation keys :: "'i route_node \<Rightarrow> key set" where
  "keys t \<equiv> set (preorder t)"

fun trie :: "'i route_node \<Rightarrow> bool" where
  "trie Null \<longleftrightarrow> True"
| "trie (Node q lk ifo l r) \<longleftrightarrow> wf_prefix q \<and> trie l \<and> trie r \<and>
     (\<forall>k\<in>keys l. below k (pbits q @ [False])) \<and> (\<forall>k\<in>keys r. below k (pbits q @ [True]))"

text \<open>A node nobody holds is a branching point without information; \<open>compact_but x\<close> allows one
  exception, the node a deletion is about to look at.\<close>

fun compact_but :: "key option \<Rightarrow> 'i route_node \<Rightarrow> bool" where
  "compact_but x Null \<longleftrightarrow> True"
| "compact_but x (Node q lk ifo l r) \<longleftrightarrow>
     (x = Some (pbits q) \<or> lk \<noteq> 0 \<or> (ifo = None \<and> l \<noteq> Null \<and> r \<noteq> Null)) \<and>
     compact_but x l \<and> compact_but x r"

abbreviation compact :: "'i route_node \<Rightarrow> bool" where
  "compact \<equiv> compact_but None"

text \<open>The contents of a table: the reference count and the information at each key.\<close>

definition lock_at :: "'i route_node \<Rightarrow> key \<Rightarrow> u32" where
  "lock_at t k = (case node_at k t of Null \<Rightarrow> 0 | Node _ lk _ _ _ \<Rightarrow> lk)"

definition info_at :: "'i route_node \<Rightarrow> key \<Rightarrow> 'i option" where
  "info_at t k = (case node_at k t of Null \<Rightarrow> None | Node _ _ ifo _ _ \<Rightarrow> ifo)"

lemma below_self [simp]: "below k k"
  by (simp add: below_def)

lemma below_append: "below k b \<longleftrightarrow> (\<exists>s. k = b @ s)"
proof
  assume "below k b"
  then have "k = b @ drop (length b) k" by (metis append_take_drop_id below_def)
  then show "\<exists>s. k = b @ s" ..
qed (auto simp: below_def)

lemma below_length: "below k b \<Longrightarrow> length b \<le> length k"
  by (auto simp: below_append)

lemma below_trans: "below a b \<Longrightarrow> below b c \<Longrightarrow> below a c"
  by (auto simp: below_append)

lemma below_snoc:
  "below k (b @ [x]) \<longleftrightarrow> below k b \<and> length b < length k \<and> k ! length b = x"
  by (cases "length b < length k")
    (auto simp: below_def take_Suc_conv_app_nth dest: arg_cong[of _ _ length])

lemma below_pbits: "below (pbits p) (pbits n) \<longleftrightarrow> prefixlen n \<le> prefixlen p \<and>
     (\<forall>i<prefixlen n. abit (u_prefix n) i = abit (u_prefix p) i)"
  by (simp add: below_def pbits_prefix_iff)

lemma prefix_match_below:
  assumes "wf_prefix n" "wf_prefix p"
  shows "(if prefixlen n \<le> prefixlen p then prefix_match n p else Inr False) =
           Inr (below (pbits p) (pbits n))"
  using prefix_match_agree[of n p] wf_prefix_bounds[OF assms(1)] wf_prefix_bounds[OF assms(2)]
  by (simp add: below_pbits)

lemma prefix_bit_pbits:
  assumes "wf_prefix p" "i < prefixlen p"
  shows "prefix_bit (u_prefix p) i = Inr (of_bool (pbits p ! i))"
  using assms wf_prefix_bounds[OF assms(1)] by (simp add: prefix_bit_abit pbits_def)

lemma of_bool_eq_0: "((of_bool b :: byte) = 0) = (\<not> b)"
  by simp

lemma node_at_key: "node_at k t = Node q lk ifo l r \<Longrightarrow> pbits q = k"
  by (induction t) (auto split: if_splits)

lemma key_in_left: "trie (Node q lk ifo l r) \<Longrightarrow> k \<in> keys l \<Longrightarrow>
    k \<noteq> pbits q \<and> prefixlen q < length k \<and> \<not> k ! prefixlen q \<and> k \<notin> keys r"
  by (auto simp: below_snoc)

lemma key_in_right: "trie (Node q lk ifo l r) \<Longrightarrow> k \<in> keys r \<Longrightarrow>
    k \<noteq> pbits q \<and> prefixlen q < length k \<and> k ! prefixlen q \<and> k \<notin> keys l"
  by (auto simp: below_snoc)

lemma node_at_None: "trie t \<Longrightarrow> node_at k t = Null \<longleftrightarrow> k \<notin> keys t"
proof (induction t)
  case (Node q lk ifo l r)
  then show ?case
    using key_in_left[OF Node.prems, of k] key_in_right[OF Node.prems, of k] by auto
qed simp

lemma node_at_left [simp]: "trie (Node q lk ifo l r) \<Longrightarrow> k \<in> keys l \<Longrightarrow>
    node_at k (Node q lk ifo l r) = node_at k l"
  using key_in_left[of q lk ifo l r k] by auto

lemma node_at_right [simp]: "trie (Node q lk ifo l r) \<Longrightarrow> k \<in> keys r \<Longrightarrow>
    node_at k (Node q lk ifo l r) = node_at k r"
  using key_in_right[of q lk ifo l r k] by auto

lemma keys_Null: "t = Null \<longleftrightarrow> keys t = {}"
  by (cases t) auto

lemma preorder_distinct: "trie t \<Longrightarrow> distinct (preorder t)"
proof (induction t)
  case (Node q lk ifo l r)
  then show ?case using key_in_left[OF Node.prems] key_in_right[OF Node.prems] by auto
qed simp

lemma at_outside:
  assumes "trie t" "k \<notin> keys t" shows "lock_at t k = 0" "info_at t k = None"
  using assms node_at_None[of t k] by (auto simp: lock_at_def info_at_def)

text \<open>The contents of a node's table from those of its subtrees.\<close>

lemma node_at_Node:
  assumes "trie (Node q lk ifo l r)"
  shows "node_at k (Node q lk ifo l r) =
     (if k = pbits q then Node q lk ifo l r else if below k (pbits q @ [False]) then node_at k l
      else if below k (pbits q @ [True]) then node_at k r else Null)"
proof -
  have *: "k \<noteq> pbits q \<Longrightarrow> \<not> below k (pbits q @ [False]) \<Longrightarrow> node_at k l = Null"
    "k \<noteq> pbits q \<Longrightarrow> \<not> below k (pbits q @ [True]) \<Longrightarrow> node_at k r = Null"
    using assms by (auto simp: node_at_None)
  show ?thesis
    using * by (auto simp: below_snoc)
qed

lemmas contents_Node = lock_at_def info_at_def node_at_Node

subsection \<open>Exact lookup\<close>

lemma lookup_walk_spec:
  assumes "trie t" "wf_prefix p"
  shows "lookup_walk t p = Inr (if info_at t (pbits p) \<noteq> None then Some (pbits p) else None)"
  using assms(1)
proof (induction t)
  case (Node q lk ifo l r)
  note m = prefix_match_below[of q p] 
  show ?case
  proof (cases "below (pbits p) (pbits q)")
    case True
    show ?thesis
    proof (cases "prefixlen q = prefixlen p")
      case eq: True
      with True have "pbits q = pbits p" by (auto simp: pbits_eq_iff below_pbits)
      with Node assms(2) m True eq show ?thesis by (auto simp: info_at_def)
    next
      case False
      with True have lt: "prefixlen q < prefixlen p" by (simp add: below_pbits)
      then have "pbits q \<noteq> pbits p" by (auto simp: pbits_eq_iff)
      with Node assms(2) m True lt show ?thesis
        by (auto simp: prefix_bit_pbits info_at_def)
    qed
  next
    case False
    then have "node_at (pbits p) (Node q lk ifo l r) = Null"
      using Node.prems by (auto simp: node_at_Node below_snoc simp del: node_at.simps)
    with False Node assms(2) m show ?thesis by (simp add: info_at_def del: node_at.simps)
  qed
qed (simp add: info_at_def)

subsection \<open>Longest match\<close>

definition covers :: "'i route_node \<Rightarrow> prefix \<Rightarrow> key \<Rightarrow> bool" where
  "covers t p k \<longleftrightarrow> info_at t k \<noteq> None \<and> below (pbits p) k"

definition longest_match :: "'i route_node \<Rightarrow> prefix \<Rightarrow> key option \<Rightarrow> bool" where
  "longest_match t p m \<longleftrightarrow>
     (case m of
        None \<Rightarrow> (\<forall>k. \<not> covers t p k)
      | Some k \<Rightarrow> covers t p k \<and> (\<forall>k'. covers t p k' \<longrightarrow> length k' \<le> length k))"

lemma covers_Node:
  assumes "trie (Node q lk ifo l r)"
  shows "covers (Node q lk ifo l r) p k \<longleftrightarrow>
     below (pbits p) k \<and> (if k = pbits q then ifo \<noteq> None
       else if below k (pbits q @ [False]) then covers l p k
       else below k (pbits q @ [True]) \<and> covers r p k)"
  using assms by (auto simp: covers_def info_at_def node_at_Node simp del: node_at.simps)

lemma covers_key: "trie t \<Longrightarrow> covers t p k \<Longrightarrow> k \<in> keys t \<and> below (pbits p) k"
  using at_outside(2)[of t k] by (cases "k \<in> keys t") (auto simp: covers_def)

lemma covers_subtree:
  assumes "trie (Node q lk ifo l r)" "below (pbits p) (pbits q)" "prefixlen q < prefixlen p"
  shows "covers (Node q lk ifo l r) p k \<longleftrightarrow> (k = pbits q \<and> ifo \<noteq> None) \<or>
     covers (if pbits p ! prefixlen q then r else l) p k"
proof -
  have side: "pbits p ! prefixlen q = x" if "below (pbits p) k" "below k (pbits q @ [x])" for x
    using below_trans[OF that] by (simp add: below_snoc)
  have l: "k \<noteq> pbits q \<and> below (pbits p) k \<and> below k (pbits q @ [False])" if "covers l p k"
    using that covers_key[of l p k] assms(1) by (auto simp: below_snoc)
  have r: "k \<noteq> pbits q \<and> below (pbits p) k \<and> below k (pbits q @ [True])" if "covers r p k"
    using that covers_key[of r p k] assms(1) by (auto simp: below_snoc)
  show ?thesis
    unfolding covers_Node[OF assms(1)] using side l r assms(2)
    by (auto simp: below_snoc split: if_splits)
qed

lemma match_walk_spec:
  assumes "trie t" "wf_prefix p"
  shows "\<exists>m. longest_match t p m \<and> match_walk t p acc = Inr (case m of None \<Rightarrow> acc | Some k \<Rightarrow> Some k)"
  using assms(1)
proof (induction t arbitrary: acc)
  case Null
  then show ?case
    by (intro exI[of _ None]) (auto simp: longest_match_def covers_def info_at_def)
next
  case (Node q lk ifo l r)
  let ?t = "Node q lk ifo l r"
  note m = prefix_match_below[of q p]
  have at: "k = pbits q \<or> below k (pbits q)" if "covers ?t p k" for k
    using that covers_Node[OF Node.prems, of p k] by (auto simp: below_snoc split: if_splits)
  show ?case
  proof (cases "below (pbits p) (pbits q)")
    case False
    have "\<not> covers ?t p k" for k
      using at[of k] False below_trans[of "pbits p" k "pbits q"] covers_key[OF Node.prems, of p k]
      by auto
    with False Node.prems assms(2) m show ?thesis
      by (intro exI[of _ None]) (simp add: longest_match_def)
  next
    case True
    show ?thesis
    proof (cases "prefixlen q = prefixlen p")
      case eq: True
      with True have pq: "pbits q = pbits p" by (auto simp: pbits_eq_iff below_pbits)
      have "k = pbits q" if "covers ?t p k" for k
        using at[OF that] covers_key[OF Node.prems that] pq by (auto simp: below_append)
      moreover have "covers ?t p (pbits q) \<longleftrightarrow> ifo \<noteq> None"
        using True by (simp add: covers_Node[OF Node.prems])
      ultimately have "longest_match ?t p (if ifo \<noteq> None then Some (pbits q) else None)"
        by (auto simp: longest_match_def)
      with True eq Node.prems assms(2) m show ?thesis
        by (intro exI[of _ "if ifo \<noteq> None then Some (pbits q) else None"]) (simp add: Let_def)
    next
      case False
      with True have lt: "prefixlen q < prefixlen p" by (simp add: below_pbits)
      let ?c = "if pbits p ! prefixlen q then r else l"
      let ?acc = "if ifo \<noteq> None then Some (pbits q) else acc"
      obtain n where n: "longest_match ?c p n"
        "match_walk ?c p ?acc = Inr (case n of None \<Rightarrow> ?acc | Some k \<Rightarrow> Some k)"
        using Node.IH[of ?acc] Node.prems by (cases "pbits p ! prefixlen q") auto
      let ?n = "case n of None \<Rightarrow> if ifo \<noteq> None then Some (pbits q) else None | Some k \<Rightarrow> Some k"
      have deeper: "prefixlen q < length k" if "covers ?c p k" for k
        using that Node.prems covers_key[of l p k] covers_key[of r p k]
        by (auto simp: below_snoc split: if_splits)
      have "longest_match ?t p ?n"
        using n(1) deeper unfolding longest_match_def covers_subtree[OF Node.prems True lt]
        by (auto split: option.splits simp: less_imp_le)
      moreover have "match_walk ?t p acc = Inr (case ?n of None \<Rightarrow> acc | Some k \<Rightarrow> Some k)"
        using n(2) lt True Node.prems assms(2) m
        by (auto simp: Let_def prefix_bit_pbits split: option.splits)
      ultimately show ?thesis by blast
    qed
  qed
qed

subsection \<open>Locking a node\<close>

text \<open>\<open>relock f\<close> changes the reference count of one node and nothing else.\<close>

definition relock :: "(u32 \<Rightarrow> u32) \<Rightarrow> 'i route_node \<Rightarrow> 'i route_node" where
  "relock f n = (case n of Null \<Rightarrow> Null | Node q lk ifo l r \<Rightarrow> Node q (f lk) ifo l r)"

lemma relock_simps [simp]:
  "relock f Null = Null" "relock f (Node q lk ifo l r) = Node q (f lk) ifo l r"
  "relock f (relock g n) = relock (f \<circ> g) n"
  by (auto simp: relock_def split: route_node.splits)

lemma node_lock_relock: "node_lock = relock (\<lambda>lk. lk + 1)"
  "node_unlock = relock (\<lambda>lk. lk - 1)"
  by (auto simp: fun_eq_iff node_lock_def node_unlock_def relock_def)

lemma relock_preorder [simp]: "preorder (update_at k (relock f) t) = preorder t"
  by (induction t) auto

lemma relock_trie [simp]: "trie (update_at k (relock f) t) = trie t"
  by (induction t) auto

lemma relock_Null [simp]: "update_at k (relock f) t = Null \<longleftrightarrow> t = Null"
  using keys_Null[of t] keys_Null[of "update_at k (relock f) t"] by simp

lemma relock_same: "update_at k (relock f) (update_at k (relock g) t) = update_at k (relock (f \<circ> g)) t"
  by (induction t) auto

lemma relock_commute:
  "k \<noteq> k' \<Longrightarrow> update_at k (relock f) (update_at k' (relock g) t) =
     update_at k' (relock g) (update_at k (relock f) t)"
  by (induction t) auto

lemma relock_id: "update_at k (relock (\<lambda>x. x)) t = t"
  by (induction t) (auto simp: relock_def)

lemma relock_unlock_lock: "update_at k node_unlock (update_at k node_lock t) = t"
  by (simp add: node_lock_relock relock_same comp_def relock_id)

lemma relock_node_at: "node_at k (update_at k (relock f) t) = relock f (node_at k t)"
  by (induction t) auto

lemma relock_lock_at:
  "lock_at (update_at k (relock f) t) k' =
     (if k' = k \<and> node_at k t \<noteq> Null then f (lock_at t k) else lock_at t k')"
  by (induction t) (auto simp: lock_at_def)

lemma relock_info_at [simp]: "info_at (update_at k (relock f) t) k' = info_at t k'"
  by (induction t) (auto simp: info_at_def)

lemma relock_compact:
  "compact_but x t \<Longrightarrow> node_at k t = Null \<or> f (lock_at t k) \<noteq> 0 \<or> x = Some k \<Longrightarrow>
   compact_but x (update_at k (relock f) t)"
  by (induction t) (auto simp: lock_at_def split: if_splits)

subsection \<open>Getting a node\<close>

lemma set_link_side:
  assumes "n = Node p' lk' ifo' l' r'" "wf_prefix p'" "below (pbits p') (pbits q @ [b])"
  shows "set_link (Node q lk ifo l r) n = Inr (if b then Node q lk ifo l n else Node q lk ifo n r)"
  using assms prefix_bit_pbits[of p' "prefixlen q"] by (auto simp: set_link_def below_snoc)

lemma prefix_copy_wf:
  assumes "wf_prefix src" "length (u_prefix dest) = 16"
  obtains q where "prefix_copy dest src = Inr q" "wf_prefix q" "pbits q = pbits src"
proof -
  define n where "n = (if family src = AF_INET then 4 else if family src = AF_INET6 then 16 else (8 :: nat))"
  let ?q = "dest\<lparr>family := family src, prefixlen := prefixlen src,
      u_prefix := take n (u_prefix src) @ drop n (u_prefix dest)\<rparr>"
  have n: "prefixlen src \<le> 8 * n" "n \<le> 16"
    using assms(1) by (auto simp: n_def wf_prefix_def max_bits_def split: if_splits)
  have "prefix_copy dest src = Inr ?q"
    using assms(1) by (auto simp: prefix_copy_def Let_def n_def wf_prefix_def)
  moreover have "wf_prefix ?q"
    using assms n(2) by (simp add: wf_prefix_def)
  moreover have "pbits ?q = pbits src"
    using n wf_prefix_bounds(1)[OF assms(1)]
    by (simp add: pbits_eq_iff abit_append abit_take)
  ultimately show thesis by (rule that)
qed

lemma route_node_set_wf:
  assumes "wf_prefix p"
  obtains q where "route_node_set p = Inr (Node q 0 None Null (Null :: 'i route_node))" "wf_prefix q" "pbits q = pbits p"
proof -
  have "length (u_prefix (rn_p (route_node_new :: 'i route_node))) = 16"
    by (simp add: route_node_new_def prefix_new_def)
  from prefix_copy_wf[OF assms this] obtain q where
    q: "prefix_copy (rn_p (route_node_new :: 'i route_node)) p = Inr q" "wf_prefix q" "pbits q = pbits p" .
  then have "route_node_set p = Inr (Node q 0 None Null (Null :: 'i route_node))"
    by (simp add: route_node_set_def)
  then show thesis using q(2,3) by (rule that)
qed

lemma route_common_branch:
  assumes "wf_prefix q" "wf_prefix p" "\<not> below (pbits p) (pbits q)" "length (u_prefix new) = 16"
  obtains np b where "route_common q p new = Inr np"
    "wf_prefix (np\<lparr>family := family p\<rparr>)" "below (pbits q) (pbits np @ [b])"
    "prefixlen np = prefixlen p \<Longrightarrow> pbits np = pbits p"
    "prefixlen np \<noteq> prefixlen p \<Longrightarrow> below (pbits p) (pbits np @ [\<not> b])"
proof -
  obtain np where np: "route_common q p new = Inr np" "length (u_prefix np) = 16"
    "prefixlen np \<le> prefixlen p"
    "\<And>i. i < prefixlen np \<Longrightarrow> abit (u_prefix q) i = abit (u_prefix p) i"
    "\<And>i. i < prefixlen np \<Longrightarrow> abit (u_prefix np) i = abit (u_prefix p) i"
    "prefixlen np < prefixlen p \<Longrightarrow> abit (u_prefix q) (prefixlen np) \<noteq> abit (u_prefix p) (prefixlen np)"
    using route_common_spec[OF assms(1,2,4)] by metis
  have lt: "prefixlen np < prefixlen q"
  proof (rule ccontr)
    assume "\<not> prefixlen np < prefixlen q"
    then have "below (pbits p) (pbits q)" using np(3,4) by (auto simp: below_pbits)
    with assms(3) show False ..
  qed
  let ?b = "abit (u_prefix q) (prefixlen np)"
  show thesis
  proof (rule that[of np ?b, OF np(1)])
    show "wf_prefix (np\<lparr>family := family p\<rparr>)"
      using np(2,3) assms(2) by (auto simp: wf_prefix_def)
    show "below (pbits q) (pbits np @ [?b])"
      using lt np(4,5) by (auto simp: below_snoc below_pbits)
    show "pbits np = pbits p" if "prefixlen np = prefixlen p"
      using that np(5) by (auto simp: pbits_eq_iff)
    show "below (pbits p) (pbits np @ [\<not> ?b])" if "prefixlen np \<noteq> prefixlen p"
      using that np(3,5,6) by (auto simp: below_snoc below_pbits)
  qed
qed

lemma below_neq: "below k (b @ [x]) \<Longrightarrow> k \<noteq> b"
  by (auto simp: below_snoc)

lemma lock_at_Node:
  assumes "trie (Node q lk ifo l r)"
  shows "lock_at (Node q lk ifo l r) k =
     (if k = pbits q then lk else if below k (pbits q @ [False]) then lock_at l k
      else if below k (pbits q @ [True]) then lock_at r k else 0)"
  using assms by (auto simp: lock_at_def node_at_Node simp del: node_at.simps)

lemma info_at_Node:
  assumes "trie (Node q lk ifo l r)"
  shows "info_at (Node q lk ifo l r) k =
     (if k = pbits q then ifo else if below k (pbits q @ [False]) then info_at l k
      else if below k (pbits q @ [True]) then info_at r k else None)"
  using assms by (auto simp: info_at_def node_at_Node simp del: node_at.simps)

text \<open>What \<^verbatim>\<open>route_node_get\<close> promises of the new tree.\<close>

definition get_result :: "'i route_node \<Rightarrow> prefix \<Rightarrow> 'i route_node \<Rightarrow> bool" where
  "get_result t p t' \<longleftrightarrow> trie t' \<and> compact t' \<and> keys t \<subseteq> keys t' \<and> pbits p \<in> keys t' \<and>
     (\<forall>k. lock_at t' k = (if k = pbits p then lock_at t k + 1 else lock_at t k)) \<and>
     (\<forall>k. info_at t' k = info_at t k) \<and>
     (\<forall>b. (\<forall>k\<in>keys t. below k b) \<longrightarrow> below (pbits p) b \<longrightarrow> (\<forall>k\<in>keys t'. below k b))"

lemma get_resultD:
  assumes "get_result t p t'"
  shows "trie t'" "compact t'" "keys t \<subseteq> keys t'" "pbits p \<in> keys t'"
    "lock_at t' k = (if k = pbits p then lock_at t k + 1 else lock_at t k)"
    "info_at t' k = info_at t k"
    "\<forall>k\<in>keys t. below k b \<Longrightarrow> below (pbits p) b \<Longrightarrow> \<forall>k\<in>keys t'. below k b"
  using assms unfolding get_result_def by blast+

lemma get_resultI:
  assumes "trie t'" "compact t'" "keys t \<subseteq> keys t'" "pbits p \<in> keys t'"
    "\<And>k. lock_at t' k = (if k = pbits p then lock_at t k + 1 else lock_at t k)"
    "\<And>k. info_at t' k = info_at t k"
    "\<And>b. \<forall>k\<in>keys t. below k b \<Longrightarrow> below (pbits p) b \<Longrightarrow> \<forall>k\<in>keys t'. below k b"
  shows "get_result t p t'"
  unfolding get_result_def using assms by blast

lemma get_result_leaf:
  assumes "wf_prefix q" "pbits q = pbits p"
  shows "get_result Null p (Node q 1 None Null Null)"
  using assms by (intro get_resultI) (auto simp: lock_at_def info_at_def)

lemma get_result_here:
  assumes "trie (Node q lk ifo l r)" "compact (Node q lk ifo l r)" "pbits q = pbits p" "lk + 1 \<noteq> 0"
  shows "get_result (Node q lk ifo l r) p (Node q (lk + 1) ifo l r)"
  using assms by (intro get_resultI) (auto simp: lock_at_def info_at_def)

lemma get_result_left:
  assumes t: "trie (Node q lk ifo l r)" "compact (Node q lk ifo l r)"
    and p: "below (pbits p) (pbits q @ [False])"
    and c: "get_result l p c"
  shows "get_result (Node q lk ifo l r) p (Node q lk ifo c r)"
proof -
  note D = get_resultD[OF c]
  have side: "\<forall>k\<in>keys c. below k (pbits q @ [False])"
    using t(1) p by (intro D(7)) auto
  have c0: "c \<noteq> Null" using D(4) by auto
  have pq: "pbits p \<noteq> pbits q" using p by (rule below_neq)
  have t': "trie (Node q lk ifo c r)" using t(1) D(1) side by simp
  show ?thesis
  proof (rule get_resultI)
    show "lock_at (Node q lk ifo c r) k = (if k = pbits p then lock_at (Node q lk ifo l r) k + 1
        else lock_at (Node q lk ifo l r) k)" for k
      using p pq D(5) by (auto simp: lock_at_Node[OF t(1)] lock_at_Node[OF t'] below_snoc)
    show "info_at (Node q lk ifo c r) k = info_at (Node q lk ifo l r) k" for k
      using p pq D(6) by (auto simp: info_at_Node[OF t(1)] info_at_Node[OF t'] below_snoc)
    show "\<forall>k\<in>keys (Node q lk ifo c r). below k b"
      if "\<forall>k\<in>keys (Node q lk ifo l r). below k b" "below (pbits p) b" for b
      using that D(7)[of b] by (simp add: ball_Un)
  qed (use t(2) t' c0 D(2,3,4) in auto)
qed

lemma get_result_right:
  assumes t: "trie (Node q lk ifo l r)" "compact (Node q lk ifo l r)"
    and p: "below (pbits p) (pbits q @ [True])"
    and c: "get_result r p c"
  shows "get_result (Node q lk ifo l r) p (Node q lk ifo l c)"
proof -
  note D = get_resultD[OF c]
  have side: "\<forall>k\<in>keys c. below k (pbits q @ [True])"
    using t(1) p by (intro D(7)) auto
  have c0: "c \<noteq> Null" using D(4) by auto
  have pq: "pbits p \<noteq> pbits q" using p by (rule below_neq)
  have t': "trie (Node q lk ifo l c)" using t(1) D(1) side by simp
  show ?thesis
  proof (rule get_resultI)
    show "lock_at (Node q lk ifo l c) k = (if k = pbits p then lock_at (Node q lk ifo l r) k + 1
        else lock_at (Node q lk ifo l r) k)" for k
      using p pq D(5) by (auto simp: lock_at_Node[OF t(1)] lock_at_Node[OF t'] below_snoc)
    show "info_at (Node q lk ifo l c) k = info_at (Node q lk ifo l r) k" for k
      using p pq D(6) by (auto simp: info_at_Node[OF t(1)] info_at_Node[OF t'] below_snoc)
    show "\<forall>k\<in>keys (Node q lk ifo l c). below k b"
      if "\<forall>k\<in>keys (Node q lk ifo l r). below k b" "below (pbits p) b" for b
      using that D(7)[of b] by (simp add: ball_Un)
  qed (use t(2) t' c0 D(2,3,4) in auto)
qed

lemma fork_below:
  assumes "below a x" "below c x" "below a (n @ [b])" "below c (n @ [\<not> b])"
  shows "below n x"
proof (cases "length x \<le> length n")
  case True
  with assms(1,3) show ?thesis by (auto simp: below_append append_eq_append_conv2)
next
  case False
  then have "x ! length n = a ! length n" "x ! length n = c ! length n"
    using assms(1,2) by (auto simp: below_append nth_append)
  with assms(3,4) show ?thesis by (auto simp: below_snoc)
qed

lemma keys_below_root:
  assumes "trie (Node q lk ifo l r)" "below (pbits q) b" "k \<in> keys (Node q lk ifo l r)"
  shows "below k b"
proof -
  have "below k (pbits q)" using assms(1,3) by (auto simp: below_snoc)
  then show ?thesis using assms(2) by (rule below_trans)
qed

lemma contents_outside:
  assumes "trie t" "\<forall>k\<in>keys t. below k b" "\<not> below k b"
  shows "lock_at t k = 0" "info_at t k = None"
  using at_outside[OF assms(1), of k] assms(2,3) by auto

lemma contents_Null [simp]: "lock_at Null k = 0" "info_at Null k = None"
  by (simp_all add: lock_at_def info_at_def)

lemma get_result_fork:
  fixes q :: prefix and ifo :: "'i option" and lk :: u32 and l r :: "'i route_node"
  defines "t \<equiv> Node q lk ifo l r"
  assumes t: "trie t" "compact t"
    and n: "wf_prefix n" "below (pbits q) (pbits n @ [b])"
    and m: "wf_prefix m" "below (pbits p) (pbits n @ [\<not> b])" "pbits m = pbits p"
  shows "get_result t p (if b then Node n 0 None (Node m 1 None Null Null) t
      else Node n 0 None t (Node m 1 None Null Null))" (is "get_result _ _ ?t'")
proof -
  let ?m = "Node m 1 None Null Null :: 'i route_node"
  have side: "\<forall>k\<in>keys t. below k (pbits n @ [b])" using keys_below_root[OF t(1)[unfolded t_def] n(2)] by (auto simp: t_def)
  have tm: "trie ?m" "keys ?m = {pbits p}" using m by auto
  have t': "trie ?t'" using t(1) n(1) m side by (cases b) simp_all
  have leaf: "lock_at ?m k = (if k = pbits p then 1 else 0)" "info_at ?m k = None" for k
    using m(3) by (auto simp: lock_at_Node[OF tm(1)] info_at_Node[OF tm(1)])
  have at: "lock_at ?t' k = (if k = pbits n then 0 else if below k (pbits n @ [b]) then lock_at t k
      else if below k (pbits n @ [\<not> b]) then lock_at ?m k else 0)"
    "info_at ?t' k = (if k = pbits n then None else if below k (pbits n @ [b]) then info_at t k
      else if below k (pbits n @ [\<not> b]) then info_at ?m k else None)" for k
    using lock_at_Node[of n 0 None ?m t] lock_at_Node[of n 0 None t ?m] t'
      info_at_Node[of n 0 None ?m t] info_at_Node[of n 0 None t ?m]
    by (cases b; simp add: below_snoc del: trie.simps; fail)+
  have pn: "pbits p \<noteq> pbits n" using m(2) by (rule below_neq)
  note out = contents_outside[OF t(1) side]
  show ?thesis
  proof (rule get_resultI)
    show "lock_at ?t' k = (if k = pbits p then lock_at t k + 1 else lock_at t k)" for k
      using at(1)[of k] leaf(1)[of k] out(1)[of k] m(2) pn by (auto simp: below_snoc)
    show "info_at ?t' k = info_at t k" for k
      using at(2)[of k] leaf(2)[of k] out(2)[of k] m(2) pn by (auto simp: below_snoc)
    show "\<forall>k\<in>keys ?t'. below k x"
      if "\<forall>k\<in>keys t. below k x" "below (pbits p) x" for x
      using that fork_below[OF _ that(2) n(2) m(2)] m(3) by (cases b) (simp_all add: t_def)
    show "keys t \<subseteq> keys ?t'" "pbits p \<in> keys ?t'" using m(3) by (cases b; auto)+
    show "compact ?t'" using t(2) by (cases b) (simp_all add: t_def)
  qed (rule t')
qed

lemma get_result_above:
  fixes q :: prefix and ifo :: "'i option" and lk :: u32 and l r :: "'i route_node"
  defines "t \<equiv> Node q lk ifo l r"
  assumes t: "trie t" "compact t"
    and n: "wf_prefix n" "below (pbits q) (pbits n @ [b])" "pbits n = pbits p"
  shows "get_result t p (if b then Node n 1 None Null t else Node n 1 None t Null)"
    (is "get_result _ _ ?t'")
proof -
  have side: "\<forall>k\<in>keys t. below k (pbits n @ [b])" using keys_below_root[OF t(1)[unfolded t_def] n(2)] by (auto simp: t_def)
  have t': "trie ?t'" using t(1) n(1) side by (cases b) simp_all
  note out = contents_outside[OF t(1) side]
  show ?thesis
  proof (rule get_resultI)
    show "lock_at ?t' k = (if k = pbits p then lock_at t k + 1 else lock_at t k)" for k
      using t' n(3) out(1)[of k]
      by (cases b) (auto simp: lock_at_Node[of n] below_snoc)
    show "info_at ?t' k = info_at t k" for k
      using t' n(3) out(2)[of k]
      by (cases b) (auto simp: info_at_Node[of n] below_snoc)
    show "\<forall>k\<in>keys ?t'. below k x"
      if "\<forall>k\<in>keys t. below k x" "below (pbits p) x" for x
      using that n(3) by (cases b) simp_all
    show "keys t \<subseteq> keys ?t'" "pbits p \<in> keys ?t'" using n(3) by (cases b; auto)+
    show "compact ?t'" using t(2) by (cases b) (simp_all add: t_def)
  qed (rule t')
qed

lemma below_cases: "below k b \<Longrightarrow> k = b \<or> below k (b @ [False]) \<or> below k (b @ [True])"
  by (auto simp: below_append) (metis (full_types) neq_Nil_conv)

lemma route_node_get_spec:
  assumes "trie t" "compact t" "wf_prefix p" "lock_at t (pbits p) + 1 \<noteq> 0"
  shows "\<exists>t'. route_node_get t p = Inr (t', pbits p) \<and> get_result t p t'"
  using assms(1,2,4)
proof (induction t)
  case Null
  obtain q where q: "route_node_set p = Inr (Node q 0 None Null (Null :: 'a route_node))"
    "wf_prefix q" "pbits q = pbits p" using route_node_set_wf[OF assms(3)] .
  then show ?case
    using get_result_leaf[of q p] by (auto simp: node_lock_relock)
next
  case (Node q lk ifo l r)
  let ?t = "Node q lk ifo l r"
  have wq: "wf_prefix q" using Node.prems(1) by simp
  note m = prefix_match_below[OF wq assms(3)]
  consider (here) "pbits q = pbits p"
    | (left) "below (pbits p) (pbits q @ [False])" | (right) "below (pbits p) (pbits q @ [True])"
    | (out) "\<not> below (pbits p) (pbits q)"
    using below_cases[of "pbits p" "pbits q"] by metis
  then show ?case
  proof cases
    case here
    then have "prefixlen q = prefixlen p" "below (pbits p) (pbits q)"
      by (auto simp: pbits_eq_iff below_pbits)
    moreover have "lk + 1 \<noteq> 0" using Node.prems(3) here by (simp add: lock_at_def)
    ultimately show ?thesis
      using m here get_result_here[OF Node.prems(1,2) here] by (simp add: node_lock_relock)
  next
    case left
    then have lt: "prefixlen q < prefixlen p" "below (pbits p) (pbits q)" "\<not> pbits p ! prefixlen q"
      "pbits p \<noteq> pbits q" using below_neq[OF left] by (auto simp: below_snoc)
    have "lock_at l (pbits p) = lock_at ?t (pbits p)"
      using left lt(4) by (subst lock_at_Node[OF Node.prems(1)]) simp
    with Node obtain c where c: "route_node_get l p = Inr (c, pbits p)" "get_result l p c" by auto
    from get_resultD(1,4)[OF c(2)] obtain q' lk' ifo' l' r' where
      c': "c = Node q' lk' ifo' l' r'" "wf_prefix q'" by (cases c) auto
    have "below (pbits q') (pbits q @ [False])"
      using get_resultD(7)[OF c(2), of "pbits q @ [False]"] Node.prems(1) left c'(1) by auto
    then have "set_link ?t c = Inr (Node q lk ifo c r)" using set_link_side[OF c'] by simp
    with c(1) lt m assms(3) get_result_left[OF Node.prems(1,2) left c(2)] show ?thesis
      by (auto simp: prefix_bit_pbits)
  next
    case right
    then have lt: "prefixlen q < prefixlen p" "below (pbits p) (pbits q)" "pbits p ! prefixlen q"
      "pbits p \<noteq> pbits q" using below_neq[OF right] by (auto simp: below_snoc)
    have "lock_at r (pbits p) = lock_at ?t (pbits p)"
      using right lt(3,4) by (subst lock_at_Node[OF Node.prems(1)]) (simp add: below_snoc)
    with Node obtain c where c: "route_node_get r p = Inr (c, pbits p)" "get_result r p c" by auto
    from get_resultD(1,4)[OF c(2)] obtain q' lk' ifo' l' r' where
      c': "c = Node q' lk' ifo' l' r'" "wf_prefix q'" by (cases c) auto
    have "below (pbits q') (pbits q @ [True])"
      using get_resultD(7)[OF c(2), of "pbits q @ [True]"] Node.prems(1) right c'(1) by auto
    then have "set_link ?t c = Inr (Node q lk ifo l c)" using set_link_side[OF c'] by simp
    with c(1) lt m assms(3) get_result_right[OF Node.prems(1,2) right c(2)] show ?thesis
      by (auto simp: prefix_bit_pbits)
  next
    case out
    have "length (u_prefix (rn_p (route_node_new :: 'a route_node))) = 16"
      by (simp add: route_node_new_def prefix_new_def)
    from route_common_branch[OF wq assms(3) out this] obtain np b where
      np: "route_common q p (rn_p (route_node_new :: 'a route_node)) = Inr np"
        "wf_prefix (np\<lparr>family := family p\<rparr>)" "below (pbits q) (pbits np @ [b])"
        "prefixlen np = prefixlen p \<Longrightarrow> pbits np = pbits p"
        "prefixlen np \<noteq> prefixlen p \<Longrightarrow> below (pbits p) (pbits np @ [\<not> b])" by metis
    let ?n = "np\<lparr>family := family p\<rparr>"
    have n: "pbits ?n = pbits np" by (simp add: pbits_def)
    have link: "set_link (Node ?n 0 None Null Null) ?t =
        Inr (if b then Node ?n 0 None Null ?t else Node ?n 0 None ?t Null)"
      using np(3) n by (subst set_link_side[OF refl wq, of _ b]) auto
    show ?thesis
    proof (cases "prefixlen np = prefixlen p")
      case True
      with np n link out m get_result_above[OF Node.prems(1,2) np(2), of b p] show ?thesis
        by (cases b) (auto simp: node_lock_relock Let_def)
    next
      case False
      obtain m' where q: "route_node_set p = Inr (Node m' 0 None Null (Null :: 'a route_node))"
        "wf_prefix m'" "pbits m' = pbits p" using route_node_set_wf[OF assms(3)] .
      let ?m = "Node m' 1 None Null (Null :: 'a route_node)"
      have "set_link (if b then Node ?n 0 None Null ?t else Node ?n 0 None ?t Null) ?m =
          Inr (if b then Node ?n 0 None ?m ?t else Node ?n 0 None ?t ?m)"
        using np(5)[OF False] n q(3) set_link_side[OF refl q(2), of ?n False 0 None Null ?t 1 None Null Null]
          set_link_side[OF refl q(2), of ?n True 0 None ?t Null 1 None Null Null]
        by (cases b) simp_all
      with False np n link out m q get_result_fork[OF Node.prems(1,2) np(2) _ q(2), of b p] show ?thesis
        by (cases b) (auto simp: node_lock_relock Let_def)
    qed
  qed
qed

subsection \<open>Deleting a node\<close>

lemma compact_but_mono: "compact t \<Longrightarrow> compact_but x t"
  by (induction t) auto

lemma compact_but_outside: "compact_but (Some k) t \<Longrightarrow> k \<notin> keys t \<Longrightarrow> compact_but x t"
  by (induction t) auto

lemma compact_but_fill:
  assumes "trie t" "compact_but (Some k) t" "node_at k t = Node q lk ifo l r"
    "lk \<noteq> 0 \<or> (ifo = None \<and> l \<noteq> Null \<and> r \<noteq> Null)"
  shows "compact t"
  using assms(1-3)
proof (induction t)
  case (Node q' lk' ifo' l' r')
  show ?case
  proof (cases "pbits q' = k")
    case True
    then have "k \<notin> keys l'" "k \<notin> keys r'"
      using key_in_left[OF Node.prems(1), of k] key_in_right[OF Node.prems(1), of k] by auto
    with Node.prems True assms(4) show ?thesis
      using compact_but_outside[of k l' None] compact_but_outside[of k r' None] by auto
  next
    case False
    with Node.prems(3) consider "k \<in> keys l'" | "k \<in> keys r'"
      using node_at_None[OF Node.prems(1), of k] by auto
    then show ?thesis
    proof cases
      case 1
      with Node False key_in_left[OF Node.prems(1) 1] compact_but_outside[of k r' None]
      show ?thesis by auto
    next
      case 2
      with Node False key_in_right[OF Node.prems(1) 2] compact_but_outside[of k l' None]
      show ?thesis by auto
    qed
  qed
qed simp

lemma compact_info:
  "trie t \<Longrightarrow> compact_but x t \<Longrightarrow> x \<noteq> Some k \<Longrightarrow> lock_at t k = 0 \<Longrightarrow> info_at t k = None"
  by (induction t) (auto simp: lock_at_def info_at_def split: if_splits)

lemma parent_of_Some:
  assumes "trie t" "k \<in> keys t" "node_key t \<noteq> Some k"
  shows "\<exists>pk \<in> keys t. parent_of k t = Some pk \<and> pk \<noteq> k"
  using assms
proof (induction t)
  case (Node q lk ifo l r)
  from Node.prems(2,3) consider "k \<in> keys l" | "k \<in> keys r" by (auto simp: node_key_def)
  then show ?case
  proof cases
    case 1
    with Node key_in_left[OF Node.prems(1) 1] show ?thesis by (auto simp: Let_def)
  next
    case 2
    with Node key_in_right[OF Node.prems(1) 2] show ?thesis by (auto simp: Let_def)
  qed
qed simp

lemma parent_of_root: "node_key t = Some k \<Longrightarrow> parent_of k t = None"
  by (cases t) (auto simp: node_key_def)

text \<open>Replacing a node by its only child removes its key and keeps everything else; afterwards
  only the parent may have become superfluous.\<close>

definition splice_result :: "'i route_node \<Rightarrow> key \<Rightarrow> 'i route_node \<Rightarrow> bool" where
  "splice_result t k t' \<longleftrightarrow> trie t' \<and> keys t' = keys t - {k} \<and> compact_but (parent_of k t) t' \<and>
     (\<forall>k'. k' \<noteq> k \<longrightarrow> lock_at t' k' = lock_at t k' \<and> info_at t' k' = info_at t k')"

lemma splice_resultI:
  assumes "trie t'" "keys t' = keys t - {k}" "compact_but (parent_of k t) t'"
    "\<And>k'. k' \<noteq> k \<Longrightarrow> lock_at t' k' = lock_at t k'" "\<And>k'. k' \<noteq> k \<Longrightarrow> info_at t' k' = info_at t k'"
  shows "splice_result t k t'"
  using assms by (simp add: splice_result_def)

lemma splice_here:
  assumes t: "trie (Node q lk ifo l r)" "compact_but (Some (pbits q)) (Node q lk ifo l r)"
    and c: "(l = Null \<and> c = r) \<or> (r = Null \<and> c = l)"
  shows "splice_result (Node q lk ifo l r) (pbits q) c"
proof (rule splice_resultI)
  have k: "pbits q \<notin> keys l" "pbits q \<notin> keys r"
    using key_in_left[OF t(1), of "pbits q"] key_in_right[OF t(1), of "pbits q"] by auto
  show "trie c" using t(1) c by auto
  show "keys c = keys (Node q lk ifo l r) - {pbits q}" using c k by auto
  show "compact_but (parent_of (pbits q) (Node q lk ifo l r)) c"
    using t(2) c k compact_but_outside[of "pbits q" c None] by auto
  have side: "\<forall>k\<in>keys l. below k (pbits q @ [False])" "\<forall>k\<in>keys r. below k (pbits q @ [True])"
    and tt: "trie l" "trie r" using t(1) by auto
  note out = contents_outside[OF tt(1) side(1)] contents_outside[OF tt(2) side(2)]
  show "lock_at c k' = lock_at (Node q lk ifo l r) k'" if "k' \<noteq> pbits q" for k'
    using c that out(1,3)[of k'] unfolding lock_at_Node[OF t(1)] by (auto simp: below_snoc)
  show "info_at c k' = info_at (Node q lk ifo l r) k'" if "k' \<noteq> pbits q" for k'
    using c that out(2,4)[of k'] unfolding info_at_Node[OF t(1)] by (auto simp: below_snoc)
qed

lemma splice_left:
  assumes t: "trie (Node q lk ifo l r)" "compact_but (Some k) (Node q lk ifo l r)"
    and k: "k \<in> keys l" and s: "splice_result l k l'" "node_key l \<noteq> Some k \<Longrightarrow> l' \<noteq> Null"
  shows "splice_result (Node q lk ifo l r) k (Node q lk ifo l' r)"
proof (rule splice_resultI)
  note K = key_in_left[OF t(1) k]
  note S = s(1)[unfolded splice_result_def]
  show t': "trie (Node q lk ifo l' r)" using t(1) S by auto
  show "keys (Node q lk ifo l' r) = keys (Node q lk ifo l r) - {k}" using S K by auto
  have r: "compact_but x r" for x using compact_but_outside[of k r x] t(2) K by auto
  show "compact_but (parent_of k (Node q lk ifo l r)) (Node q lk ifo l' r)"
  proof (cases "node_key l = Some k")
    case True
    then have "compact_but None l'" using S parent_of_root[OF True] by simp
    with True K r show ?thesis by (auto simp: Let_def intro: compact_but_mono)
  next
    case False
    with s(2) K r S t(2) show ?thesis by (auto simp: Let_def)
  qed
  show "lock_at (Node q lk ifo l' r) k' = lock_at (Node q lk ifo l r) k'" if "k' \<noteq> k" for k'
    unfolding lock_at_Node[OF t(1)] lock_at_Node[OF t'] using S that by simp
  show "info_at (Node q lk ifo l' r) k' = info_at (Node q lk ifo l r) k'" if "k' \<noteq> k" for k'
    unfolding info_at_Node[OF t(1)] info_at_Node[OF t'] using S that by simp
qed

lemma splice_right:
  assumes t: "trie (Node q lk ifo l r)" "compact_but (Some k) (Node q lk ifo l r)"
    and k: "k \<in> keys r" and s: "splice_result r k r'" "node_key r \<noteq> Some k \<Longrightarrow> r' \<noteq> Null"
  shows "splice_result (Node q lk ifo l r) k (Node q lk ifo l r')"
proof (rule splice_resultI)
  note K = key_in_right[OF t(1) k]
  note S = s(1)[unfolded splice_result_def]
  show t': "trie (Node q lk ifo l r')" using t(1) S by auto
  show "keys (Node q lk ifo l r') = keys (Node q lk ifo l r) - {k}" using S K by auto
  have l: "compact_but x l" for x using compact_but_outside[of k l x] t(2) K by auto
  show "compact_but (parent_of k (Node q lk ifo l r)) (Node q lk ifo l r')"
  proof (cases "node_key r = Some k")
    case True
    then have "compact_but None r'" using S parent_of_root[OF True] by simp
    with True K l show ?thesis by (auto simp: Let_def intro: compact_but_mono)
  next
    case False
    with s(2) K l S t(2) show ?thesis by (auto simp: Let_def)
  qed
  show "lock_at (Node q lk ifo l r') k' = lock_at (Node q lk ifo l r) k'" if "k' \<noteq> k" for k'
    unfolding lock_at_Node[OF t(1)] lock_at_Node[OF t'] using S that by simp
  show "info_at (Node q lk ifo l r') k' = info_at (Node q lk ifo l r) k'" if "k' \<noteq> k" for k'
    unfolding info_at_Node[OF t(1)] info_at_Node[OF t'] using S that by simp
qed

lemma splice_spec:
  assumes "trie t" "compact_but (Some k) t" "node_at k t = Node q lk ifo l r"
    "(l = Null \<and> c = r) \<or> (r = Null \<and> c = l)"
  shows "splice_result t k (update_at k (\<lambda>_. c) t)"
  using assms(1-3)
proof (induction t)
  case (Node q' lk' ifo' l' r')
  consider "k = pbits q'" | "k \<in> keys l'" | "k \<in> keys r'"
    using node_at_None[OF Node.prems(1), of k] Node.prems(3) by auto
  then show ?case
  proof cases
    case 1
    with Node.prems assms(4) show ?thesis using splice_here[of q' lk' ifo' l' r' c] by simp
  next
    case 2
    note K = key_in_left[OF Node.prems(1) 2]
    have "splice_result l' k (update_at k (\<lambda>_. c) l')" using Node K by auto
    moreover have "node_key l' \<noteq> Some k \<Longrightarrow> update_at k (\<lambda>_. c) l' \<noteq> Null"
      using 2 by (cases l') (auto simp: node_key_def)
    ultimately show ?thesis using splice_left[OF Node.prems(1,2) 2] K by auto
  next
    case 3
    note K = key_in_right[OF Node.prems(1) 3]
    have "splice_result r' k (update_at k (\<lambda>_. c) r')" using Node K by auto
    moreover have "node_key r' \<noteq> Some k \<Longrightarrow> update_at k (\<lambda>_. c) r' \<noteq> Null"
      using 3 by (cases r') (auto simp: node_key_def)
    ultimately show ?thesis using splice_right[OF Node.prems(1,2) 3] K by auto
  qed
qed simp

definition same_contents :: "'i route_node \<Rightarrow> 'i route_node \<Rightarrow> bool" where
  "same_contents t t' \<longleftrightarrow> (\<forall>k. lock_at t' k = lock_at t k \<and> info_at t' k = info_at t k)"

lemma route_node_delete_spec:
  assumes "trie t" "compact_but (Some k) t" "k \<in> keys t" "lock_at t k = 0" "info_at t k = None"
  shows "\<exists>t'. route_node_delete t k = Inr t' \<and> trie t' \<and> compact t' \<and> keys t' \<subseteq> keys t \<and>
     same_contents t t'"
  using assms
proof (induction t k rule: route_node_delete.induct)
  case (1 t k)
  obtain q lk ifo l r where n: "node_at k t = Node q lk ifo l r"
    using node_at_None[OF 1(2), of k] 1(4) by (cases "node_at k t") auto
  then have lk: "lk = 0" "ifo = None" using 1(5,6) by (auto simp: lock_at_def info_at_def)
  show ?case
  proof (cases "l \<noteq> Null \<and> r \<noteq> Null")
    case True
    then have "compact t" using compact_but_fill[OF 1(2,3) n] lk by simp
    with True n lk 1(2) show ?thesis
      by (subst route_node_delete.simps) (auto simp: same_contents_def)
  next
    case False
    let ?c = "if l \<noteq> Null then l else r"
    let ?t = "update_at k (\<lambda>_. ?c) t"
    have s: "splice_result t k ?t" using splice_spec[OF 1(2,3) n] False by auto
    note S = s[unfolded splice_result_def]
    have gone: "lock_at ?t k = 0" "info_at ?t k = None"
      using at_outside[of ?t k] S by auto
    have same: "same_contents t ?t"
      unfolding same_contents_def using S gone 1(5,6) by metis
    show ?thesis
    proof (cases "parent_of k t")
      case None
      with S n lk False same show ?thesis
        by (subst route_node_delete.simps) (auto simp: Let_def)
    next
      case (Some pk)
      have pk: "pk \<in> keys t" "pk \<noteq> k"
        using parent_of_Some[OF 1(2,4)] parent_of_root[of t k] Some by auto
      then have lock: "rn_lock (node_at pk t) = lock_at t pk"
        using node_at_None[OF 1(2), of pk] by (auto simp: lock_at_def split: route_node.splits)
      show ?thesis
      proof (cases "lock_at t pk = 0")
        case True
        have "\<exists>t'. route_node_delete ?t pk = Inr t' \<and> trie t' \<and> compact t' \<and> keys t' \<subseteq> keys ?t \<and>
            same_contents ?t t'"
        proof (rule 1(1))
          show "info_at ?t pk = None" using compact_info[OF 1(2,3) _ True] pk S by auto
        qed (use n lk False Some True lock S pk in auto)
        then show ?thesis using n lk False Some True lock S same
          by (subst route_node_delete.simps) (auto simp: Let_def same_contents_def)
      next
        case no: False
        have "node_at pk ?t \<noteq> Null" using node_at_None[of ?t pk] S pk by auto
        moreover have "lock_at ?t pk \<noteq> 0" using S pk no by auto
        ultimately have "compact ?t"
          using compact_but_fill[of ?t pk] S Some by (cases "node_at pk ?t") (auto simp: lock_at_def)
        then show ?thesis using n lk False Some no lock S same
          by (subst route_node_delete.simps) (auto simp: Let_def)
      qed
    qed
  qed
qed

subsection \<open>Releasing a node\<close>

lemma route_unlock_node_spec:
  assumes "trie t" "compact t" "k \<in> keys t" "lock_at t k = 1 \<Longrightarrow> info_at t k = None"
  shows "\<exists>t'. route_unlock_node t k = Inr t' \<and> trie t' \<and> compact t' \<and> keys t' \<subseteq> keys t \<and>
     lock_at t' = (lock_at t)(k := lock_at t k - 1) \<and> info_at t' = info_at t"
proof -
  let ?t = "update_at k node_unlock t"
  have n: "node_at k t \<noteq> Null" using node_at_None[OF assms(1)] assms(3) by auto
  have rl: "lock_at ?t = (lock_at t)(k := lock_at t k - 1)" "info_at ?t = info_at t"
    "trie ?t" "keys ?t = keys t"
    unfolding node_lock_relock
    by ((intro ext, use n in \<open>simp add: relock_lock_at\<close>), (intro ext, simp)) (use assms(1) in simp_all)
  have "node_at k ?t \<noteq> Null" using node_at_None[OF rl(3), of k] rl(4) assms(3) by auto
  then have lock: "rn_lock (node_at k ?t) = lock_at t k - 1"
    using fun_cong[OF rl(1), of k] by (cases "node_at k ?t") (auto simp: lock_at_def)
  show ?thesis
  proof (cases "lock_at t k - 1 = 0")
    case True
    then have "info_at ?t k = None" using assms(4) rl(2) by simp
    moreover have "compact_but (Some k) ?t"
      unfolding node_lock_relock by (rule relock_compact[OF compact_but_mono[OF assms(2)]]) simp
    ultimately obtain t' where t': "route_node_delete ?t k = Inr t'" "trie t'" "compact t'"
      "keys t' \<subseteq> keys t" "same_contents ?t t'"
      using route_node_delete_spec[of ?t k] rl assms(3) True by auto
    then have "lock_at t' = lock_at ?t" "info_at t' = info_at ?t"
      by (simp_all add: same_contents_def fun_eq_iff)
    moreover have "route_unlock_node t k = Inr t'"
      using t'(1) True lock n by (simp add: route_unlock_node_def Let_def)
    ultimately show ?thesis using t'(2-4) rl(1,2) by simp
  next
    case False
    have "compact ?t"
      unfolding node_lock_relock by (intro relock_compact assms(2)) (use False in simp)
    moreover have "route_unlock_node t k = Inr ?t"
      using False lock n by (simp add: route_unlock_node_def Let_def)
    ultimately show ?thesis using rl by simp
  qed
qed

subsection \<open>Iteration\<close>

text \<open>The node after a whole subtree, by recursion instead of by \<^verbatim>\<open>parent\<close> pointers.\<close>

lemma node_key_Some: "node_key t = Some k \<Longrightarrow> k \<in> keys t"
  by (cases t) (auto simp: node_key_def)

lemma node_key_hd: "node_key t = (case preorder t of [] \<Rightarrow> None | k # _ \<Rightarrow> Some k)"
  by (cases t) (auto simp: node_key_def)

lemma climb_root: "node_key t = Some k \<Longrightarrow> climb t k = None"
  by (subst climb.simps) (simp add: parent_of_root)

lemma climb_left:
  assumes t: "trie (Node q lk ifo l r)"
  shows "k \<in> keys l \<Longrightarrow> climb (Node q lk ifo l r) k = (case climb l k of None \<Rightarrow> node_key r | Some x \<Rightarrow> Some x)"
proof (induction "length k" arbitrary: k rule: less_induct)
  case less
  note K = key_in_left[OF t less.prems]
  let ?t = "Node q lk ifo l r"
  show ?case
  proof (cases "node_key l = Some k")
    case True
    then have "parent_of k ?t = Some (pbits q)" using K by (auto simp: Let_def)
    moreover have "climb ?t (pbits q) = None" by (simp add: climb_root node_key_def)
    ultimately show ?thesis
      using True climb_root[OF True] by (subst climb.simps) (auto simp: node_key_def)
  next
    case False
    obtain pk where pk: "pk \<in> keys l" "parent_of k l = Some pk"
      using parent_of_Some[of l k] False less.prems t by auto
    have p: "parent_of k ?t = Some pk" using K False pk by (auto simp: Let_def)
    have a: "node_at pk ?t = node_at pk l" using node_at_left[OF t pk(1)] .
    have "climb ?t pk = (case climb l pk of None \<Rightarrow> node_key r | Some x \<Rightarrow> Some x)"
      using less.hyps[OF parent_of_shorter[OF pk(2)] pk(1)] .
    then show ?thesis using p a pk(2)
      by (subst (1 2) climb.simps) (auto simp: node_key_def split: route_node.splits simp del: node_at.simps)
  qed
qed

lemma climb_right:
  assumes t: "trie (Node q lk ifo l r)"
  shows "k \<in> keys r \<Longrightarrow> climb (Node q lk ifo l r) k = climb r k"
proof (induction "length k" arbitrary: k rule: less_induct)
  case less
  note K = key_in_right[OF t less.prems]
  let ?t = "Node q lk ifo l r"
  show ?case
  proof (cases "node_key r = Some k")
    case True
    then have "parent_of k ?t = Some (pbits q)" using K by (auto simp: Let_def)
    moreover have "climb ?t (pbits q) = None" by (simp add: climb_root node_key_def)
    moreover have "node_key l \<noteq> Some k" using K node_key_Some[of l k] by auto
    ultimately show ?thesis
      using True climb_root[OF True] by (subst climb.simps) auto
  next
    case False
    obtain pk where pk: "pk \<in> keys r" "parent_of k r = Some pk"
      using parent_of_Some[of r k] False less.prems t by auto
    have p: "parent_of k ?t = Some pk" using K False pk by (auto simp: Let_def)
    have a: "node_at pk ?t = node_at pk r" using node_at_right[OF t pk(1)] .
    have "climb ?t pk = climb r pk"
      using less.hyps[OF parent_of_shorter[OF pk(2)] pk(1)] .
    then show ?thesis using p a pk(2)
      by (subst (1 2) climb.simps) (simp del: node_at.simps)
  qed
qed

lemma next_key_left:
  assumes "trie (Node q lk ifo l r)" "k \<in> keys l"
  shows "next_key (Node q lk ifo l r) k = (case next_key l k of None \<Rightarrow> node_key r | Some x \<Rightarrow> Some x)"
  unfolding next_key_def Let_def node_at_left[OF assms] climb_left[OF assms]
  by (auto simp: node_key_def split: route_node.splits)

lemma next_key_right:
  assumes "trie (Node q lk ifo l r)" "k \<in> keys r"
  shows "next_key (Node q lk ifo l r) k = next_key r k"
  unfolding next_key_def Let_def node_at_right[OF assms] climb_right[OF assms] ..

lemma next_key_root: "next_key (Node q lk ifo l r) (pbits q) = (case node_key l of None \<Rightarrow> node_key r | Some x \<Rightarrow> Some x)"
  using climb_root[of "Node q lk ifo l r" "pbits q"]
  by (auto simp: next_key_def Let_def node_key_def split: route_node.splits)

definition hd_opt :: "'a list \<Rightarrow> 'a option" where
  "hd_opt xs = (case xs of [] \<Rightarrow> None | x # _ \<Rightarrow> Some x)"

lemma hd_opt_append: "hd_opt (xs @ ys) = (case hd_opt xs of None \<Rightarrow> hd_opt ys | Some x \<Rightarrow> Some x)"
  by (cases xs) (auto simp: hd_opt_def)

lemma node_key_hd_opt: "node_key t = hd_opt (preorder t)"
  by (simp add: node_key_hd hd_opt_def)

lemma next_key_preorder:
  "trie t \<Longrightarrow> preorder t = xs @ k # ys \<Longrightarrow> next_key t k = hd_opt ys"
proof (induction t arbitrary: xs ys)
  case (Node q lk ifo l r)
  show ?case
  proof (cases xs)
    case Nil
    with Node.prems(2) show ?thesis
      using next_key_root[of q lk ifo l r] by (auto simp: node_key_hd_opt hd_opt_append split: option.splits)
  next
    case (Cons x xs')
    then have eq: "preorder l @ preorder r = xs' @ k # ys" using Node.prems(2) by simp
    then consider (l) zs where "preorder l = xs' @ k # zs" "ys = zs @ preorder r"
      | (r) zs where "preorder r = zs @ k # ys"
      by (auto simp: append_eq_append_conv2 Cons_eq_append_conv append_eq_Cons_conv)
    then show ?thesis
    proof cases
      case l
      then have "k \<in> keys l" by simp
      with l Node.IH(1)[OF _ l(1)] Node.prems(1) show ?thesis
        using next_key_left[OF Node.prems(1)] by (auto simp: hd_opt_append node_key_hd_opt split: option.splits)
    next
      case r
      then have "k \<in> keys r" by simp
      with r Node.IH(2)[OF _ r] Node.prems(1) show ?thesis
        using next_key_right[OF Node.prems(1)] by simp
    qed
  qed
qed simp

text \<open>Unlocking a node that was just locked restores the tree.\<close>

lemma unlock_locked:
  assumes "trie t" "compact_but x t" "x \<noteq> Some k" "k \<in> keys t"
  shows "route_unlock_node (route_lock_node t k) k = Inr t"
proof -
  obtain q lk ifo l r where n: "node_at k t = Node q lk ifo l r"
    using node_at_None[OF assms(1), of k] assms(4) by (cases "node_at k t") auto
  have l: "node_at k (route_lock_node t k) \<noteq> Null"
    using n by (simp add: route_lock_node_def node_lock_relock relock_node_at)
  have "route_node_delete t k = Inr t" if "lk = 0"
  proof -
    have "ifo = None \<and> l \<noteq> Null \<and> r \<noteq> Null"
      using assms(1,2,3) n that by (induction t) (auto split: if_splits)
    with n that show ?thesis by (subst route_node_delete.simps) simp
  qed
  with n l show ?thesis
    unfolding route_unlock_node_def route_lock_node_def Let_def relock_unlock_lock by simp
qed

lemma unlock_after_lock:
  assumes "trie t" "compact t" "k \<in> keys t" "nk \<noteq> k"
  shows "route_unlock_node (route_lock_node (route_lock_node t k) nk) k = Inr (route_lock_node t nk)"
proof -
  have "route_lock_node (route_lock_node t k) nk = route_lock_node (route_lock_node t nk) k"
    using relock_commute[OF assms(4)] by (simp only: route_lock_node_def node_lock_relock)
  moreover have "compact_but (Some nk) (route_lock_node t nk)"
    unfolding route_lock_node_def node_lock_relock
    by (rule relock_compact[OF compact_but_mono[OF assms(2)]]) simp
  moreover have "trie (route_lock_node t nk)" "k \<in> keys (route_lock_node t nk)"
    using assms(1,3) unfolding route_lock_node_def node_lock_relock by simp_all
  ultimately show ?thesis using assms(4) unlock_locked[of "route_lock_node t nk" "Some nk" k] by simp
qed

lemma route_next_spec:
  assumes "trie t" "compact t" "preorder t = xs @ k # ys"
  shows "route_next (route_lock_node t k) k =
     Inr (hd_opt ys, case hd_opt ys of None \<Rightarrow> t | Some nk \<Rightarrow> route_lock_node t nk)"
proof -
  let ?t = "route_lock_node t k"
  have k: "k \<in> keys t" using assms(3) by simp
  have t: "trie ?t" "preorder ?t = preorder t"
    using assms(1) unfolding route_lock_node_def node_lock_relock by simp_all
  have n: "node_at k ?t \<noteq> Null" using node_at_None[OF t(1), of k] t(2) k by simp
  have nx: "next_key ?t k = hd_opt ys" using next_key_preorder[OF t(1)] t(2) assms(3) by simp
  show ?thesis
  proof (cases "hd_opt ys")
    case None
    then show ?thesis using nx n unlock_locked[OF assms(1,2) _ k] by (simp add: route_next_def)
  next
    case (Some nk)
    then have "nk \<in> set ys" by (cases ys) (auto simp: hd_opt_def)
    then have nk: "nk \<in> keys t" "nk \<noteq> k"
      using preorder_distinct[OF assms(1)] assms(3) by auto
    have "route_unlock_node (route_lock_node ?t nk) k = Inr (route_lock_node t nk)"
      by (rule unlock_after_lock[OF assms(1,2) k nk(2)])
    then show ?thesis using Some nx n by (simp add: route_next_def)
  qed
qed

subsection \<open>Iteration below a limit\<close>

lemma node_at_sub:
  "trie t \<Longrightarrow> k \<in> keys (node_at limit t) \<Longrightarrow> k \<in> keys t \<and> node_at k t = node_at k (node_at limit t)"
proof (induction t)
  case (Node q lk ifo l r)
  show ?case
  proof (cases "pbits q = limit")
    case False
    with Node.prems(2) consider "prefixlen q < length limit" "\<not> limit ! prefixlen q" "k \<in> keys (node_at limit l)"
      | "prefixlen q < length limit" "limit ! prefixlen q" "k \<in> keys (node_at limit r)"
      by (auto split: if_splits)
    then show ?thesis
    proof cases
      case 1
      then have "k \<in> keys l" "node_at k l = node_at k (node_at limit l)" using Node by auto
      with 1 False show ?thesis using node_at_left[OF Node.prems(1)] by auto
    next
      case 2
      then have "k \<in> keys r" "node_at k r = node_at k (node_at limit r)" using Node by auto
      with 2 False show ?thesis using node_at_right[OF Node.prems(1)] by auto
    qed
  qed (use Node.prems(2) in auto)
qed simp

lemma node_at_trie: "trie t \<Longrightarrow> trie (node_at k t)"
  by (induction t) auto

lemma node_at_node_key: "node_at k t \<noteq> Null \<Longrightarrow> node_key (node_at k t) = Some k"
  using node_at_key[of k t] by (cases "node_at k t") (auto simp: node_key_def)

lemma below_root: "trie t \<Longrightarrow> node_key t = Some b \<Longrightarrow> k \<in> keys t \<Longrightarrow> below k b"
  by (cases t) (auto simp: node_key_def below_snoc)

lemma not_root_below:
  assumes "trie t" "k \<in> keys (node_at limit t)" "k \<noteq> limit"
  shows "node_key t \<noteq> Some k"
proof
  assume r: "node_key t = Some k"
  have n: "node_at limit t \<noteq> Null" using assms(2) by (cases "node_at limit t") auto
  then have "below k limit" "below limit k"
    using below_root[OF node_at_trie[OF assms(1)] node_at_node_key[OF n] assms(2)]
      below_root[OF assms(1) r, of limit] node_at_None[OF assms(1), of limit] by auto
  then show False using assms(3) by (auto simp: below_append)
qed

lemma parent_of_sub:
  "trie t \<Longrightarrow> k \<in> keys (node_at limit t) \<Longrightarrow> k \<noteq> limit \<Longrightarrow> parent_of k t = parent_of k (node_at limit t)"
proof (induction t)
  case (Node q lk ifo l r)
  show ?case
  proof (cases "pbits q = limit")
    case False
    with Node.prems(2) consider "prefixlen q < length limit" "\<not> limit ! prefixlen q" "k \<in> keys (node_at limit l)"
      | "prefixlen q < length limit" "limit ! prefixlen q" "k \<in> keys (node_at limit r)"
      by (auto split: if_splits)
    then show ?thesis
    proof cases
      case 1
      then have k: "k \<in> keys l" "parent_of k l = parent_of k (node_at limit l)"
        using Node node_at_sub[of l k limit] by auto
      have "node_key l \<noteq> Some k"
        using not_root_below[OF _ 1(3) Node.prems(3)] Node.prems(1) by simp
      with 1 k False show ?thesis using key_in_left[OF Node.prems(1) k(1)] by (auto simp: Let_def)
    next
      case 2
      then have k: "k \<in> keys r" "parent_of k r = parent_of k (node_at limit r)"
        using Node node_at_sub[of r k limit] by auto
      have "node_key r \<noteq> Some k"
        using not_root_below[OF _ 2(3) Node.prems(3)] Node.prems(1) by simp
      with 2 k False show ?thesis using key_in_right[OF Node.prems(1) k(1)] by (auto simp: Let_def)
    qed
  qed (use Node.prems(2) in auto)
qed simp

lemma climb_until_sub:
  assumes t: "trie t"
  shows "k \<in> keys (node_at limit t) \<Longrightarrow> climb_until t limit k = climb (node_at limit t) k"
proof (induction "length k" arbitrary: k rule: less_induct)
  case less
  let ?s = "node_at limit t"
  have s: "?s \<noteq> Null" using less.prems by (cases ?s) auto
  show ?case
  proof (cases "k = limit")
    case True
    then have "climb ?s k = None" using climb_root[OF node_at_node_key[OF s]] by simp
    with True show ?thesis by (subst climb_until.simps) (simp split: option.splits)
  next
    case False
    obtain pk where pk: "pk \<in> keys ?s" "parent_of k ?s = Some pk"
      using parent_of_Some[OF node_at_trie[OF t] less.prems] node_at_node_key[OF s] False by auto
    have p: "parent_of k t = Some pk" using parent_of_sub[OF t less.prems False] pk(2) by simp
    have a: "node_at pk t = node_at pk ?s" using node_at_sub[OF t pk(1)] by simp
    have "climb_until t limit pk = climb ?s pk"
      using less.hyps[OF parent_of_shorter[OF pk(2)] pk(1)] .
    then show ?thesis using p a pk(2) False
      by (subst climb_until.simps, subst climb.simps) simp
  qed
qed

lemma relock_sub [simp]:
  "preorder (node_at x (update_at k (relock f) t)) = preorder (node_at x t)"
  by (induction t) auto

lemma route_next_until_spec:
  assumes "trie t" "compact t" "preorder (node_at limit t) = xs @ k # ys"
  shows "route_next_until (route_lock_node t k) k limit =
     Inr (hd_opt ys, case hd_opt ys of None \<Rightarrow> t | Some nk \<Rightarrow> route_lock_node t nk)"
proof -
  let ?t = "route_lock_node t k"
  let ?s = "node_at limit ?t"
  have t: "trie ?t" "preorder ?s = preorder (node_at limit t)"
    using assms(1) unfolding route_lock_node_def node_lock_relock by simp_all
  have k: "k \<in> keys ?s" "k \<in> keys t" using t(2) assms(3) node_at_sub[OF assms(1), of k limit] by auto
  have at: "node_at k ?t = node_at k ?s" "node_at k ?t \<noteq> Null"
    using node_at_sub[OF t(1) k(1)] node_at_None[OF t(1), of k] by auto
  have nx: "next_key ?s k = hd_opt ys"
    using next_key_preorder[OF node_at_trie[OF t(1)]] t(2) assms(3) by simp
  have key: "(if l_left (node_at k ?t) \<noteq> Null then node_key (l_left (node_at k ?t))
      else if l_right (node_at k ?t) \<noteq> Null then node_key (l_right (node_at k ?t))
      else climb_until ?t limit k) = hd_opt ys"
    using nx unfolding next_key_def Let_def at(1) climb_until_sub[OF t(1) k(1)] .
  show ?thesis
  proof (cases "hd_opt ys")
    case None
    then show ?thesis using key at(2) unlock_locked[OF assms(1,2) _ k(2)]
      by (simp add: route_next_until_def Let_def)
  next
    case (Some nk)
    then have "nk \<in> set ys" by (cases ys) (auto simp: hd_opt_def)
    then have "nk \<noteq> k"
      using preorder_distinct[OF node_at_trie[OF assms(1)], of limit] assms(3) by auto
    then show ?thesis using Some key at(2) unlock_after_lock[OF assms(1,2) k(2)]
      by (simp add: route_next_until_def Let_def)
  qed
qed

subsection \<open>Size of a table\<close>

lemma compact_size:
  assumes "trie t" "compact t" "t \<noteq> Null"
  shows "length (preorder t) < 2 * length (filter (\<lambda>k. lock_at t k \<noteq> 0) (preorder t))"
  using assms
proof (induction t)
  case (Node q lk ifo l r)
  let ?t = "Node q lk ifo l r"
  have l: "filter (\<lambda>k. lock_at ?t k \<noteq> 0) (preorder l) = filter (\<lambda>k. lock_at l k \<noteq> 0) (preorder l)"
    using node_at_left[OF Node.prems(1)] by (intro filter_cong) (auto simp: lock_at_def simp del: node_at.simps)
  have r: "filter (\<lambda>k. lock_at ?t k \<noteq> 0) (preorder r) = filter (\<lambda>k. lock_at r k \<noteq> 0) (preorder r)"
    using node_at_right[OF Node.prems(1)] by (intro filter_cong) (auto simp: lock_at_def simp del: node_at.simps)
  have self: "lock_at ?t (pbits q) = lk" by (simp add: lock_at_def)
  have IH: "l \<noteq> Null \<Longrightarrow> length (preorder l) < 2 * length (filter (\<lambda>k. lock_at l k \<noteq> 0) (preorder l))"
    "r \<noteq> Null \<Longrightarrow> length (preorder r) < 2 * length (filter (\<lambda>k. lock_at r k \<noteq> 0) (preorder r))"
    using Node by auto
  have ok: "lk \<noteq> 0 \<or> (l \<noteq> Null \<and> r \<noteq> Null)" using Node.prems(2) by auto
  have len: "length (filter (\<lambda>k. lock_at ?t k \<noteq> 0) (preorder ?t)) = (if lk \<noteq> 0 then 1 else 0) +
      length (filter (\<lambda>k. lock_at l k \<noteq> 0) (preorder l)) + length (filter (\<lambda>k. lock_at r k \<noteq> 0) (preorder r))"
    by (simp only: preorder.simps filter.simps filter_append l r self) simp
  show ?case unfolding len using IH ok by (cases "l = Null"; cases "r = Null") auto
qed simp

subsection \<open>Freeing a table\<close>

text \<open>\<^verbatim>\<open>route_table_free\<close>: descend to a leaf, unlink it from its parent, free it, continue at the
  parent. The loop is given fuel; the result is the sequence of freed nodes.\<close>

fun free_loop :: "nat \<Rightarrow> 'i route_node \<Rightarrow> key \<Rightarrow> key list \<Rightarrow> key list res option" where
  "free_loop 0 t k freed = None"
| "free_loop (Suc n) t k freed =
     (case node_at k t of
        Null \<Rightarrow> Some (Inl NullDeref)
      | Node q lk ifo l r \<Rightarrow>
          if l \<noteq> Null then free_loop n t (pbits (rn_p l)) freed
          else if r \<noteq> Null then free_loop n t (pbits (rn_p r)) freed
          else case parent_of k t of
                 None \<Rightarrow> Some (Inr (freed @ [k]))
               | Some pk \<Rightarrow> free_loop n (update_at k (\<lambda>_. Null) t) pk (freed @ [k]))"

definition route_table_free :: "nat \<Rightarrow> 'i route_node \<Rightarrow> key list res option" where
  "route_table_free fuel rt =
     (case node_key rt of None \<Rightarrow> Some (Inr []) | Some k \<Rightarrow> free_loop fuel rt k [])"

fun postorder :: "'i route_node \<Rightarrow> key list" where
  "postorder Null = []"
| "postorder (Node q lk ifo l r) = postorder l @ postorder r @ [pbits q]"

lemma cut_trie:
  "trie t \<Longrightarrow> keys (update_at k (\<lambda>_. Null) t) \<subseteq> keys t \<and> trie (update_at k (\<lambda>_. Null) t)"
  by (induction t) auto

text \<open>An update strictly below \<open>k\<close> is an update of the subtree at \<open>k\<close>.\<close>

lemma update_below:
  assumes "trie t" "c \<in> keys (node_at k t)" "c \<noteq> k"
  shows "node_at k (update_at c f t) = update_at c f (node_at k t)"
    "update_at k (\<lambda>_. x) (update_at c f t) = update_at k (\<lambda>_. x) t"
    "parent_of k (update_at c f t) = parent_of k t"
proof -
  have "node_at k (update_at c f t) = update_at c f (node_at k t) \<and>
    update_at k (\<lambda>_. x) (update_at c f t) = update_at k (\<lambda>_. x) t \<and>
    parent_of k (update_at c f t) = parent_of k t"
    using assms(1,2)
  proof (induction t)
    case (Node q lk ifo l r)
    have root: "node_key (update_at c f s) = node_key s" if "trie s" "c \<in> keys (node_at k s)" for s
      using not_root_below[OF that assms(3)] by (cases s) (auto simp: node_key_def)
    show ?case
    proof (cases "pbits q = k")
      case True
      then show ?thesis using assms(3) by auto
    next
      case False
      with Node.prems(2) consider "prefixlen q < length k" "\<not> k ! prefixlen q" "c \<in> keys (node_at k l)"
        | "prefixlen q < length k" "k ! prefixlen q" "c \<in> keys (node_at k r)"
        by (auto split: if_splits)
      then show ?thesis
      proof cases
        case 1
        then have "c \<in> keys l" using node_at_sub[of l c k] Node.prems(1) by simp
        with 1 False Node.IH(1) Node.prems(1) root[of l] key_in_left[OF Node.prems(1), of c]
        show ?thesis by (auto simp: Let_def)
      next
        case 2
        then have "c \<in> keys r" using node_at_sub[of r c k] Node.prems(1) by simp
        with 2 False Node.IH(2) Node.prems(1) root[of r] key_in_right[OF Node.prems(1), of c]
        show ?thesis by (auto simp: Let_def)
      qed
    qed
  qed simp
  then show "node_at k (update_at c f t) = update_at c f (node_at k t)"
    "update_at k (\<lambda>_. x) (update_at c f t) = update_at k (\<lambda>_. x) t"
    "parent_of k (update_at c f t) = parent_of k t" by auto
qed

text \<open>Steps to free a whole subtree: one to enter and one to leave each node below its root.\<close>

fun free_cost :: "'i route_node \<Rightarrow> nat" where
  "free_cost Null = 0"
| "free_cost (Node q lk ifo l r) =
     Suc ((if l = Null then 0 else Suc (free_cost l)) + (if r = Null then 0 else Suc (free_cost r)))"

lemma free_cost_bound: "free_cost t \<le> 2 * length (preorder t)" "t \<noteq> Null \<Longrightarrow> free_cost t < 2 * length (preorder t)"
  by (induction t) auto

lemma node_key_rn_p: "s \<noteq> Null \<Longrightarrow> node_key s = Some (pbits (rn_p s))"
  by (cases s) (auto simp: node_key_def)

text \<open>The subtree at a child key, its parent, and the tree after the child is cut off.\<close>

lemma cut_child:
  assumes "trie t" "node_at k t = Node q lk ifo l r" "s \<noteq> Null" "s = l \<or> s = r"
  defines "c \<equiv> pbits (rn_p s)"
  shows "node_at c t = s" "parent_of c t = Some k" "c \<noteq> k" "c \<in> keys (node_at k t)"
proof -
  have tn: "trie (Node q lk ifo l r)" using node_at_trie[OF assms(1), of k] assms(2) by simp
  have q: "pbits q = k" using node_at_key[OF assms(2)] .
  have cs: "c \<in> keys s" "node_key s = Some c" "node_at c s = s"
    using assms(3) by (cases s; auto simp: c_def node_key_def)+
  from assms(4) have *: "c \<noteq> pbits q \<and> c \<in> keys (Node q lk ifo l r) \<and>
    node_at c (Node q lk ifo l r) = s \<and> parent_of c (Node q lk ifo l r) = Some (pbits q)"
  proof
    assume "s = l"
    then show ?thesis using cs key_in_left[OF tn, of c] by (auto simp: Let_def)
  next
    assume "s = r"
    then show ?thesis using cs key_in_right[OF tn, of c] by (auto simp: Let_def)
  qed
  then show "c \<noteq> k" "c \<in> keys (node_at k t)" using q assms(2) by auto
  then show "node_at c t = s" "parent_of c t = Some k"
    using node_at_sub[OF assms(1), of c k] parent_of_sub[OF assms(1), of c k] assms(2) * q by auto
qed

definition prune :: "'i route_node \<Rightarrow> 'i route_node \<Rightarrow> 'i route_node" where
  "prune s t = (if s = Null then t else update_at (pbits (rn_p s)) (\<lambda>_. Null) t)"

definition frees_subtree :: "'i route_node \<Rightarrow> bool" where
  "frees_subtree s \<longleftrightarrow> (\<forall>t k n freed. trie t \<and> node_at k t = s \<and> s \<noteq> Null \<longrightarrow>
     free_loop (n + free_cost s) t k freed =
       (case parent_of k t of
          None \<Rightarrow> Some (Inr (freed @ postorder s))
        | Some pk \<Rightarrow> free_loop n (update_at k (\<lambda>_. Null) t) pk (freed @ postorder s)))"

lemma free_child:
  assumes t: "trie t" "node_at k t = Node q lk ifo l r"
    and s: "s = l \<or> (l = Null \<and> s = r)" "frees_subtree s"
  shows "trie (prune s t)" "parent_of k (prune s t) = parent_of k t"
    "node_at k (prune s t) = (if s = l then Node q lk ifo Null r else Node q lk ifo Null Null)"
    "update_at k (\<lambda>_. Null) (prune s t) = update_at k (\<lambda>_. Null) t"
    "free_loop (m + (if s = Null then 0 else Suc (free_cost s))) t k freed =
       free_loop m (prune s t) k (freed @ postorder s)"
proof -
  have tn: "trie (Node q lk ifo l r)" using node_at_trie[OF t(1), of k] t(2) by simp
  have cut: "parent_of k (prune s t) = parent_of k t \<and>
    node_at k (prune s t) = (if s = l then Node q lk ifo Null r else Node q lk ifo Null Null) \<and>
    update_at k (\<lambda>_. Null) (prune s t) = update_at k (\<lambda>_. Null) t \<and>
    free_loop (m + (if s = Null then 0 else Suc (free_cost s))) t k freed =
       free_loop m (prune s t) k (freed @ postorder s)"
  proof (cases "s = Null")
    case True
    with s(1) t(2) show ?thesis by (auto simp: prune_def)
  next
    case False
    let ?c = "pbits (rn_p s)"
    have c: "node_at ?c t = s" "parent_of ?c t = Some k" "?c \<noteq> k" "?c \<in> keys (node_at k t)"
      using cut_child[OF t False] s(1) by auto
    note u = update_below[OF t(1) c(4,3), where f = "\<lambda>_. Null"]
    have "update_at ?c (\<lambda>_. Null) (Node q lk ifo l r) = (if s = l then Node q lk ifo Null r else Node q lk ifo Null Null)"
    proof (cases "s = l")
      case True
      then have "?c \<in> keys l" using False by (cases l) auto
      with True False key_in_left[OF tn, of ?c] show ?thesis by (cases l) auto
    next
      case no: False
      then have "?c \<in> keys r" "l = Null" using False s(1) by (cases r; auto)+
      with no s(1) False key_in_right[OF tn, of ?c] show ?thesis by (cases r) auto
    qed
    moreover have "free_loop (Suc (m + free_cost s)) t k freed = free_loop (m + free_cost s) t ?c freed"
      using t(2) s(1) False by auto
    moreover have "free_loop (m + free_cost s) t ?c freed = free_loop m (prune s t) k (freed @ postorder s)"
      using s(2)[unfolded frees_subtree_def, rule_format, of t ?c m freed] t(1) c False by (simp add: prune_def)
    ultimately show ?thesis using u t(2) False by (simp add: prune_def)
  qed
  then show "parent_of k (prune s t) = parent_of k t"
    "node_at k (prune s t) = (if s = l then Node q lk ifo Null r else Node q lk ifo Null Null)"
    "update_at k (\<lambda>_. Null) (prune s t) = update_at k (\<lambda>_. Null) t"
    "free_loop (m + (if s = Null then 0 else Suc (free_cost s))) t k freed =
       free_loop m (prune s t) k (freed @ postorder s)" by blast+
  show "trie (prune s t)" using t(1) cut_trie[OF t(1)] by (auto simp: prune_def)
qed

lemma free_loop_subtree: "frees_subtree s"
proof (induction s)
  case Null
  then show ?case by (simp add: frees_subtree_def)
next
  case (Node q lk ifo l r)
  show ?case unfolding frees_subtree_def
  proof (intro allI impI)
    fix t k n freed
    assume "trie t \<and> node_at k t = Node q lk ifo l r \<and> Node q lk ifo l r \<noteq> Null"
    then have t: "trie t" "node_at k t = Node q lk ifo l r" by auto
    have q: "pbits q = k" using node_at_key[OF t(2)] .
    let ?cost = "\<lambda>s :: 'a route_node. if s = Null then 0 else Suc (free_cost s)"
    define t1 where "t1 = prune l t"
    define t2 where "t2 = prune r t1"
    note A = free_child[OF t _ Node.IH(1), folded t1_def]
    have t1: "trie t1" "node_at k t1 = Node q lk ifo Null r" using A(1,3) by simp_all
    note B = free_child[OF t1 _ Node.IH(2), folded t2_def]
    have "free_loop (n + free_cost (Node q lk ifo l r)) t k freed =
        free_loop ((Suc n + ?cost r) + ?cost l) t k freed" by (simp add: ac_simps)
    also have "\<dots> = free_loop (Suc n + ?cost r) t1 k (freed @ postorder l)" using A(5) by blast
    also have "\<dots> = free_loop (Suc n) t2 k ((freed @ postorder l) @ postorder r)" using B(5) by blast
    also have "\<dots> = (case parent_of k t of
         None \<Rightarrow> Some (Inr (freed @ postorder (Node q lk ifo l r)))
       | Some pk \<Rightarrow> free_loop n (update_at k (\<lambda>_. Null) t) pk (freed @ postorder (Node q lk ifo l r)))"
    proof -
      have "node_at k t2 = Node q lk ifo Null Null" using B(3) by (cases "r = Null") simp_all
      moreover have "parent_of k t2 = parent_of k t" "update_at k (\<lambda>_. Null) t2 = update_at k (\<lambda>_. Null) t"
        using A(2,4) B(2,4) by simp_all
      ultimately show ?thesis using q by (simp split: option.splits)
    qed
    finally show "free_loop (n + free_cost (Node q lk ifo l r)) t k freed =
      (case parent_of k t of
         None \<Rightarrow> Some (Inr (freed @ postorder (Node q lk ifo l r)))
       | Some pk \<Rightarrow> free_loop n (update_at k (\<lambda>_. Null) t) pk (freed @ postorder (Node q lk ifo l r)))" .
  qed
qed

lemma postorder_mset: "mset (postorder t) = mset (preorder t)"
  by (induction t) auto

subsection \<open>The interface of a reference-counted prefix table\<close>

text \<open>What the daemons rely on: the table as a map from keys to reference counts and information.\<close>

locale counted_table =
  fixes invar :: "'t \<Rightarrow> bool"
    and locks :: "'t \<Rightarrow> key \<Rightarrow> u32"
    and infos :: "'t \<Rightarrow> key \<Rightarrow> 'i option"
    and empty :: "'t"
    and get :: "'t \<Rightarrow> prefix \<Rightarrow> ('t \<times> key) res"
    and unlock :: "'t \<Rightarrow> key \<Rightarrow> 't res"
  assumes get_law: "invar t \<Longrightarrow> wf_prefix p \<Longrightarrow> locks t (pbits p) + 1 \<noteq> 0 \<Longrightarrow>
      \<exists>t'. get t p = Inr (t', pbits p) \<and> invar t' \<and>
        locks t' = (locks t)(pbits p := locks t (pbits p) + 1) \<and> infos t' = infos t"
    and unlock_law: "invar t \<Longrightarrow> locks t k \<noteq> 0 \<Longrightarrow> (locks t k = 1 \<Longrightarrow> infos t k = None) \<Longrightarrow>
      \<exists>t'. unlock t k = Inr t' \<and> invar t' \<and>
        locks t' = (locks t)(k := locks t k - 1) \<and> infos t' = infos t"
    and info_held: "invar t \<Longrightarrow> locks t k = 0 \<Longrightarrow> infos t k = None"
    and unheld_empty: "invar t \<Longrightarrow> (\<And>k. locks t k = 0) \<Longrightarrow> t = empty"
begin

text \<open>Holding a list of prefixes adds their multiplicities to the reference counts.\<close>

lemma hold_all:
  assumes "invar t" "\<forall>p\<in>set ps. wf_prefix p" "\<forall>k. unat (locks t k) + length ps < 2 ^ 32"
  shows "\<exists>t'. foldE (\<lambda>t p. bindE (get t p) (\<lambda>(t', k). Inr t')) t ps = Inr t' \<and> invar t' \<and> infos t' = infos t \<and>
     (\<forall>k. unat (locks t' k) = unat (locks t k) + count_list (map pbits ps) k)"
  using assms
proof (induction ps arbitrary: t)
  case (Cons p ps)
  let ?k = "pbits p"
  have room: "unat (locks t ?k) + 1 < 2 ^ 32" using Cons.prems(3)[rule_format, of ?k] by simp
  then have inc: "unat (locks t ?k + 1) = unat (locks t ?k) + 1"
    by (simp add: unat_word_ariths)
  then have "locks t ?k + 1 \<noteq> 0" by (metis add_is_0 one_neq_zero unat_0)
  with get_law[of t p] Cons.prems obtain t1 where t1: "get t p = Inr (t1, ?k)" "invar t1"
    "locks t1 = (locks t)(?k := locks t ?k + 1)" "infos t1 = infos t" by auto
  have "unat (locks t1 k) + length ps < 2 ^ 32" for k
    using Cons.prems(3)[rule_format, of k] inc t1(3) by auto
  with Cons.IH[OF t1(2)] Cons.prems(2) obtain t' where t':
    "foldE (\<lambda>t p. bindE (get t p) (\<lambda>(t', k). Inr t')) t1 ps = Inr t'" "invar t'" "infos t' = infos t1"
    "\<And>k. unat (locks t' k) = unat (locks t1 k) + count_list (map pbits ps) k" by auto
  then show ?case using t1 inc by auto
qed simp

text \<open>Releasing keys down to a base count that still holds every node with information.\<close>

lemma release_all:
  assumes "invar t" "\<forall>k. unat (locks t k) = unat (base k) + count_list ks k"
    "\<forall>k. infos t k \<noteq> None \<longrightarrow> base k \<noteq> 0"
  shows "\<exists>t'. foldE unlock t ks = Inr t' \<and> invar t' \<and> infos t' = infos t \<and> locks t' = base"
  using assms
proof (induction ks arbitrary: t)
  case Nil
  then have "locks t k = base k" for k by (simp add: word_unat_eq_iff)
  with Nil.prems(1) show ?case by auto
next
  case (Cons k ks)
  have n: "unat (locks t k) = Suc (unat (base k) + count_list ks k)"
    using Cons.prems(2)[rule_format, of k] by simp
  then have nz: "locks t k \<noteq> 0" by auto
  have dec: "unat (locks t k - 1) = unat (base k) + count_list ks k"
    using n nz by (simp add: unat_minus_one)
  have "infos t k = None" if "locks t k = 1"
  proof -
    have "unat (base k) = 0" using n that by simp
    then show ?thesis using Cons.prems(3) by (auto simp: unat_eq_0)
  qed
  with unlock_law[OF Cons.prems(1) nz] obtain t1 where t1: "unlock t k = Inr t1" "invar t1"
    "locks t1 = (locks t)(k := locks t k - 1)" "infos t1 = infos t" by blast
  have "unat (locks t1 k') = unat (base k') + count_list ks k'" for k'
    using t1(3) dec Cons.prems(2)[rule_format, of k'] by auto
  with Cons.IH[OF t1(2)] t1(1,4) Cons.prems(3) show ?case by auto
qed

lemma hold_release:
  assumes "invar t" "\<forall>p\<in>set ps. wf_prefix p" "\<forall>k. unat (locks t k) + length ps < 2 ^ 32"
    "mset ks = mset (map pbits ps)"
  shows "\<exists>t1 t2. foldE (\<lambda>t p. bindE (get t p) (\<lambda>(t', k). Inr t')) t ps = Inr t1 \<and>
     foldE unlock t1 ks = Inr t2 \<and> invar t2 \<and> infos t2 = infos t \<and> locks t2 = locks t"
proof -
  obtain t1 where t1: "foldE (\<lambda>t p. bindE (get t p) (\<lambda>(t', k). Inr t')) t ps = Inr t1" "invar t1"
    "infos t1 = infos t" "\<forall>k. unat (locks t1 k) = unat (locks t k) + count_list (map pbits ps) k"
    using hold_all[OF assms(1-3)] by blast
  have "count_list (map pbits ps) k = count_list ks k" for k
    using assms(4) by (metis count_mset)
  then have "\<exists>t2. foldE unlock t1 ks = Inr t2 \<and> invar t2 \<and> infos t2 = infos t1 \<and> locks t2 = locks t"
    using t1 info_held[OF assms(1)] by (intro release_all) auto
  with t1 show ?thesis by auto
qed

end

lemma unheld_Null:
  assumes "trie t" "compact t" "\<And>k. lock_at t k = 0"
  shows "t = Null"
proof (rule ccontr)
  assume "t \<noteq> Null"
  from compact_size[OF assms(1,2) this] show False by (simp add: assms(3))
qed

interpretation rt: counted_table "\<lambda>t. trie t \<and> compact t" lock_at info_at Null route_node_get route_unlock_node
proof
  show "\<exists>t'. route_node_get t p = Inr (t', pbits p) \<and> (trie t' \<and> compact t') \<and>
      lock_at t' = (lock_at t)(pbits p := lock_at t (pbits p) + 1) \<and> info_at t' = info_at t"
    if asm: "trie t \<and> compact t" "wf_prefix p" "lock_at t (pbits p) + 1 \<noteq> 0" for t :: "'i route_node" and p
  proof -
    obtain t' where t': "route_node_get t p = Inr (t', pbits p)" "get_result t p t'"
      using route_node_get_spec[of t p] asm by auto
    note D = get_resultD[OF t'(2)]
    show ?thesis
    proof (intro exI conjI)
      show "lock_at t' = (lock_at t)(pbits p := lock_at t (pbits p) + 1)" using D(5) by auto
      show "info_at t' = info_at t" using D(6) by auto
    qed (use t'(1) D(1,2) in auto)
  qed
  show "\<exists>t'. route_unlock_node t k = Inr t' \<and> (trie t' \<and> compact t') \<and>
      lock_at t' = (lock_at t)(k := lock_at t k - 1) \<and> info_at t' = info_at t"
    if "trie t \<and> compact t" "lock_at t k \<noteq> 0" "lock_at t k = 1 \<Longrightarrow> info_at t k = None"
    for t :: "'i route_node" and k
  proof -
    have "k \<in> keys t" using that(1,2) at_outside(1)[of t k] by auto
    with route_unlock_node_spec[of t k] that show ?thesis by auto
  qed
  show "info_at t k = None" if "trie t \<and> compact t" "lock_at t k = 0" for t :: "'i route_node" and k
    using compact_info[of t None k] that by simp
  show "t = Null" if "trie t \<and> compact t" "\<And>k. lock_at t k = 0" for t :: "'i route_node"
    using unheld_Null that by blast
qed

subsection \<open>Properties of the routing table\<close>

text \<open>A table for the witnesses: 10.0.0.0/8, 10.1.0.0/16 and 192.168.0.0/16, all with information,
  and the branching point above them.\<close>

definition ip4_net :: "byte list \<Rightarrow> nat \<Rightarrow> prefix" where
  "ip4_net addr len = \<lparr>family = AF_INET, prefixlen = len, u_prefix = addr @ replicate 12 0\<rparr>"

definition sample_table :: "nat route_node" where
  "sample_table =
     Node (ip4_net [0, 0, 0, 0] 0) 0 None
       (Node (ip4_net [10, 0, 0, 0] 8) 1 (Some 1) (Node (ip4_net [10, 1, 0, 0] 16) 2 (Some 2) Null Null) Null)
       (Node (ip4_net [192, 168, 0, 0] 16) 1 (Some 3) Null Null)"

lemma sample_table_ok: "trie sample_table" "compact sample_table"
  unfolding sample_table_def ip4_net_def by code_simp+

lemma sample_net_wf: "wf_prefix (ip4_net [10, 1, 2, 0] 24)" "wf_prefix (ip4_net [10, 1, 0, 0] 16)"
  unfolding ip4_net_def by code_simp+

text \<open>C2: in a well-formed table \<^verbatim>\<open>route_node_match\<close> returns and locks the node with
  information whose prefix covers \<open>p\<close> and is the longest such prefix, or returns no node and
  leaves the table alone when none covers \<open>p\<close>; no memory outside an address is read.\<close>

lemma route_node_match_longest:
  assumes "trie t" "wf_prefix p"
  shows "\<exists>m. longest_match t p m \<and>
     route_node_match t p = Inr (m, case m of None \<Rightarrow> t | Some k \<Rightarrow> route_lock_node t k)"
proof -
  obtain m where "longest_match t p m" "match_walk t p None = Inr m"
    using match_walk_spec[OF assms, of None] by (auto split: option.splits)
  then show ?thesis by (auto simp: route_node_match_def split: option.splits)
qed

lemma route_node_match_longest_witness:
  "\<exists>m. longest_match sample_table (ip4_net [10, 1, 2, 0] 24) m \<and>
     route_node_match sample_table (ip4_net [10, 1, 2, 0] 24) =
       Inr (m, case m of None \<Rightarrow> sample_table | Some k \<Rightarrow> route_lock_node sample_table k)"
  by (rule route_node_match_longest[OF sample_table_ok(1) sample_net_wf(1)])

text \<open>C37: \<^verbatim>\<open>route_node_lookup\<close> returns and locks the node of exactly the prefix \<open>p\<close> when it
  carries information, and nothing otherwise.\<close>

lemma route_node_lookup_exact:
  assumes "trie t" "wf_prefix p"
  shows "route_node_lookup t p =
     Inr (if info_at t (pbits p) = None then (None, t) else (Some (pbits p), route_lock_node t (pbits p)))"
  by (simp add: route_node_lookup_def lookup_walk_spec[OF assms])

lemma route_node_lookup_exact_witness:
  "route_node_lookup sample_table (ip4_net [10, 1, 0, 0] 16) =
     Inr (if info_at sample_table (pbits (ip4_net [10, 1, 0, 0] 16)) = None then (None, sample_table)
          else (Some (pbits (ip4_net [10, 1, 0, 0] 16)),
                route_lock_node sample_table (pbits (ip4_net [10, 1, 0, 0] 16))))"
  by (rule route_node_lookup_exact[OF sample_table_ok(1) sample_net_wf(2)])

text \<open>C9: \<^verbatim>\<open>route_node_get\<close> returns the node of \<open>p\<close>, creating it and a branching point where
  needed: the table stays well-formed and free of superfluous nodes, the reference count of \<open>p\<close>
  grows by one, every other reference count and all information stay.\<close>

lemma route_node_get_inserts:
  assumes "trie t" "compact t" "wf_prefix p" "lock_at t (pbits p) + 1 \<noteq> 0"
  shows "\<exists>t'. route_node_get t p = Inr (t', pbits p) \<and> trie t' \<and> compact t' \<and>
     keys t \<union> {pbits p} \<subseteq> keys t' \<and>
     lock_at t' = (lock_at t)(pbits p := lock_at t (pbits p) + 1) \<and> info_at t' = info_at t"
proof -
  obtain t' where t': "route_node_get t p = Inr (t', pbits p)" "get_result t p t'"
    using route_node_get_spec[OF assms] by auto
  note D = get_resultD[OF t'(2)]
  have "lock_at t' = (lock_at t)(pbits p := lock_at t (pbits p) + 1)" "info_at t' = info_at t"
    using D(5,6) by auto
  with t'(1) D(1-4) show ?thesis by auto
qed

lemma sample_lock: "lock_at sample_table (pbits (ip4_net [10, 1, 2, 0] 24)) + 1 \<noteq> 0"
  unfolding sample_table_def ip4_net_def by code_simp

lemma route_node_get_inserts_witness:
  "\<exists>t'. route_node_get sample_table (ip4_net [10, 1, 2, 0] 24) = Inr (t', pbits (ip4_net [10, 1, 2, 0] 24)) \<and>
     trie t' \<and> compact t' \<and> keys sample_table \<union> {pbits (ip4_net [10, 1, 2, 0] 24)} \<subseteq> keys t' \<and>
     lock_at t' = (lock_at sample_table)(pbits (ip4_net [10, 1, 2, 0] 24) :=
        lock_at sample_table (pbits (ip4_net [10, 1, 2, 0] 24)) + 1) \<and>
     info_at t' = info_at sample_table"
  by (rule route_node_get_inserts[OF sample_table_ok sample_net_wf(1) sample_lock])

text \<open>C10: \<^verbatim>\<open>route_unlock_node\<close> lowers the reference count of one node; if that was the last
  reference the node and every ancestor it made superfluous are unlinked. The table stays
  well-formed and compact, and no other reference count and no information changes.\<close>

lemma route_unlock_node_releases:
  assumes "trie t" "compact t" "k \<in> keys t" "lock_at t k = 1 \<longrightarrow> info_at t k = None"
  shows "\<exists>t'. route_unlock_node t k = Inr t' \<and> trie t' \<and> compact t' \<and> keys t' \<subseteq> keys t \<and>
     lock_at t' = (lock_at t)(k := lock_at t k - 1) \<and> info_at t' = info_at t"
  using route_unlock_node_spec assms by blast

lemma sample_held:
  "pbits (ip4_net [10, 1, 0, 0] 16) \<in> keys sample_table"
  "lock_at sample_table (pbits (ip4_net [10, 1, 0, 0] 16)) = 2"
  unfolding sample_table_def ip4_net_def by code_simp+

lemma route_unlock_node_releases_witness:
  "\<exists>t'. route_unlock_node sample_table (pbits (ip4_net [10, 1, 0, 0] 16)) = Inr t' \<and> trie t' \<and> compact t' \<and>
     keys t' \<subseteq> keys sample_table \<and>
     lock_at t' = (lock_at sample_table)(pbits (ip4_net [10, 1, 0, 0] 16) :=
        lock_at sample_table (pbits (ip4_net [10, 1, 0, 0] 16)) - 1) \<and>
     info_at t' = info_at sample_table"
  using route_unlock_node_releases[OF sample_table_ok sample_held(1)] sample_held(2) by simp

text \<open>dropping the last reference to a node that still has information stops at the
  assertion of \<^verbatim>\<open>route_node_delete\<close>.\<close>

lemma route_unlock_node_aborts:
  assumes "trie t" "k \<in> keys t" "lock_at t k = 1" "info_at t k \<noteq> None"
  shows "route_unlock_node t k = Inl Abort"
proof -
  let ?t = "update_at k node_unlock t"
  obtain q lk ifo l r where n: "node_at k t = Node q lk ifo l r"
    using node_at_None[OF assms(1), of k] assms(2) by (cases "node_at k t") auto
  then have lk: "lk = 1" "ifo \<noteq> None" using assms(3,4) by (auto simp: lock_at_def info_at_def)
  have "node_at k ?t = Node q 0 ifo l r"
    using n lk by (simp add: node_lock_relock relock_node_at)
  then show ?thesis using n lk
    by (auto simp: route_unlock_node_def Let_def route_node_delete.simps[of ?t] bindE_assertE)
qed

lemma route_unlock_node_aborts_witness:
  "route_unlock_node sample_table (pbits (ip4_net [10, 0, 0, 0] 8)) = Inl Abort"
proof (rule route_unlock_node_aborts[OF sample_table_ok(1)])
  show "pbits (ip4_net [10, 0, 0, 0] 8) \<in> keys sample_table"
    "lock_at sample_table (pbits (ip4_net [10, 0, 0, 0] 8)) = 1"
    "info_at sample_table (pbits (ip4_net [10, 0, 0, 0] 8)) \<noteq> None"
    unfolding sample_table_def ip4_net_def by code_simp+
qed

text \<open>C22: getting any list of prefixes and then unlocking the returned nodes in any order
  restores all reference counts and information; a table that was empty is empty again, so no node
  leaks.\<close>

lemma table_hold_release:
  assumes "trie t" "compact t" "\<forall>p\<in>set ps. wf_prefix p"
    "\<forall>k. unat (lock_at t k) + length ps < 2 ^ 32" "mset ks = mset (map pbits ps)"
  shows "\<exists>t1 t2. foldE (\<lambda>t p. bindE (route_node_get t p) (\<lambda>(t', k). Inr t')) t ps = Inr t1 \<and>
     foldE route_unlock_node t1 ks = Inr t2 \<and> lock_at t2 = lock_at t \<and> info_at t2 = info_at t \<and>
     trie t2 \<and> compact t2 \<and> (t = Null \<longrightarrow> t2 = Null)"
proof -
  obtain t1 t2 where *: "foldE (\<lambda>t p. bindE (route_node_get t p) (\<lambda>(t', k). Inr t')) t ps = Inr t1"
    "foldE route_unlock_node t1 ks = Inr t2" "trie t2" "compact t2" "info_at t2 = info_at t" "lock_at t2 = lock_at t"
    using rt.hold_release[of t ps ks] assms by auto
  moreover have "t2 = Null" if "t = Null"
    using unheld_Null[OF *(3,4)] *(6) that by simp
  ultimately show ?thesis by auto
qed

lemma table_hold_release_witness:
  "\<exists>t1 t2. foldE (\<lambda>t p. bindE (route_node_get t p) (\<lambda>(t', k). Inr t')) (Null :: nat route_node)
       [ip4_net [10, 1, 2, 0] 24, ip4_net [10, 1, 0, 0] 16] = Inr t1 \<and>
     foldE route_unlock_node t1 [pbits (ip4_net [10, 1, 0, 0] 16), pbits (ip4_net [10, 1, 2, 0] 24)] = Inr t2 \<and>
     lock_at t2 = lock_at (Null :: nat route_node) \<and> info_at t2 = info_at (Null :: nat route_node) \<and>
     trie t2 \<and> compact t2 \<and> t2 = Null"
  using table_hold_release[of "Null :: nat route_node" "[ip4_net [10, 1, 2, 0] 24, ip4_net [10, 1, 0, 0] 16]"
      "[pbits (ip4_net [10, 1, 0, 0] 16), pbits (ip4_net [10, 1, 2, 0] 24)]"] sample_net_wf
  by simp

text \<open>The loop \<^verbatim>\<open>for (rn = route_top (t); rn; rn = route_next (rn))\<close> the daemons use, with fuel.\<close>

fun walk :: "nat \<Rightarrow> key option \<times> 'i route_node \<Rightarrow> (key list \<times> 'i route_node) res option" where
  "walk 0 st = None"
| "walk (Suc n) (None, t) = Some (Inr ([], t))"
| "walk (Suc n) (Some k, t) =
     (case route_next t k of
        Inl e \<Rightarrow> Some (Inl e)
      | Inr st \<Rightarrow> map_option (\<lambda>r. bindE r (\<lambda>(ks, t'). Inr (k # ks, t'))) (walk n st))"

lemma walk_from:
  assumes "trie t" "compact t"
  shows "preorder t = xs @ ys \<Longrightarrow> length ys < n \<Longrightarrow>
    walk n (hd_opt ys, case hd_opt ys of None \<Rightarrow> t | Some k \<Rightarrow> route_lock_node t k) = Some (Inr (ys, t))"
proof (induction n arbitrary: xs ys)
  case (Suc n)
  show ?case
  proof (cases ys)
    case Nil
    then show ?thesis by (simp add: hd_opt_def)
  next
    case (Cons k zs)
    have "walk n (hd_opt zs, case hd_opt zs of None \<Rightarrow> t | Some k \<Rightarrow> route_lock_node t k) = Some (Inr (zs, t))"
      using Suc.IH[of "xs @ [k]" zs] Suc.prems Cons by simp
    then show ?thesis
      using route_next_spec[OF assms, of xs k zs] Suc.prems(1) Cons by (simp add: hd_opt_def[of "k # zs"])
  qed
qed simp

text \<open>C25: the loop over \<^verbatim>\<open>route_top\<close> and \<^verbatim>\<open>route_next\<close> ends, visits every node once, parents
  first, and leaves the table, with its reference counts, as it was.\<close>

lemma route_walk_preorder:
  assumes "trie t" "compact t" "length (preorder t) < fuel"
  shows "walk fuel (route_top t) = Some (Inr (preorder t, t)) \<and> distinct (preorder t)"
  using walk_from[OF assms(1,2), of "[]" "preorder t" fuel] assms(3) preorder_distinct[OF assms(1)]
  by (auto simp: route_top_def node_key_hd_opt split: option.splits)

lemma route_walk_preorder_witness:
  "walk 5 (route_top sample_table) = Some (Inr (preorder sample_table, sample_table)) \<and>
     distinct (preorder sample_table)"
  by (rule route_walk_preorder[OF sample_table_ok]) (simp add: sample_table_def)

text \<open>\<^verbatim>\<open>route_next_until\<close> moves the reader's lock to the next node, parents first, of
  the subtree at the limit, and ends there.\<close>

lemma route_next_until_subtree:
  assumes "trie t" "compact t" "preorder (node_at limit t) = xs @ k # ys"
  shows "route_next_until (route_lock_node t k) k limit =
     Inr (case ys of [] \<Rightarrow> (None, t) | nk # _ \<Rightarrow> (Some nk, route_lock_node t nk))"
  using route_next_until_spec[OF assms] by (simp add: hd_opt_def split: list.splits)

lemma route_next_until_subtree_witness:
  "route_next_until (route_lock_node sample_table (pbits (ip4_net [10, 1, 0, 0] 16)))
       (pbits (ip4_net [10, 1, 0, 0] 16)) (pbits (ip4_net [10, 0, 0, 0] 8)) = Inr (None, sample_table)"
proof -
  have "preorder (node_at (pbits (ip4_net [10, 0, 0, 0] 8)) sample_table) =
      [pbits (ip4_net [10, 0, 0, 0] 8)] @ pbits (ip4_net [10, 1, 0, 0] 16) # []"
    unfolding sample_table_def ip4_net_def by code_simp
  from route_next_until_subtree[OF sample_table_ok this] show ?thesis by simp
qed

text \<open>C26: the loop of \<^verbatim>\<open>route_table_free\<close> ends and frees every node exactly once, never
  following a freed node.\<close>

lemma route_table_free_once:
  assumes "trie t" "2 * length (preorder t) \<le> fuel"
  shows "\<exists>fs. route_table_free fuel t = Some (Inr fs) \<and> distinct fs \<and> set fs = keys t"
proof (cases "t = Null")
  case True
  then show ?thesis by (simp add: route_table_free_def node_key_def)
next
  case False
  let ?k = "pbits (rn_p t)"
  have k: "node_at ?k t = t" "parent_of ?k t = None" "node_key t = Some ?k"
    using False by (cases t; simp add: node_key_def)+
  obtain n where n: "fuel = n + free_cost t"
    using assms(2) free_cost_bound(1)[of t] by (metis le_add_diff_inverse2 le_trans)
  have "route_table_free fuel t = Some (Inr (postorder t))"
    using free_loop_subtree[of t, unfolded frees_subtree_def, rule_format, of t ?k n "[]"] assms(1) k False
    by (simp add: route_table_free_def n)
  moreover have "distinct (postorder t)" "set (postorder t) = keys t"
    using preorder_distinct[OF assms(1)] postorder_mset[of t]
    by (metis mset_eq_imp_distinct_iff, metis set_mset_mset)
  ultimately show ?thesis by blast
qed

lemma route_table_free_once_witness:
  "\<exists>fs. route_table_free 8 sample_table = Some (Inr fs) \<and> distinct fs \<and> set fs = keys sample_table"
  by (rule route_table_free_once[OF sample_table_ok(1)]) (simp add: sample_table_def)

text \<open>a compact table has at most twice as many nodes as nodes somebody holds.\<close>

lemma table_size_bound:
  assumes "trie t" "compact t"
  shows "length (preorder t) \<le> 2 * length (filter (\<lambda>k. lock_at t k \<noteq> 0) (preorder t))"
  using compact_size[OF assms] by (cases "t = Null") auto

lemma table_size_bound_witness:
  "length (preorder sample_table) \<le> 2 * length (filter (\<lambda>k. lock_at sample_table k \<noteq> 0) (preorder sample_table))"
  by (rule table_size_bound[OF sample_table_ok])

end
