(* ===== verification/Pqueue.thy ===== *)
theory Pqueue
  imports Prelude "HOL-Library.Multiset"
begin

text \<open>
  The priority queue of \<^verbatim>\<open>lib/pqueue.c\<close>: a binary heap in an array that doubles when it is
  nearly full. The pointers of the array are values of the element type; the \<^verbatim>\<open>cmp\<close> callback is
  a field of the queue, and the \<^verbatim>\<open>update\<close> callback, which tells a client the new position of an
  element, writes into the client's position map \<open>stat\<close>. Positions and sizes are naturals:
  they stay far below the range of \<^verbatim>\<open>int\<close>.
\<close>

subsection \<open>The queue\<close>

record 'a pqueue =
  array :: "'a list"
  array_size :: nat
  qsize :: nat
  cmp :: "'a \<Rightarrow> 'a \<Rightarrow> int"
  update :: bool
  stat :: "'a \<Rightarrow> int"

definition PQUEUE_INIT_ARRAYSIZE :: nat where
  "PQUEUE_INIT_ARRAYSIZE = 32"

definition PARENT_OF :: "nat \<Rightarrow> nat" where "PARENT_OF x = (x - 1) div 2"

definition LEFT_OF :: "nat \<Rightarrow> nat" where "LEFT_OF x = 2 * x + 1"

definition RIGHT_OF :: "nat \<Rightarrow> nat" where "RIGHT_OF x = 2 * x + 2"

definition HAVE_CHILD :: "nat \<Rightarrow> 'a pqueue \<Rightarrow> bool" where
  "HAVE_CHILD x q \<longleftrightarrow> x < qsize q div 2"

text \<open>\<^verbatim>\<open>if (queue->update != NULL) (*queue->update) (node, index)\<close>.\<close>

definition notify :: "'a \<Rightarrow> nat \<Rightarrow> 'a pqueue \<Rightarrow> 'a pqueue" where
  "notify node index q = (if update q then q\<lparr>stat := (stat q)(node := int index)\<rparr> else q)"

definition put :: "nat \<Rightarrow> 'a \<Rightarrow> 'a pqueue \<Rightarrow> 'a pqueue res" where
  "put index node q = bindE (aset (array q) index node) (\<lambda>a. Inr (notify node index (q\<lparr>array := a\<rparr>)))"

function trickle_up_loop :: "nat \<Rightarrow> 'a \<Rightarrow> 'a pqueue \<Rightarrow> (nat \<times> 'a pqueue) res" where
  "trickle_up_loop index tmp q =
     (if index > 0
      then bindE (aget (array q) (PARENT_OF index)) (\<lambda>p.
             if cmp q tmp p < 0
             then bindE (put index p q) (\<lambda>q'. trickle_up_loop (PARENT_OF index) tmp q')
             else Inr (index, q))
      else Inr (index, q))"
  by pat_completeness auto
termination by (relation "measure (\<lambda>(i, _, _). i)") (auto simp: PARENT_OF_def)

definition trickle_up :: "nat \<Rightarrow> 'a pqueue \<Rightarrow> 'a pqueue res" where
  "trickle_up index q =
     bindE (aget (array q) index) (\<lambda>tmp.
     bindE (trickle_up_loop index tmp q) (\<lambda>(i, q'). put i tmp q'))"

definition which_child :: "nat \<Rightarrow> 'a pqueue \<Rightarrow> nat res" where
  "which_child index q =
     (if RIGHT_OF index < qsize q
      then bindE (aget (array q) (LEFT_OF index)) (\<lambda>l.
           bindE (aget (array q) (RIGHT_OF index)) (\<lambda>r.
             Inr (if cmp q l r > 0 then RIGHT_OF index else LEFT_OF index)))
      else Inr (LEFT_OF index))"

lemma put_size: "put i x q = Inr q' \<Longrightarrow> qsize q' = qsize q"
  by (auto simp: put_def aset_def notify_def split: if_splits)

lemma which_child_gt: "which_child i q = Inr w \<Longrightarrow> i < w"
  by (auto simp: which_child_def aget_def LEFT_OF_def RIGHT_OF_def split: if_splits)

lemma trickle_down_closer:
  assumes "HAVE_CHILD i q" "which_child i q = Inr w" "put i x q = Inr q'"
  shows "qsize q' - w < qsize q - i"
  using assms which_child_gt[OF assms(2)] put_size[OF assms(3)] by (auto simp: HAVE_CHILD_def)

function trickle_down_loop :: "nat \<Rightarrow> 'a \<Rightarrow> 'a pqueue \<Rightarrow> (nat \<times> 'a pqueue) res" where
  "trickle_down_loop index tmp q =
     (if HAVE_CHILD index q
      then case which_child index q of
             Inl e \<Rightarrow> Inl e
           | Inr which \<Rightarrow>
               bindE (aget (array q) which) (\<lambda>c.
                 if cmp q c tmp > 0 then Inr (index, q)
                 else case put index c q of
                        Inl e \<Rightarrow> Inl e
                      | Inr q' \<Rightarrow> trickle_down_loop which tmp q')
      else Inr (index, q))"
  by pat_completeness auto
termination
  by (relation "measure (\<lambda>(i, _, q). qsize q - i)")
    (auto intro: trickle_down_closer)

definition trickle_down :: "nat \<Rightarrow> 'a pqueue \<Rightarrow> 'a pqueue res" where
  "trickle_down index q =
     bindE (aget (array q) index) (\<lambda>tmp.
     bindE (trickle_down_loop index tmp q) (\<lambda>(i, q'). put i tmp q'))"

text \<open>\<^verbatim>\<open>XCALLOC\<close> fills a new array with null pointers; the caller sets \<^verbatim>\<open>cmp\<close> and \<^verbatim>\<open>update\<close>.
  The client's position map is its own memory, \<open>positions\<close>.\<close>

definition pqueue_create :: "'a \<Rightarrow> ('a \<Rightarrow> int) \<Rightarrow> ('a \<Rightarrow> 'a \<Rightarrow> int) \<Rightarrow> 'a pqueue" where
  "pqueue_create nul positions compare =
     \<lparr>array = replicate PQUEUE_INIT_ARRAYSIZE nul, array_size = PQUEUE_INIT_ARRAYSIZE, qsize = 0,
      cmp = compare, update = False, stat = positions\<rparr>"

definition pqueue_expand :: "'a \<Rightarrow> 'a pqueue \<Rightarrow> 'a pqueue" where
  "pqueue_expand nul q =
     q\<lparr>array := take (array_size q) (array q) @ replicate (array_size q * 2 - array_size q) nul,
       array_size := array_size q * 2\<rparr>"

definition pqueue_enqueue :: "'a \<Rightarrow> 'a \<Rightarrow> 'a pqueue \<Rightarrow> 'a pqueue res" where
  "pqueue_enqueue nul data q =
     (let q1 = (if qsize q + 2 \<ge> array_size q then pqueue_expand nul q else q) in
      bindE (put (qsize q1) data q1) (\<lambda>q2.
      bindE (trickle_up (qsize q2) q2) (\<lambda>q3.
        Inr (q3\<lparr>qsize := qsize q3 + 1\<rparr>))))"

text \<open>On an empty queue \<^verbatim>\<open>--queue->size\<close> is \<open>-1\<close> and the read is out of bounds.\<close>

definition pqueue_dequeue :: "'a pqueue \<Rightarrow> ('a \<times> 'a pqueue) res" where
  "pqueue_dequeue q =
     bindE (aget (array q) 0) (\<lambda>data.
       if qsize q = 0 then Inl OutOfBounds
       else bindE (aget (array q) (qsize q - 1)) (\<lambda>l.
            bindE (aset (array q) 0 l) (\<lambda>a.
            bindE (trickle_down 0 (q\<lparr>array := a, qsize := qsize q - 1\<rparr>)) (\<lambda>q'.
              Inr (data, q')))))"

declare trickle_up_loop.simps [simp del] trickle_down_loop.simps [simp del]

subsection \<open>Heaps\<close>

text \<open>The laws a comparison callback must satisfy on the elements that are ever queued.\<close>

locale queue_order =
  fixes compare :: "'a \<Rightarrow> 'a \<Rightarrow> int" and valid :: "'a \<Rightarrow> bool"
  assumes flip: "valid x \<Longrightarrow> valid y \<Longrightarrow> compare x y < 0 \<longleftrightarrow> compare y x > 0"
    and le_trans: "valid x \<Longrightarrow> valid y \<Longrightarrow> valid z \<Longrightarrow> compare x y \<le> 0 \<Longrightarrow> compare y z \<le> 0 \<Longrightarrow> compare x z \<le> 0"

definition heap_on :: "('a \<Rightarrow> 'a \<Rightarrow> int) \<Rightarrow> nat \<Rightarrow> 'a list \<Rightarrow> bool" where
  "heap_on compare n v \<longleftrightarrow> (\<forall>j. 0 < j \<and> j < n \<longrightarrow> compare (v ! PARENT_OF j) (v ! j) \<le> 0)"

text \<open>A heap but for the node at \<open>i\<close>, which may be too small for its place (\<open>up_ok\<close>) or too
  large (\<open>down_ok\<close>).\<close>

definition up_ok :: "('a \<Rightarrow> 'a \<Rightarrow> int) \<Rightarrow> nat \<Rightarrow> 'a list \<Rightarrow> nat \<Rightarrow> bool" where
  "up_ok compare n v i \<longleftrightarrow>
     (\<forall>j. 0 < j \<and> j < n \<and> j \<noteq> i \<longrightarrow> compare (v ! PARENT_OF j) (v ! j) \<le> 0) \<and>
     (\<forall>c. 0 < i \<and> 0 < c \<and> c < n \<and> PARENT_OF c = i \<longrightarrow> compare (v ! PARENT_OF i) (v ! c) \<le> 0)"

definition down_ok :: "('a \<Rightarrow> 'a \<Rightarrow> int) \<Rightarrow> nat \<Rightarrow> 'a list \<Rightarrow> nat \<Rightarrow> bool" where
  "down_ok compare n v i \<longleftrightarrow>
     (\<forall>j. 0 < j \<and> j < n \<and> PARENT_OF j \<noteq> i \<longrightarrow> compare (v ! PARENT_OF j) (v ! j) \<le> 0) \<and>
     (\<forall>c. 0 < i \<and> 0 < c \<and> c < n \<and> PARENT_OF c = i \<longrightarrow> compare (v ! PARENT_OF i) (v ! c) \<le> 0)"

lemma parent_less: "0 < i \<Longrightarrow> PARENT_OF i < i"
  by (simp add: PARENT_OF_def)

lemma parent_children: "PARENT_OF (LEFT_OF i) = i" "PARENT_OF (RIGHT_OF i) = i"
  by (simp_all add: PARENT_OF_def LEFT_OF_def RIGHT_OF_def)

lemma child_cases: "0 < c \<Longrightarrow> PARENT_OF c = i \<Longrightarrow> c = LEFT_OF i \<or> c = RIGHT_OF i"
  by (auto simp: PARENT_OF_def LEFT_OF_def RIGHT_OF_def)

lemma all_nth_take: "\<forall>x\<in>set (take n v). P x \<Longrightarrow> n \<le> length v \<Longrightarrow> j < n \<Longrightarrow> P (v ! j)"
  using nth_mem[of j "take n v"] by auto

lemma swap_take_mset:
  assumes "i < n" "j < n" "n \<le> length v"
  shows "mset (take n (v[i := v ! j, j := v ! i])) = mset (take n v)"
proof -
  have "take n (v[i := v ! j, j := v ! i]) = (take n v)[i := take n v ! j, j := take n v ! i]"
    using assms by (simp add: take_update_swap)
  then show ?thesis using assms mset_swap[of j "take n v" i] by simp
qed

text \<open>What the loops keep: the configuration of the queue and the positions told to the client, for
  the array \<open>v\<close> in which the saved node is put back at \<open>i\<close>.\<close>

definition tracked :: "nat \<Rightarrow> 'a list \<Rightarrow> nat \<Rightarrow> 'a pqueue \<Rightarrow> bool" where
  "tracked n v i q \<longleftrightarrow> (update q \<longrightarrow> (\<forall>j<n. j \<noteq> i \<longrightarrow> stat q (v ! j) = int j))"

definition same_config :: "'a pqueue \<Rightarrow> 'a pqueue \<Rightarrow> bool" where
  "same_config q q' \<longleftrightarrow> length (array q') = length (array q) \<and> array_size q' = array_size q \<and>
     qsize q' = qsize q \<and> cmp q' = cmp q \<and> update q' = update q"

lemma same_config_refl [simp]: "same_config q q"
  by (simp add: same_config_def)

lemma same_config_trans: "same_config a b \<Longrightarrow> same_config b c \<Longrightarrow> same_config a c"
  by (simp add: same_config_def)

lemma put_in:
  assumes "i < length (array q)"
  obtains q' where "put i x q = Inr q'" "array q' = (array q)[i := x]" "same_config q q'"
    "stat q' = (if update q then (stat q)(x := int i) else stat q)"
proof (rule that[of "notify x i (q\<lparr>array := (array q)[i := x]\<rparr>)"])
qed (use assms in \<open>auto simp: put_def notify_def same_config_def\<close>)

text \<open>Moving the node at \<open>j\<close> into the hole at \<open>i\<close> swaps the two in the array with the hole filled.\<close>

lemma move_into_hole:
  assumes "put i (v ! j) q = Inr q'" "array q' = (array q)[i := v ! j]"
    "stat q' = (if update q then (stat q)(v ! j := int i) else stat q)" "update q' = update q"
    and v: "v = (array q)[i := tmp]" and ij: "i \<noteq> j" "i < n" "j < n" "n \<le> length (array q)"
    and tr: "tracked n v i q" and d: "distinct (take n v)"
  shows "(array q')[j := tmp] = v[i := v ! j, j := v ! i]"
    "tracked n ((array q')[j := tmp]) j q'"
proof -
  have vi: "v ! i = tmp" using v ij by simp
  show eq: "(array q')[j := tmp] = v[i := v ! j, j := v ! i]"
    using assms(2) v vi by simp
  have lenv: "n \<le> length v" using v ij by simp
  have ne: "v ! k \<noteq> v ! j" if "k < n" "k \<noteq> j" for k
    using d that ij lenv nth_eq_iff_index_eq[of "take n v" k j] by simp
  show "tracked n ((array q')[j := tmp]) j q'"
    unfolding eq tracked_def using tr assms(3,4) ne ij lenv
    by (auto simp: tracked_def nth_list_update)
qed

context queue_order
begin

lemma cmp_refl: "valid x \<Longrightarrow> compare x x \<le> 0"
  using flip[of x x] by linarith

lemma cmp_not_less: "valid x \<Longrightarrow> valid y \<Longrightarrow> \<not> compare x y < 0 \<Longrightarrow> compare y x \<le> 0"
  using flip[of x y] by linarith

lemma le_of_not_gt: "\<not> compare x y > 0 \<Longrightarrow> compare x y \<le> 0"
  by simp

lemma up_step:
  assumes ok: "up_ok compare n v i" and i: "0 < i" "i < n" and n: "n \<le> length v"
    and val: "\<forall>x\<in>set (take n v). valid x" and lt: "compare (v ! i) (v ! PARENT_OF i) < 0"
  shows "up_ok compare n (v[i := v ! PARENT_OF i, PARENT_OF i := v ! i]) (PARENT_OF i)"
proof -
  let ?p = "PARENT_OF i" 
  define w where "w = v[i := v ! ?p, ?p := v ! i]"
  have p: "?p < i" using parent_less[OF i(1)] .
  have V: "valid (v ! j)" if "j < n" for j
    using all_nth_take[OF val n that] .
  have w: "w ! j = (if j = ?p then v ! i else if j = i then v ! ?p else v ! j)" if "j < n" for j
    using that p i n by (auto simp: w_def nth_list_update)
  have A: "\<And>j. 0 < j \<Longrightarrow> j < n \<Longrightarrow> j \<noteq> i \<Longrightarrow> compare (v ! PARENT_OF j) (v ! j) \<le> 0"
    and B: "\<And>c. 0 < c \<Longrightarrow> c < n \<Longrightarrow> PARENT_OF c = i \<Longrightarrow> compare (v ! ?p) (v ! c) \<le> 0"
    using ok i(1) by (auto simp: up_ok_def)
  show ?thesis unfolding up_ok_def w_def[symmetric]
  proof (intro conjI allI impI)
    fix j assume j: "0 < j \<and> j < n \<and> j \<noteq> ?p"
    then have pj: "PARENT_OF j < n" using parent_less[of j] by linarith
    show "compare (w ! PARENT_OF j) (w ! j) \<le> 0"
    proof (cases "j = i")
      case True
      then show ?thesis using lt w i p by auto
    next
      case False
      consider "PARENT_OF j = i" | "PARENT_OF j = ?p" | "PARENT_OF j \<noteq> i" "PARENT_OF j \<noteq> ?p" by blast
      then show ?thesis
      proof cases
        case 1
        then show ?thesis using B[of j] j False w pj p by auto
      next
        case 2
        have "compare (v ! i) (v ! ?p) \<le> 0" "compare (v ! ?p) (v ! j) \<le> 0"
          using lt A[of j] j False 2 by auto
        then have "compare (v ! i) (v ! j) \<le> 0" using le_trans V i j p by (meson less_trans)
        then show ?thesis using 2 False j w pj by auto
      next
        case 3
        then show ?thesis using A[of j] j False w pj by auto
      qed
    qed
  next
    fix c assume c: "0 < ?p \<and> 0 < c \<and> c < n \<and> PARENT_OF c = ?p"
    have pp: "PARENT_OF ?p < ?p" using c parent_less by blast
    have up: "compare (v ! PARENT_OF ?p) (v ! ?p) \<le> 0" using A[of ?p] c p i by auto
    have wp: "w ! PARENT_OF ?p = v ! PARENT_OF ?p" using w[of "PARENT_OF ?p"] pp p i by auto
    have cp: "c \<noteq> ?p" using c parent_less[of c] by auto
    show "compare (w ! PARENT_OF ?p) (w ! c) \<le> 0"
    proof (cases "c = i")
      case True
      then show ?thesis using up wp w[of c] c p by auto
    next
      case False
      have "compare (v ! ?p) (v ! c) \<le> 0" using A[of c] c False by auto
      then have "compare (v ! PARENT_OF ?p) (v ! c) \<le> 0"
        using up le_trans V c p pp i by (meson less_trans)
      then show ?thesis using wp w[of c] c cp False by auto
    qed
  qed
qed

lemma up_done:
  assumes "up_ok compare n v i" "i = 0 \<or> compare (v ! PARENT_OF i) (v ! i) \<le> 0"
  shows "heap_on compare n v"
  using assms by (auto simp: up_ok_def heap_on_def)

lemma down_step:
  assumes ok: "down_ok compare n v i" and i: "i < n" and n: "n \<le> length v"
    and val: "\<forall>x\<in>set (take n v). valid x" and le: "compare (v ! w) (v ! i) \<le> 0"
    and w: "PARENT_OF w = i" "0 < w" "w < n" "\<And>c. 0 < c \<Longrightarrow> c < n \<Longrightarrow> PARENT_OF c = i \<Longrightarrow> compare (v ! w) (v ! c) \<le> 0"
  shows "down_ok compare n (v[i := v ! w, w := v ! i]) w"
proof -
  define u where "u = v[i := v ! w, w := v ! i]"
  have iw: "i < w" using parent_less[OF w(2)] w(1) by simp
  have V: "valid (v ! j)" if "j < n" for j
    using all_nth_take[OF val n that] .
  have u: "u ! j = (if j = w then v ! i else if j = i then v ! w else v ! j)" if "j < n" for j
    using that iw i w n by (auto simp: u_def nth_list_update)
  have A: "\<And>j. 0 < j \<Longrightarrow> j < n \<Longrightarrow> PARENT_OF j \<noteq> i \<Longrightarrow> compare (v ! PARENT_OF j) (v ! j) \<le> 0"
    and B: "\<And>c. 0 < i \<Longrightarrow> 0 < c \<Longrightarrow> c < n \<Longrightarrow> PARENT_OF c = i \<Longrightarrow> compare (v ! PARENT_OF i) (v ! c) \<le> 0"
    using ok by (auto simp: down_ok_def)
  show ?thesis unfolding down_ok_def u_def[symmetric]
  proof (intro conjI allI impI)
    fix j assume j: "0 < j \<and> j < n \<and> PARENT_OF j \<noteq> w"
    then have pj: "PARENT_OF j < n" "PARENT_OF j < j" using parent_less[of j] by linarith+
    show "compare (u ! PARENT_OF j) (u ! j) \<le> 0"
    proof (cases "PARENT_OF j = i")
      case True
      then show ?thesis using w(4)[of j] j u pj le iw by (cases "j = w") auto
    next
      case False
      then have jw: "j \<noteq> w" using w(1) by auto
      show ?thesis
      proof (cases "j = i")
        case True
        then have "compare (v ! PARENT_OF i) (v ! w) \<le> 0" using B[of w] j w by auto
        then show ?thesis using True u pj j iw by auto
      next
        case no: False
        then show ?thesis using A[of j] j False jw u pj by auto
      qed
    qed
  next
    fix c assume c: "0 < w \<and> 0 < c \<and> c < n \<and> PARENT_OF c = w"
    have "c \<noteq> w" "c \<noteq> i" using c parent_less[of c] iw by auto
    moreover have "compare (v ! w) (v ! c) \<le> 0" using A[of c] c iw by auto
    ultimately show "compare (u ! PARENT_OF w) (u ! c) \<le> 0"
      using u c w(1) i iw by auto
  qed
qed

lemma down_done:
  assumes "down_ok compare n v i" "\<And>c. 0 < c \<Longrightarrow> c < n \<Longrightarrow> PARENT_OF c = i \<Longrightarrow> compare (v ! i) (v ! c) \<le> 0"
  shows "heap_on compare n v"
  using assms by (auto simp: down_ok_def heap_on_def)

lemma heap_top:
  assumes "heap_on compare n v" "n \<le> length v" "\<forall>x\<in>set (take n v). valid x"
  shows "i < n \<Longrightarrow> compare (v ! 0) (v ! i) \<le> 0"
proof (induction i rule: less_induct)
  case (less i)
  have V: "valid (v ! j)" if "j < n" for j
    using all_nth_take[OF assms(3,2) that] .
  show ?case
  proof (cases "i = 0")
    case True
    then show ?thesis using cmp_refl V less.prems by simp
  next
    case False
    then have p: "PARENT_OF i < i" using parent_less by simp
    then have "compare (v ! 0) (v ! PARENT_OF i) \<le> 0" using less by simp
    moreover have "compare (v ! PARENT_OF i) (v ! i) \<le> 0"
      using assms(1) False less.prems by (simp add: heap_on_def)
    ultimately show ?thesis using le_trans V p less.prems by (meson le_less_trans less_trans zero_le)
  qed
qed

text \<open>The result of a loop: a hole whose filling makes a heap of the same elements.\<close>

definition settled :: "nat \<Rightarrow> 'a list \<Rightarrow> 'a \<Rightarrow> 'a pqueue \<Rightarrow> nat \<Rightarrow> 'a pqueue \<Rightarrow> bool" where
  "settled n v tmp q i' q' \<longleftrightarrow> i' < n \<and> same_config q q' \<and>
     heap_on compare n ((array q')[i' := tmp]) \<and> mset (take n ((array q')[i' := tmp])) = mset (take n v) \<and>
     tracked n ((array q')[i' := tmp]) i' q' \<and> (\<forall>y. y \<notin> set (take n v) \<longrightarrow> stat q' y = stat q y)"

lemma settled_step:
  assumes "settled n w tmp q1 i q'" "same_config q q1" "mset (take n w) = mset (take n v)"
    "stat q1 = (if update q then (stat q)(x := p) else stat q)" "x \<in> set (take n v)"
  shows "settled n v tmp q i q'"
  using assms same_config_trans[OF assms(2)] mset_eq_setD[OF assms(3)]
  by (auto simp: settled_def split: if_splits)

lemma trickle_up_loop_settles:
  assumes "cmp q = compare" "i < n" "n \<le> length (array q)" "v = (array q)[i := tmp]"
    "up_ok compare n v i" "\<forall>x\<in>set (take n v). valid x" "distinct (take n v)" "tracked n v i q"
  shows "\<exists>i' q'. trickle_up_loop i tmp q = Inr (i', q') \<and> settled n v tmp q i' q'"
  using assms
proof (induction i arbitrary: q v rule: less_induct)
  case (less i)
  have vi: "v ! i = tmp" and lenv: "n \<le> length v" using less.prems by simp_all
  show ?case
  proof (cases "0 < i \<and> compare tmp (v ! PARENT_OF i) < 0")
    case True
    let ?p = "PARENT_OF i"
    have p: "?p < i" using True parent_less by simp
    have pv: "array q ! ?p = v ! ?p" using less.prems(4) p by simp
    obtain q' where q': "put i (v ! ?p) q = Inr q'" "array q' = (array q)[i := v ! ?p]" "same_config q q'"
      "stat q' = (if update q then (stat q)(v ! ?p := int i) else stat q)"
      using put_in[of i q "v ! ?p"] less.prems(2,3) by auto
    let ?w = "(array q')[?p := tmp]"
    have w: "?w = v[i := v ! ?p, ?p := v ! i]" "tracked n ?w ?p q'"
      using move_into_hole[OF q'(1,2,4) _ less.prems(4), of n] q'(3) p less.prems(2,3,7,8)
      by (auto simp: same_config_def)
    have m: "mset (take n ?w) = mset (take n v)"
      unfolding w(1) using swap_take_mset[of i n ?p v] less.prems(2,3,4) p by simp
    have "up_ok compare n ?w ?p"
      unfolding w(1) using up_step[OF less.prems(5) _ less.prems(2) _ less.prems(6)] True vi less.prems(3,4) by simp
    moreover have "\<forall>x\<in>set (take n ?w). valid x" "distinct (take n ?w)"
      using less.prems(6,7) mset_eq_setD[OF m] mset_eq_imp_distinct_iff[OF m] by auto
    ultimately obtain i' q'' where r: "trickle_up_loop ?p tmp q' = Inr (i', q'')" "settled n ?w tmp q' i' q''"
      using less.IH[OF p, of q' ?w] less.prems(1-3) q'(3) p w(2) by (auto simp: same_config_def)
    have "trickle_up_loop i tmp q = Inr (i', q'')"
      using True r(1) q'(1) pv less.prems(1,2,3) p by (subst trickle_up_loop.simps) simp
    moreover have "v ! ?p \<in> set (take n v)"
      using p less.prems(2) lenv by (auto simp: in_set_conv_nth intro!: exI[of _ ?p])
    then have "settled n v tmp q i' q''" using settled_step[OF r(2) q'(3) m q'(4)] by simp
    ultimately show ?thesis by blast
  next
    case False
    have "trickle_up_loop i tmp q = Inr (i, q)"
      using False less.prems(1-4) parent_less[of i] by (subst trickle_up_loop.simps) auto
    moreover have "i = 0 \<or> compare (v ! PARENT_OF i) (v ! i) \<le> 0"
    proof (cases "i = 0")
      case no: False
      then have "PARENT_OF i < n" using parent_less[of i] less.prems(2) by simp
      then have "valid (v ! PARENT_OF i)" "valid (v ! i)"
        using all_nth_take[OF less.prems(6) lenv] less.prems(2) by simp_all
      with no False vi cmp_not_less show ?thesis by auto
    qed simp
    ultimately show ?thesis
      using up_done[OF less.prems(5)] less.prems by (auto simp: settled_def)
  qed
qed

lemma settle_put:
  assumes "settled n v tmp q i q'" "n \<le> length (array q)" "distinct (take n v)"
  shows "\<exists>q''. put i tmp q' = Inr q'' \<and> same_config q q'' \<and> heap_on compare n (array q'') \<and>
     mset (take n (array q'')) = mset (take n v) \<and> tracked n (array q'') n q'' \<and>
     (\<forall>y. y \<notin> set (take n v) \<longrightarrow> stat q'' y = stat q y)"
proof -
  have i: "i < n" "i < length (array q')" "same_config q q'" using assms by (auto simp: settled_def same_config_def)
  obtain q'' where q'': "put i tmp q' = Inr q''" "array q'' = (array q')[i := tmp]" "same_config q' q''"
    "stat q'' = (if update q' then (stat q')(tmp := int i) else stat q')"
    using put_in[OF i(2)] by blast
  define w where "w = (array q')[i := tmp]"
  have m: "mset (take n w) = mset (take n v)" and tr: "tracked n w i q'" and wi: "w ! i = tmp"
    using assms(1) i(2) by (auto simp: settled_def w_def)
  have d: "distinct (take n w)" using mset_eq_imp_distinct_iff[OF m] assms(3) by simp
  have len: "n \<le> length w" using assms(2) i(3) by (simp add: same_config_def w_def)
  have "w ! j \<noteq> tmp" if "j < n" "j \<noteq> i" for j
    using d that i(1) wi len nth_eq_iff_index_eq[of "take n w" j i] by simp
  then have "tracked n w n q''"
    using tr q''(3,4) wi by (auto simp: tracked_def same_config_def)
  moreover have "tmp \<in> set (take n v)"
    using mset_eq_setD[OF m] wi i(1) len nth_mem[of i "take n w"] by simp
  ultimately show ?thesis using q'' i(3) assms(1) same_config_trans
    by (auto simp: settled_def w_def split: if_splits)
qed

lemma which_child_spec:
  assumes "HAVE_CHILD i q" "qsize q \<le> length (array q)" "cmp q = compare"
    and val: "\<And>j. j < qsize q \<Longrightarrow> j \<noteq> i \<Longrightarrow> valid (array q ! j)"
  obtains w where "which_child i q = Inr w" "PARENT_OF w = i" "0 < w" "w < qsize q"
    "\<And>c. 0 < c \<Longrightarrow> c < qsize q \<Longrightarrow> PARENT_OF c = i \<Longrightarrow> compare (array q ! w) (array q ! c) \<le> 0"
proof -
  let ?n = "qsize q" let ?a = "array q"
  have l: "LEFT_OF i < ?n" "LEFT_OF i \<noteq> i" "RIGHT_OF i \<noteq> i" using assms(1) by (auto simp: HAVE_CHILD_def LEFT_OF_def RIGHT_OF_def)
  have vl: "valid (?a ! LEFT_OF i)" using val l by blast
  show thesis
  proof (cases "RIGHT_OF i < ?n")
    case True
    have vr: "valid (?a ! RIGHT_OF i)" using val l True by blast
    define w where "w = (if compare (?a ! LEFT_OF i) (?a ! RIGHT_OF i) > 0 then RIGHT_OF i else LEFT_OF i)"
    show thesis
    proof (rule that[of w])
      show "which_child i q = Inr w"
        using True l assms(2,3) by (simp add: which_child_def w_def)
      show "PARENT_OF w = i" "w < ?n" using True l by (simp_all add: w_def parent_children)
      show "0 < w" by (simp add: w_def LEFT_OF_def RIGHT_OF_def)
      show "compare (?a ! w) (?a ! c) \<le> 0" if "0 < c" "c < ?n" "PARENT_OF c = i" for c
        using child_cases[OF that(1,3)] cmp_refl vl vr flip[OF vr vl] by (auto simp: w_def)
    qed
  next
    case False
    show thesis
    proof (rule that[of "LEFT_OF i"])
      show "compare (?a ! LEFT_OF i) (?a ! c) \<le> 0" if "0 < c" "c < ?n" "PARENT_OF c = i" for c
        using child_cases[OF that(1,3)] that False cmp_refl vl by auto
    qed (use False l in \<open>auto simp: which_child_def PARENT_OF_def LEFT_OF_def\<close>)
  qed
qed

lemma trickle_down_loop_settles:
  assumes "cmp q = compare" "i < n" "n = qsize q" "n \<le> length (array q)" "v = (array q)[i := tmp]"
    "down_ok compare n v i" "\<forall>x\<in>set (take n v). valid x" "distinct (take n v)" "tracked n v i q"
  shows "\<exists>i' q'. trickle_down_loop i tmp q = Inr (i', q') \<and> settled n v tmp q i' q'"
  using assms
proof (induction "n - i" arbitrary: i q v rule: less_induct)
  case less
  have vi: "v ! i = tmp" and lenv: "n \<le> length v" and av: "\<And>j. j \<noteq> i \<Longrightarrow> array q ! j = v ! j"
    using less.prems by simp_all
  have val: "valid (v ! j)" if "j < n" for j using all_nth_take[OF less.prems(7) lenv that] .
  show ?case
  proof (cases "HAVE_CHILD i q")
    case False
    have "trickle_down_loop i tmp q = Inr (i, q)" using False by (subst trickle_down_loop.simps) simp
    moreover have "heap_on compare n v"
    proof (rule down_done[OF less.prems(6)])
      fix c assume "0 < c" "c < n" "PARENT_OF c = i"
      then show "compare (v ! i) (v ! c) \<le> 0"
        using False less.prems(3) by (auto simp: HAVE_CHILD_def PARENT_OF_def)
    qed
    ultimately show ?thesis using less.prems by (auto simp: settled_def)
  next
    case True
    have vq: "\<And>j. j < qsize q \<Longrightarrow> j \<noteq> i \<Longrightarrow> valid (array q ! j)" using av val less.prems(3) by simp
    from which_child_spec[OF True _ less.prems(1) vq] less.prems(3,4) obtain w where
      w: "which_child i q = Inr w" "PARENT_OF w = i" "0 < w" "w < n"
        "\<And>c. 0 < c \<Longrightarrow> c < n \<Longrightarrow> PARENT_OF c = i \<Longrightarrow> compare (array q ! w) (array q ! c) \<le> 0" by auto
    have iw: "i < w" using parent_less[OF w(3)] w(2) by simp
    have wv: "array q ! w = v ! w" using av iw by simp
    have best: "compare (v ! w) (v ! c) \<le> 0" if "0 < c" "c < n" "PARENT_OF c = i" for c
      using w(5)[OF that] av[of c] wv parent_less[OF that(1)] that(3) by simp
    show ?thesis
    proof (cases "compare (v ! w) tmp > 0")
      case stop: True
      have "trickle_down_loop i tmp q = Inr (i, q)"
        using True stop w(1,4) wv less.prems(1,4) by (subst trickle_down_loop.simps) simp
      moreover have "heap_on compare n v"
      proof (rule down_done[OF less.prems(6)])
        fix c assume c: "0 < c" "c < n" "PARENT_OF c = i"
        have "compare (v ! i) (v ! w) \<le> 0"
          using stop vi flip[of "v ! i" "v ! w"] val w(4) less.prems(2) by force
        then show "compare (v ! i) (v ! c) \<le> 0"
          using best[OF c] le_trans val w(4) less.prems(2) c(2) by blast
      qed
      ultimately show ?thesis using less.prems by (auto simp: settled_def)
    next
      case go: False
      obtain q' where q': "put i (v ! w) q = Inr q'" "array q' = (array q)[i := v ! w]" "same_config q q'"
        "stat q' = (if update q then (stat q)(v ! w := int i) else stat q)"
        using put_in[of i q "v ! w"] less.prems(2,4) by auto
      let ?w = "(array q')[w := tmp]"
      have u: "?w = v[i := v ! w, w := v ! i]" "tracked n ?w w q'"
        using move_into_hole[OF q'(1,2,4) _ less.prems(5), of n] q'(3) iw w(4) less.prems(2,4,8,9)
        by (auto simp: same_config_def)
      have m: "mset (take n ?w) = mset (take n v)"
        unfolding u(1) using swap_take_mset[of i n w v] less.prems(2) w(4) lenv by simp
      have dn: "down_ok compare n ?w w"
        unfolding u(1) using down_step[OF less.prems(6,2) lenv less.prems(7) _ w(2,3,4)] best go vi by auto
      have vd: "\<forall>x\<in>set (take n ?w). valid x" "distinct (take n ?w)"
        using less.prems(7,8) mset_eq_setD[OF m] mset_eq_imp_distinct_iff[OF m] by auto
      have cfg: "n - w < n - i" "cmp q' = compare" "n = qsize q'" "n \<le> length (array q')"
        using less.prems(1,3,4) q'(3) iw w(4) by (simp_all add: same_config_def)
      obtain i' q'' where r: "trickle_down_loop w tmp q' = Inr (i', q'')" "settled n ?w tmp q' i' q''"
        using less.hyps[OF cfg(1,2) w(4) cfg(3,4) refl dn vd u(2)] by blast
      have "trickle_down_loop i tmp q = Inr (i', q'')"
        using True go r(1) q'(1) w(1,4) wv less.prems(1,4) by (subst trickle_down_loop.simps) simp
      moreover have "v ! w \<in> set (take n v)"
        using w(4) lenv by (auto simp: in_set_conv_nth intro!: exI[of _ w])
      then have "settled n v tmp q i' q''" using settled_step[OF r(2) q'(3) m q'(4)] by simp
      ultimately show ?thesis by blast
    qed
  qed
qed

end

subsection \<open>Queue operations\<close>

definition contents :: "'a pqueue \<Rightarrow> 'a list" where
  "contents q = take (qsize q) (array q)"

definition pq_inv :: "('a \<Rightarrow> 'a \<Rightarrow> int) \<Rightarrow> ('a \<Rightarrow> bool) \<Rightarrow> 'a pqueue \<Rightarrow> bool" where
  "pq_inv compare valid q \<longleftrightarrow> array_size q = length (array q) \<and> qsize q < array_size q \<and> cmp q = compare \<and>
     heap_on compare (qsize q) (array q) \<and> (\<forall>x\<in>set (contents q). valid x) \<and> distinct (contents q) \<and>
     tracked (qsize q) (array q) (qsize q) q"

lemma pq_inv_create: "pq_inv compare valid (pqueue_create nul positions compare)"
  by (simp add: pq_inv_def pqueue_create_def PQUEUE_INIT_ARRAYSIZE_def heap_on_def contents_def tracked_def)

lemma heap_on_cong:
  assumes "heap_on compare n v" "\<And>j. j < n \<Longrightarrow> w ! j = v ! j"
  shows "heap_on compare n w"
  unfolding heap_on_def
proof (intro allI impI)
  fix j assume j: "0 < j \<and> j < n"
  then have "PARENT_OF j < n" using parent_less[of j] by linarith
  then show "compare (w ! PARENT_OF j) (w ! j) \<le> 0" using assms j by (simp add: heap_on_def)
qed

text \<open>Growing the array changes nothing a client can see.\<close>

lemma pq_inv_room:
  fixes nul :: 'a
  assumes "pq_inv compare valid q"
  defines "q1 \<equiv> (if qsize q + 2 \<ge> array_size q then pqueue_expand nul q else q)"
  shows "pq_inv compare valid q1" "contents q1 = contents q" "qsize q1 = qsize q"
    "qsize q1 + 1 < array_size q1" "update q1 = update q" "stat q1 = stat q"
proof -
  have q: "array_size q = length (array q)" "qsize q < array_size q" using assms(1) by (auto simp: pq_inv_def)
  have nth: "j < qsize q \<Longrightarrow> array q1 ! j = array q ! j" for j
    using q by (simp add: q1_def pqueue_expand_def nth_append)
  show f: "contents q1 = contents q" "qsize q1 = qsize q" "update q1 = update q" "stat q1 = stat q"
    "qsize q1 + 1 < array_size q1"
    using q by (auto simp: q1_def pqueue_expand_def contents_def)
  have "array_size q1 = length (array q1)" "cmp q1 = cmp q"
    using q by (auto simp: q1_def pqueue_expand_def)
  then show "pq_inv compare valid q1"
    using assms(1) f heap_on_cong[of compare "qsize q" "array q" "array q1"] nth
    by (simp add: pq_inv_def tracked_def)
qed

context queue_order
begin

lemma trickle_up_spec:
  assumes "cmp q = compare" "i < n" "n \<le> length (array q)" "up_ok compare n (array q) i"
    "\<forall>x\<in>set (take n (array q)). valid x" "distinct (take n (array q))" "tracked n (array q) i q"
  shows "\<exists>q'. trickle_up i q = Inr q' \<and> same_config q q' \<and> heap_on compare n (array q') \<and>
     mset (take n (array q')) = mset (take n (array q)) \<and> tracked n (array q') n q' \<and>
     (\<forall>y. y \<notin> set (take n (array q)) \<longrightarrow> stat q' y = stat q y)"
proof -
  have v: "array q = (array q)[i := array q ! i]" by simp
  obtain i' q' where r: "trickle_up_loop i (array q ! i) q = Inr (i', q')"
    "settled n (array q) (array q ! i) q i' q'"
    using trickle_up_loop_settles[OF assms(1-3) v assms(4-7)] by blast
  from settle_put[OF r(2) assms(3,6)] r(1) assms(2,3) show ?thesis by (simp add: trickle_up_def)
qed

lemma trickle_down_spec:
  assumes "cmp q = compare" "i < qsize q" "qsize q \<le> length (array q)" "down_ok compare (qsize q) (array q) i"
    "\<forall>x\<in>set (take (qsize q) (array q)). valid x" "distinct (take (qsize q) (array q))"
    "tracked (qsize q) (array q) i q"
  shows "\<exists>q'. trickle_down i q = Inr q' \<and> same_config q q' \<and> heap_on compare (qsize q) (array q') \<and>
     mset (take (qsize q) (array q')) = mset (take (qsize q) (array q)) \<and> tracked (qsize q) (array q') (qsize q) q' \<and>
     (\<forall>y. y \<notin> set (take (qsize q) (array q)) \<longrightarrow> stat q' y = stat q y)"
proof -
  have v: "array q = (array q)[i := array q ! i]" by simp
  obtain i' q' where r: "trickle_down_loop i (array q ! i) q = Inr (i', q')"
    "settled (qsize q) (array q) (array q ! i) q i' q'"
    using trickle_down_loop_settles[OF assms(1,2) refl assms(3) v assms(4-7)] by blast
  from settle_put[OF r(2) assms(3,6)] r(1) assms(2,3) show ?thesis by (simp add: trickle_down_def)
qed

lemma enqueue_spec:
  assumes "pq_inv compare valid q" "valid x" "x \<notin> set (contents q)"
  shows "\<exists>q'. pqueue_enqueue nul x q = Inr q' \<and> pq_inv compare valid q' \<and> qsize q' = qsize q + 1 \<and>
     update q' = update q \<and> mset (contents q') = add_mset x (mset (contents q)) \<and>
     (\<forall>y. y \<notin> set (contents q') \<longrightarrow> stat q' y = stat q y)"
proof -
  define q1 where "q1 = (if qsize q + 2 \<ge> array_size q then pqueue_expand nul q else q)"
  note R = pq_inv_room[OF assms(1), of nul, folded q1_def]
  let ?n = "qsize q"
  have len: "?n + 1 < length (array q1)" using R(1,3,4) by (simp add: pq_inv_def)
  obtain q2 where q2: "put (qsize q1) x q1 = Inr q2" "array q2 = (array q1)[qsize q1 := x]" "same_config q1 q2"
    "stat q2 = (if update q1 then (stat q1)(x := int (qsize q1)) else stat q1)"
    using put_in[of "qsize q1" q1 x] len R(3) by auto
  have c1: "take ?n (array q1) = contents q" using R(2,3) by (simp add: contents_def)
  have t2: "take (?n + 1) (array q2) = contents q @ [x]"
    using q2(2) R(3) len c1 by (simp add: take_Suc_conv_app_nth)
  have s2: "qsize q2 = ?n" "cmp q2 = compare" "update q2 = update q" "length (array q2) = length (array q1)"
    "array_size q2 = length (array q1)"
    using q2(3) R by (auto simp: same_config_def pq_inv_def)
  have old: "array q2 ! j = array q1 ! j" "array q1 ! j \<noteq> x" if "j < ?n" for j
  proof -
    show "array q2 ! j = array q1 ! j" using that q2(2) R(3) by simp
    have "contents q ! j = array q1 ! j" "length (contents q) = ?n" using that len by (simp_all add: c1[symmetric])
    then show "array q1 ! j \<noteq> x" using assms(3) that nth_mem[of j "contents q"] by auto
  qed
  have "up_ok compare (?n + 1) (array q2) ?n"
    unfolding up_ok_def
  proof (intro conjI allI impI)
    fix j assume j: "0 < j \<and> j < ?n + 1 \<and> j \<noteq> ?n"
    then have "PARENT_OF j < ?n" using parent_less[of j] by linarith
    then show "compare (array q2 ! PARENT_OF j) (array q2 ! j) \<le> 0"
      using j R(1,3) old by (auto simp: pq_inv_def heap_on_def)
  next
    fix c assume "0 < ?n \<and> 0 < c \<and> c < ?n + 1 \<and> PARENT_OF c = ?n"
    then show "compare (array q2 ! PARENT_OF ?n) (array q2 ! c) \<le> 0" using parent_less[of c] by auto
  qed
  moreover have "tracked (?n + 1) (array q2) ?n q2"
    using R(1,3,5,6) q2(4) s2(3) old by (auto simp: tracked_def pq_inv_def)
  moreover have "\<forall>y\<in>set (take (?n + 1) (array q2)). valid y" "distinct (take (?n + 1) (array q2))"
    unfolding t2 using assms by (auto simp: pq_inv_def)
  ultimately obtain q3 where q3: "trickle_up ?n q2 = Inr q3" "same_config q2 q3"
    "heap_on compare (?n + 1) (array q3)" "mset (take (?n + 1) (array q3)) = mset (contents q @ [x])"
    "tracked (?n + 1) (array q3) (?n + 1) q3" "\<And>y. y \<notin> set (contents q @ [x]) \<Longrightarrow> stat q3 y = stat q2 y"
    using trickle_up_spec[OF s2(2), of ?n "?n + 1"] s2(4) len t2 by auto
  let ?q = "q3\<lparr>qsize := qsize q3 + 1\<rparr>"
  have s3: "qsize q3 = ?n" "array_size q3 = length (array q3)" "cmp q3 = compare" "update q3 = update q"
    "length (array q3) = length (array q1)"
    using q3(2) s2 by (auto simp: same_config_def)
  have c3: "contents ?q = take (?n + 1) (array q3)" using s3(1) by (simp add: contents_def)
  have "\<forall>y\<in>set (contents ?q). valid y" "distinct (contents ?q)"
    unfolding c3 using assms mset_eq_setD[OF q3(4)] mset_eq_imp_distinct_iff[OF q3(4)] by (auto simp: pq_inv_def)
  then have "pq_inv compare valid ?q"
    using s3 q3(3,5) len by (simp add: pq_inv_def tracked_def)
  moreover have "pqueue_enqueue nul x q = Inr ?q"
    using q2(1) q3(1) s2(1) unfolding pqueue_enqueue_def Let_def q1_def[symmetric] by simp
  moreover have "mset (contents ?q) = add_mset x (mset (contents q))" unfolding c3 q3(4) by simp
  moreover have "stat ?q y = stat q y" if "y \<notin> set (contents ?q)" for y
  proof -
    have "y \<notin> set (contents q @ [x])" using that mset_eq_setD[OF q3(4)] unfolding c3 by simp
    then show ?thesis using q3(6) q2(4) R(6) by simp
  qed
  ultimately show ?thesis using s3(1,4) by auto
qed

lemma dequeue_spec:
  assumes "pq_inv compare valid q" "0 < qsize q"
  shows "\<exists>x q'. pqueue_dequeue q = Inr (x, q') \<and> pq_inv compare valid q' \<and> qsize q = qsize q' + 1 \<and>
     update q' = update q \<and> mset (contents q) = add_mset x (mset (contents q')) \<and>
     (\<forall>y\<in>set (contents q). compare x y \<le> 0) \<and> (\<forall>y. y \<notin> set (contents q) \<longrightarrow> stat q' y = stat q y)"
proof -
  define n where "n = qsize q - 1"
  let ?a = "array q" let ?x = "?a ! 0"
  have n: "qsize q = n + 1" "n < length ?a" using assms by (auto simp: n_def pq_inv_def)
  have I: "array_size q = length ?a" "qsize q < array_size q" "cmp q = compare" "heap_on compare (n + 1) ?a"
    "\<forall>y\<in>set (contents q). valid y" "distinct (contents q)" "tracked (n + 1) ?a (n + 1) q"
    using assms(1) n(1) by (auto simp: pq_inv_def)
  have con: "contents q = take n ?a @ [?a ! n]" using n by (simp add: contents_def take_Suc_conv_app_nth)
  have least: "\<forall>y\<in>set (contents q). compare ?x y \<le> 0"
  proof
    fix y assume "y \<in> set (contents q)"
    then obtain i where "i < n + 1" "y = ?a ! i" using n by (auto simp: contents_def in_set_conv_nth)
    moreover have "\<forall>x\<in>set (take (n + 1) ?a). valid x" using I(5) n(1) by (simp add: contents_def)
    ultimately show "compare ?x y \<le> 0" using heap_top[OF I(4)] n(2) by simp
  qed
  define q1 where "q1 = q\<lparr>array := ?a[0 := ?a ! n], qsize := n\<rparr>"
  have q1: "array q1 = ?a[0 := ?a ! n]" "qsize q1 = n" "cmp q1 = compare" "stat q1 = stat q" "update q1 = update q"
    "array_size q1 = length (array q1)" using I by (simp_all add: q1_def)
  have l0: "0 < length (array q1)" using q1(1) n(2) by (metis length_list_update not_less_zero neq0_conv)
  have deq: "pqueue_dequeue q = bindE (trickle_down 0 q1) (\<lambda>q'. Inr (?x, q'))"
  proof -
    have "0 < length ?a" using n(2) by linarith
    then show ?thesis using n by (simp add: pqueue_dequeue_def q1_def)
  qed
  show ?thesis
  proof (cases "n = 0")
    case True
    have t0: "trickle_down_loop 0 (array q1 ! 0) q1 = Inr (0, q1)"
      using True q1(2) by (subst trickle_down_loop.simps) (simp add: HAVE_CHILD_def)
    obtain q' where q': "put 0 (array q1 ! 0) q1 = Inr q'" "same_config q1 q'"
      "stat q' = (if update q1 then (stat q1)(array q1 ! 0 := int 0) else stat q1)"
      using put_in[OF l0, of "array q1 ! 0"] by blast
    have "pq_inv compare valid q'"
      using q'(2) q1 True n by (auto simp: pq_inv_def same_config_def contents_def heap_on_def tracked_def)
    moreover have "trickle_down 0 q1 = Inr q'" using t0 q'(1) l0 by (simp add: trickle_down_def)
    moreover have "contents q' = []" "qsize q' = 0" "update q' = update q"
      using q'(2) q1(2,5) True by (auto simp: contents_def same_config_def)
    moreover have "stat q' y = stat q y" if "y \<notin> set (contents q)" for y
    proof -
      have "array q1 ! 0 = ?a ! n" using q1(1) True by simp
      then show ?thesis using q'(3) q1(4) con that by (simp split: if_splits)
    qed
    ultimately show ?thesis using deq least con True n by (auto simp: contents_def)
  next
    case False
    then have n0: "0 < n" by simp
    have t1: "take n (array q1) = (take n ?a)[0 := ?a ! n]" using q1(1) by (simp add: take_update_swap)
    have m1: "add_mset ?x (mset (take n (array q1))) = mset (contents q)"
      unfolding t1 con using n0 n(2) nth_mem[of 0 "take n ?a"] by (simp add: mset_update)
    have old: "array q1 ! j = ?a ! j" if "0 < j" for j using that q1(1) by simp
    have set1: "set (take n (array q1)) \<subseteq> set (contents q)"
      using arg_cong[OF m1, of set_mset] by auto
    have "distinct (?x # take n (array q1))"
      using I(6) mset_eq_imp_distinct_iff[of "?x # take n (array q1)" "contents q"] m1 by simp
    then have d1: "distinct (take n (array q1))" by simp
    have "down_ok compare n (array q1) 0"
      unfolding down_ok_def
    proof (intro conjI allI impI)
      fix j assume "0 < j \<and> j < n \<and> PARENT_OF j \<noteq> 0"
      then show "compare (array q1 ! PARENT_OF j) (array q1 ! j) \<le> 0"
        using I(4) old[of j] old[of "PARENT_OF j"] by (auto simp: heap_on_def)
    qed simp
    moreover have "tracked n (array q1) 0 q1"
      using I(7) q1(4,5) old by (auto simp: tracked_def)
    moreover have "\<forall>y\<in>set (take n (array q1)). valid y" using set1 I(5) by blast
    ultimately obtain q' where q': "trickle_down 0 q1 = Inr q'" "same_config q1 q'"
      "heap_on compare n (array q')" "mset (take n (array q')) = mset (take n (array q1))"
      "tracked n (array q') n q'" "\<And>y. y \<notin> set (take n (array q1)) \<Longrightarrow> stat q' y = stat q1 y"
      using trickle_down_spec[OF q1(3), of 0] q1(1,2) n0 n(2) d1 by auto
    have s: "qsize q' = n" "array_size q' = length (array q')" "cmp q' = compare" "update q' = update q"
      "length (array q') = length ?a"
      using q'(2) q1 by (auto simp: same_config_def)
    have c: "contents q' = take n (array q')" using s(1) by (simp add: contents_def)
    have "\<forall>y\<in>set (contents q'). valid y" "distinct (contents q')"
      unfolding c using set1 I(5) d1 mset_eq_setD[OF q'(4)] mset_eq_imp_distinct_iff[OF q'(4)] by auto
    then have "pq_inv compare valid q'" using s q'(3,5) n(2) by (simp add: pq_inv_def)
    moreover have "mset (contents q) = add_mset ?x (mset (contents q'))" using m1 q'(4) c by simp
    moreover have "stat q' y = stat q y" if "y \<notin> set (contents q)" for y
      using q'(6) set1 that q1(4) by auto
    ultimately show ?thesis using deq q'(1) least s(1,4) n(1) by auto
  qed
qed

end

text \<open>Dequeuing a fixed number of elements.\<close>

fun drain :: "nat \<Rightarrow> 'a pqueue \<Rightarrow> ('a list \<times> 'a pqueue) res" where
  "drain 0 q = Inr ([], q)"
| "drain (Suc n) q =
     bindE (pqueue_dequeue q) (\<lambda>(x, q'). bindE (drain n q') (\<lambda>(xs, q''). Inr (x # xs, q'')))"

context queue_order
begin

lemma drain_spec:
  "pq_inv compare valid q \<Longrightarrow> qsize q = n \<Longrightarrow>
   \<exists>xs q'. drain n q = Inr (xs, q') \<and> mset xs = mset (contents q) \<and> sorted_wrt (\<lambda>x y. compare x y \<le> 0) xs"
proof (induction n arbitrary: q)
  case 0
  then show ?case by (simp add: contents_def)
next
  case (Suc n)
  obtain x q1 where q1: "pqueue_dequeue q = Inr (x, q1)" "pq_inv compare valid q1" "qsize q = qsize q1 + 1"
    "mset (contents q) = add_mset x (mset (contents q1))" "\<forall>y\<in>set (contents q). compare x y \<le> 0"
    using dequeue_spec[OF Suc.prems(1)] Suc.prems(2) by auto
  then obtain xs q' where r: "drain n q1 = Inr (xs, q')" "mset xs = mset (contents q1)"
    "sorted_wrt (\<lambda>x y. compare x y \<le> 0) xs"
    using Suc.IH[OF q1(2)] Suc.prems(2) by auto
  have "set xs \<subseteq> set (contents q)"
    using mset_eq_setD[OF r(2)] arg_cong[OF q1(4), of set_mset] by auto
  with q1 r show ?case by auto
qed

lemma fill_spec:
  "pq_inv compare valid q \<Longrightarrow> distinct xs \<Longrightarrow> \<forall>x\<in>set xs. valid x \<and> x \<notin> set (contents q) \<Longrightarrow>
   \<exists>q'. foldE (\<lambda>q x. pqueue_enqueue nul x q) q xs = Inr q' \<and> pq_inv compare valid q' \<and>
     qsize q' = qsize q + length xs \<and> mset (contents q') = mset (contents q) + mset xs"
proof (induction xs arbitrary: q)
  case (Cons x xs)
  obtain q1 where q1: "pqueue_enqueue nul x q = Inr q1" "pq_inv compare valid q1" "qsize q1 = qsize q + 1"
    "mset (contents q1) = add_mset x (mset (contents q))"
    using enqueue_spec[OF Cons.prems(1), of x nul] Cons.prems(3) by auto
  have "set (contents q1) = insert x (set (contents q))"
    using arg_cong[OF q1(4), of set_mset] by auto
  then have "\<forall>y\<in>set xs. valid y \<and> y \<notin> set (contents q1)" using Cons.prems(2,3) by auto
  then show ?case using Cons.IH[OF q1(2)] Cons.prems(2) q1 by auto
qed simp

end

subsection \<open>Properties of the priority queue\<close>

text \<open>Integers under subtraction, the comparison the comments of the source give as example.\<close>

definition int_cmp :: "int \<Rightarrow> int \<Rightarrow> int" where
  "int_cmp x y = x - y"

lemma int_cmp_order: "queue_order int_cmp (\<lambda>_. True)"
  by unfold_locales (auto simp: int_cmp_def)

text \<open>C8: with a comparison that orders the queued elements, \<^verbatim>\<open>pqueue_enqueue\<close> and
  \<^verbatim>\<open>pqueue_dequeue\<close> stay inside the array and keep the heap invariant and the positions told to the
  client; the first adds one element, the second removes a smallest one.\<close>

lemma pqueue_operations_keep:
  assumes "queue_order compare valid" "pq_inv compare valid q"
  shows "(\<forall>x. valid x \<and> x \<notin> set (contents q) \<longrightarrow>
       (\<exists>q'. pqueue_enqueue nul x q = Inr q' \<and> pq_inv compare valid q' \<and>
          mset (contents q') = add_mset x (mset (contents q)))) \<and>
     (0 < qsize q \<longrightarrow>
       (\<exists>x q'. pqueue_dequeue q = Inr (x, q') \<and> pq_inv compare valid q' \<and>
          mset (contents q) = add_mset x (mset (contents q')) \<and> (\<forall>y\<in>set (contents q). compare x y \<le> 0)))"
  using queue_order.enqueue_spec[OF assms] queue_order.dequeue_spec[OF assms] by blast

lemma pqueue_operations_keep_witness:
  "\<exists>q. pqueue_enqueue 0 7 (pqueue_create 0 (\<lambda>_. 0) int_cmp) = Inr q \<and> pq_inv int_cmp (\<lambda>_. True) q \<and>
     mset (contents q) = {#7#}"
  using pqueue_operations_keep[OF int_cmp_order pq_inv_create[of int_cmp "\<lambda>_. True" 0 "\<lambda>_. 0"], of 0]
  by (auto simp: contents_def pqueue_create_def)

text \<open>C29: filling a new queue with any number of distinct elements and emptying it again returns
  the same elements in ascending order, growing the array as needed.\<close>

lemma pqueue_sorts:
  assumes "queue_order compare valid" "distinct xs" "\<forall>x\<in>set xs. valid x"
  shows "\<exists>q ys q'. foldE (\<lambda>q x. pqueue_enqueue nul x q) (pqueue_create nul positions compare) xs = Inr q \<and>
     drain (length xs) q = Inr (ys, q') \<and> mset ys = mset xs \<and> sorted_wrt (\<lambda>x y. compare x y \<le> 0) ys"
proof -
  have c0: "contents (pqueue_create nul positions compare) = []" "qsize (pqueue_create nul positions compare) = 0"
    by (simp_all add: contents_def pqueue_create_def)
  obtain q where q: "foldE (\<lambda>q x. pqueue_enqueue nul x q) (pqueue_create nul positions compare) xs = Inr q"
    "pq_inv compare valid q" "qsize q = length xs" "mset (contents q) = mset xs"
    using queue_order.fill_spec[OF assms(1) pq_inv_create assms(2), of nul positions nul] assms(3) c0 by auto
  then show ?thesis using queue_order.drain_spec[OF assms(1) q(2,3)] by auto
qed

lemma pqueue_sorts_witness:
  "\<exists>q ys q'. foldE (\<lambda>q x. pqueue_enqueue 0 x q) (pqueue_create 0 (\<lambda>_. 0) int_cmp) [5, 3, 9] = Inr q \<and>
     drain (length [5, 3, 9 :: int]) q = Inr (ys, q') \<and> mset ys = mset [5, 3, 9] \<and> sorted_wrt (\<lambda>x y. int_cmp x y \<le> 0) ys"
  by (rule pqueue_sorts[OF int_cmp_order]) simp_all

end
