(* ===== verification/Ospf_Spf.thy ===== *)
theory Ospf_Spf
  imports Prefix Pqueue
begin

text \<open>
  The shortest-path calculation of \<^verbatim>\<open>ospfd/ospf_spf.c\<close> for one area. The link state database
  of the area is a list of LSAs, and a pointer to an LSA is a position in it. A router-LSA carries
  its links and a network-LSA its attached routers as lists: the byte loops of the code walk the
  records of an LSA in that order (LSAs without TOS metrics, the only ones the fixed stride of
  \<^verbatim>\<open>ospf_lsa_has_link\<close> reads correctly). Every vertex on the candidate list or in the tree belongs
  to one LSA, so a vertex pointer is the pointer of its LSA; the field \<^verbatim>\<open>lsa->stat\<close> is the position
  map of the candidate queue. Debug output is left out. The routes that
  \<^verbatim>\<open>ospf_intra_add_router\<close> and \<^verbatim>\<open>ospf_intra_add_transit\<close> derive from a vertex are represented by
  the sequence of vertices handed to them.
\<close>

subsection \<open>Link state database\<close>

definition OSPF_ROUTER_LSA :: u8 where "OSPF_ROUTER_LSA = 1"
definition OSPF_NETWORK_LSA :: u8 where "OSPF_NETWORK_LSA = 2"
definition LSA_LINK_TYPE_POINTOPOINT :: u8 where "LSA_LINK_TYPE_POINTOPOINT = 1"
definition LSA_LINK_TYPE_TRANSIT :: u8 where "LSA_LINK_TYPE_TRANSIT = 2"
definition LSA_LINK_TYPE_STUB :: u8 where "LSA_LINK_TYPE_STUB = 3"
definition LSA_LINK_TYPE_VIRTUALLINK :: u8 where "LSA_LINK_TYPE_VIRTUALLINK = 4"
definition OSPF_VERTEX_ROUTER :: u8 where "OSPF_VERTEX_ROUTER = 1"
definition OSPF_VERTEX_NETWORK :: u8 where "OSPF_VERTEX_NETWORK = 2"
definition ROUTER_LSA_VIRTUAL :: u8 where "ROUTER_LSA_VIRTUAL = 0x04"
definition OSPF_OUTPUT_COST_INFINITE :: u16 where "OSPF_OUTPUT_COST_INFINITE = 0xFFFF"
definition OSPF_LSA_MAXAGE :: nat where "OSPF_LSA_MAXAGE = 3600"
definition LSA_SPF_NOT_EXPLORED :: int where "LSA_SPF_NOT_EXPLORED = - 1"
definition LSA_SPF_IN_SPFTREE :: int where "LSA_SPF_IN_SPFTREE = - 2"
definition OSPF_IFTYPE_POINTOPOINT :: u8 where "OSPF_IFTYPE_POINTOPOINT = 1"
definition OSPF_IFTYPE_POINTOMULTIPOINT :: u8 where "OSPF_IFTYPE_POINTOMULTIPOINT = 4"
definition OSPF_IFTYPE_VIRTUALLINK :: u8 where "OSPF_IFTYPE_VIRTUALLINK = 5"
definition OSPF_VL_FLAG_APPROVED :: u8 where "OSPF_VL_FLAG_APPROVED = 0x01"

record router_lsa_link =
  link_id :: u32
  link_data :: u32
  link_type :: u8
  metric :: u16

record lsa =
  ls_type :: u8
  ls_id :: u32
  adv_router :: u32
  rl_flags :: u8
  age :: nat
  links :: "router_lsa_link list"
  routers :: "u32 list"

definition LS_AGE :: "lsa \<Rightarrow> nat" where
  "LS_AGE l = (if OSPF_LSA_MAXAGE < age l then OSPF_LSA_MAXAGE else age l)"

definition IS_LSA_MAXAGE :: "lsa \<Rightarrow> bool" where
  "IS_LSA_MAXAGE l \<longleftrightarrow> LS_AGE l = OSPF_LSA_MAXAGE"

definition lsdb_find :: "(lsa \<Rightarrow> bool) \<Rightarrow> lsa list \<Rightarrow> nat option" where
  "lsdb_find P db = (case filter (\<lambda>i. P (db ! i)) [0..<length db] of [] \<Rightarrow> None | i # _ \<Rightarrow> Some i)"

text \<open>The lookups of the SPF calculation: a router-LSA by its id, which is also its advertising
  router, and the first network-LSA with an id.\<close>

definition lookup_router_lsa :: "lsa list \<Rightarrow> u32 \<Rightarrow> nat option" where
  "lookup_router_lsa db rid = lsdb_find (\<lambda>l. ls_type l = OSPF_ROUTER_LSA \<and> ls_id l = rid \<and> adv_router l = rid) db"

definition lookup_network_lsa :: "lsa list \<Rightarrow> u32 \<Rightarrow> nat option" where
  "lookup_network_lsa db nid = lsdb_find (\<lambda>l. ls_type l = OSPF_NETWORK_LSA \<and> ls_id l = nid) db"

fun index_from :: "nat \<Rightarrow> ('a \<Rightarrow> bool) \<Rightarrow> 'a list \<Rightarrow> nat option" where
  "index_from i P [] = None"
| "index_from i P (x # xs) = (if P x then Some i else index_from (Suc i) P xs)"

definition ospf_lsa_has_link :: "lsa \<Rightarrow> lsa \<Rightarrow> int" where
  "ospf_lsa_has_link w v =
     (let found = (if ls_type w = OSPF_NETWORK_LSA
                   then if ls_type v = OSPF_NETWORK_LSA then None
                        else index_from 0 (\<lambda>r. r = ls_id v) (routers w)
                   else if ls_type w = OSPF_ROUTER_LSA
                   then index_from 0 (\<lambda>l.
                          if link_type l = LSA_LINK_TYPE_POINTOPOINT \<or> link_type l = LSA_LINK_TYPE_VIRTUALLINK
                          then ls_type v = OSPF_ROUTER_LSA \<and> link_id l = ls_id v
                          else if link_type l = LSA_LINK_TYPE_TRANSIT
                          then ls_type v = OSPF_NETWORK_LSA \<and> link_id l = ls_id v
                          else False) (links w)
                   else None)
      in case found of None \<Rightarrow> - 1 | Some i \<Rightarrow> int i)"

text \<open>\<^verbatim>\<open>ospf_get_next_link (v, w, prev)\<close>: the next link from \<open>v\<close> to \<open>w\<close> after position \<open>prev\<close>.\<close>

definition ospf_get_next_link :: "lsa \<Rightarrow> lsa \<Rightarrow> nat option \<Rightarrow> nat option" where
  "ospf_get_next_link v w prev_link =
     (let lsa_type = (if ls_type w = OSPF_VERTEX_ROUTER then LSA_LINK_TYPE_POINTOPOINT else LSA_LINK_TYPE_TRANSIT);
          start = (case prev_link of None \<Rightarrow> 0 | Some i \<Rightarrow> Suc i)
      in index_from start (\<lambda>l. link_type l = lsa_type \<and> link_id l = ls_id w) (drop start (links v)))"

subsection \<open>Interfaces and virtual links\<close>

record ospf_interface =
  oi_type :: u8
  oi_address :: prefix
  oi_connected :: prefix

record vertex_nexthop =
  nh_oi :: nat
  nh_router :: u32

record ospf_vl_data =
  vl_peer :: u32
  vl_flags :: u8
  vl_nexthop :: vertex_nexthop

definition ipv4_prefix :: "u32 \<Rightarrow> nat \<Rightarrow> prefix" where
  "ipv4_prefix addr len = \<lparr>family = AF_INET, prefixlen = len, u_prefix = bytes32 addr @ replicate 12 0\<rparr>"

fun if_is_configured_from :: "nat \<Rightarrow> ospf_interface list \<Rightarrow> u32 \<Rightarrow> nat option res" where
  "if_is_configured_from i [] addr = Inr None"
| "if_is_configured_from i (oi # ois) addr =
     (if oi_type oi \<noteq> OSPF_IFTYPE_VIRTUALLINK
      then bindE (if oi_type oi = OSPF_IFTYPE_POINTOPOINT
                  then prefix_match (oi_connected oi) (ipv4_prefix addr IPV4_MAX_BITLEN)
                  else Inr (bytes32 addr = take 4 (u_prefix (oi_address oi)))) (\<lambda>m.
             if m then Inr (Some i) else if_is_configured_from (Suc i) ois addr)
      else if_is_configured_from (Suc i) ois addr)"

definition ospf_if_is_configured :: "ospf_interface list \<Rightarrow> u32 \<Rightarrow> nat option res" where
  "ospf_if_is_configured ois addr = if_is_configured_from 0 ois addr"

text \<open>\<^verbatim>\<open>ospf_vl_lookup\<close> with a null area.\<close>

definition ospf_vl_lookup :: "ospf_vl_data list \<Rightarrow> u32 \<Rightarrow> ospf_vl_data option" where
  "ospf_vl_lookup vls peer = find (\<lambda>vl. vl_peer vl = peer) vls"

subsection \<open>Vertices\<close>

record vertex_parent =
  vp_parent :: nat
  vp_backlink :: int
  vp_nexthop :: vertex_nexthop

record vertex =
  v_type :: u8
  distance :: u32
  parents :: "vertex_parent list"
  children :: "nat list"

record ospf_area =
  lsdb :: "lsa list"
  router_lsa_self :: "nat option"
  oiflist :: "ospf_interface list"
  vlinks :: "ospf_vl_data list"

text \<open>The state of a calculation: vertices by LSA, the candidate queue with its position map, the
  root, the area's \<^verbatim>\<open>transit\<close> flag, and the vertices added to the tree, in order.\<close>

record spf =
  vertices :: "nat \<Rightarrow> vertex option"
  candidate :: "nat pqueue"
  root :: nat
  transit :: bool
  spf_tree :: "nat list"

definition vertex_cmp :: "(nat \<Rightarrow> vertex option) \<Rightarrow> nat \<Rightarrow> nat \<Rightarrow> int" where
  "vertex_cmp vs n1 n2 =
     (case (vs n1, vs n2) of
        (Some v1, Some v2) \<Rightarrow>
          if distance v1 - distance v2 = 0 \<and> v_type v1 \<noteq> v_type v2
          then (if v_type v1 = OSPF_VERTEX_NETWORK then - 1
                else if v_type v1 = OSPF_VERTEX_ROUTER then 1 else 0)
          else sint (distance v1 - distance v2)
      | _ \<Rightarrow> 0)"

text \<open>The queue compares through the vertices as they are at the time of the call.\<close>

definition queue_now :: "spf \<Rightarrow> nat pqueue" where
  "queue_now s = (candidate s)\<lparr>cmp := vertex_cmp (vertices s)\<rparr>"

definition lsa_stat :: "spf \<Rightarrow> nat \<Rightarrow> int" where
  "lsa_stat s w = stat (candidate s) w"

definition set_stat :: "nat \<Rightarrow> int \<Rightarrow> spf \<Rightarrow> spf" where
  "set_stat w x s = s\<lparr>candidate := (candidate s)\<lparr>stat := (stat (candidate s))(w := x)\<rparr>\<rparr>"

definition get_vertex :: "spf \<Rightarrow> nat \<Rightarrow> vertex res" where
  "get_vertex s w = (case vertices s w of None \<Rightarrow> Inl NullDeref | Some v \<Rightarrow> Inr v)"

definition set_vertex :: "nat \<Rightarrow> vertex \<Rightarrow> spf \<Rightarrow> spf" where
  "set_vertex w v s = s\<lparr>vertices := (vertices s)(w \<mapsto> v)\<rparr>"

definition ospf_vertex_new :: "ospf_area \<Rightarrow> nat \<Rightarrow> spf \<Rightarrow> spf" where
  "ospf_vertex_new area w s =
     set_vertex w \<lparr>v_type = ls_type (lsdb area ! w), distance = 0, parents = [], children = []\<rparr> s"

fun add_to_children :: "nat \<Rightarrow> vertex_parent list \<Rightarrow> spf \<Rightarrow> spf res" where
  "add_to_children v [] s = Inr s"
| "add_to_children v (vp # vps) s =
     bindE (get_vertex s (vp_parent vp)) (\<lambda>p.
       add_to_children v vps
         (if v \<in> set (children p) then s
          else set_vertex (vp_parent vp) (p\<lparr>children := children p @ [v]\<rparr>) s))"

definition ospf_vertex_add_parent :: "nat \<Rightarrow> spf \<Rightarrow> spf res" where
  "ospf_vertex_add_parent v s = bindE (get_vertex s v) (\<lambda>vx. add_to_children v (parents vx) s)"

subsection \<open>Next hops\<close>

definition ospf_spf_add_parent ::
  "ospf_area \<Rightarrow> nat \<Rightarrow> nat \<Rightarrow> vertex_nexthop \<Rightarrow> u32 \<Rightarrow> spf \<Rightarrow> spf res" where
  "ospf_spf_add_parent area v w newhop dist s =
     bindE (assertE (dist \<noteq> 0)) (\<lambda>_.
     bindE (get_vertex s w) (\<lambda>wx.
     bindE (if distance wx \<noteq> 0 then assertE (dist \<le> distance wx) else Inr ()) (\<lambda>_.
       let w1 = (if distance wx \<noteq> 0 then wx else wx\<lparr>distance := dist\<rparr>);
           w2 = (if dist < distance w1 then w1\<lparr>parents := [], distance := dist\<rparr> else w1);
           vp = \<lparr>vp_parent = v, vp_backlink = ospf_lsa_has_link (lsdb area ! w) (lsdb area ! v), vp_nexthop = newhop\<rparr>
       in Inr (set_vertex w (w2\<lparr>parents := parents w2 @ [vp]\<rparr>) s))))"

lemma index_from_ge: "index_from i P xs = Some j \<Longrightarrow> i \<le> j \<and> j < i + length xs"
proof (induction xs arbitrary: i)
  case (Cons x xs)
  show ?case
  proof (cases "P x")
    case False
    then have "index_from (Suc i) P xs = Some j" using Cons.prems by simp
    then have "Suc i \<le> j \<and> j < Suc i + length xs" by (rule Cons.IH)
    then show ?thesis by simp
  qed (use Cons.prems in simp)
qed simp

lemma next_link_bounds:
  "ospf_get_next_link v w prev = Some j \<Longrightarrow> (case prev of None \<Rightarrow> 0 | Some i \<Rightarrow> Suc i) \<le> j \<and> j < length (links v)"
  by (auto simp: ospf_get_next_link_def Let_def dest!: index_from_ge split: option.splits)

text \<open>The two loops \<^verbatim>\<open>while ((l2 = ospf_get_next_link (w, v, l2)))\<close> over the links from \<open>w\<close> back to
  \<open>v\<close>; the result is the position of the link that ended the loop.\<close>

function ptmp_link :: "lsa \<Rightarrow> lsa \<Rightarrow> prefix \<Rightarrow> nat option \<Rightarrow> nat option res" where
  "ptmp_link w v address l2 =
     (case ospf_get_next_link w v l2 of
        None \<Rightarrow> Inr None
      | Some j \<Rightarrow>
          bindE (prefix_cmp (ipv4_prefix (link_data (links w ! j)) (prefixlen address)) address) (\<lambda>c.
            if c = 0 then Inr (Some j) else ptmp_link w v address (Some j)))"
  by pat_completeness auto
termination
  by (relation "measure (\<lambda>(w, v, a, l2). length (links w) - (case l2 of None \<Rightarrow> 0 | Some i \<Rightarrow> Suc i))")
    (auto dest!: next_link_bounds split: option.splits)

function ptop_link :: "ospf_interface list \<Rightarrow> lsa \<Rightarrow> lsa \<Rightarrow> u32 \<Rightarrow> nat option \<Rightarrow> (nat \<times> nat) option res" where
  "ptop_link ois w v data l2 =
     (case ospf_get_next_link w v l2 of
        None \<Rightarrow> Inr None
      | Some j \<Rightarrow>
          bindE (ospf_if_is_configured ois (link_data (links w ! j))) (\<lambda>oi.
            case oi of
              None \<Rightarrow> ptop_link ois w v data (Some j)
            | Some i \<Rightarrow>
                if take 4 (u_prefix (oi_address (ois ! i))) \<noteq> bytes32 data
                then ptop_link ois w v data (Some j)
                else Inr (Some (i, j))))"
  by pat_completeness auto
termination
  by (relation "measure (\<lambda>(ois, w, v, d, l2). length (links w) - (case l2 of None \<Rightarrow> 0 | Some i \<Rightarrow> Suc i))")
    (auto dest!: next_link_bounds split: option.splits)

text \<open>The first case of \<^verbatim>\<open>ospf_nexthop_calculation\<close>: the next hop to \<open>w\<close> over a link of the root.\<close>

definition root_nexthop :: "ospf_area \<Rightarrow> nat \<Rightarrow> nat \<Rightarrow> router_lsa_link \<Rightarrow> vertex_nexthop option res" where
  "root_nexthop area v w l =
     (let vl = lsdb area ! v; wl = lsdb area ! w; ois = oiflist area in
      if ls_type wl = OSPF_VERTEX_ROUTER
      then if link_type l = LSA_LINK_TYPE_POINTOPOINT
           then bindE (ospf_if_is_configured ois (link_data l)) (\<lambda>oi.
                case oi of
                  Some i \<Rightarrow>
                    if oi_type (ois ! i) = OSPF_IFTYPE_POINTOMULTIPOINT
                    then bindE (ptmp_link wl vl (oi_address (ois ! i)) None) (\<lambda>l2.
                           Inr (map_option (\<lambda>j. \<lparr>nh_oi = i, nh_router = link_data (links wl ! j)\<rparr>) l2))
                    else bindE (ptop_link ois wl vl (link_data l) None) (\<lambda>r.
                           Inr (map_option (\<lambda>(i, j). \<lparr>nh_oi = i, nh_router = link_data (links wl ! j)\<rparr>) r))
                | None \<Rightarrow>
                    bindE (ptop_link ois wl vl (link_data l) None) (\<lambda>r.
                      Inr (map_option (\<lambda>(i, j). \<lparr>nh_oi = i, nh_router = link_data (links wl ! j)\<rparr>) r)))
           else if link_type l = LSA_LINK_TYPE_VIRTUALLINK
           then Inr (case ospf_vl_lookup (vlinks area) (link_id l) of
                       Some vl_data \<Rightarrow>
                         if vl_flags vl_data AND OSPF_VL_FLAG_APPROVED \<noteq> 0 then Some (vl_nexthop vl_data) else None
                     | None \<Rightarrow> None)
           else Inr None
      else bindE (assertE (ls_type wl = OSPF_VERTEX_NETWORK)) (\<lambda>_.
           bindE (ospf_if_is_configured ois (link_data l)) (\<lambda>oi.
             Inr (map_option (\<lambda>i. \<lparr>nh_oi = i, nh_router = 0\<rparr>) oi))))"

text \<open>The second case: for a network directly connected to the root, one next hop per link from
  \<open>w\<close> back to the network, on the interface of each parent that is the root.\<close>

function network_links ::
  "ospf_area \<Rightarrow> nat \<Rightarrow> nat \<Rightarrow> nat \<Rightarrow> u32 \<Rightarrow> nat option \<Rightarrow> bool \<times> spf \<Rightarrow> (bool \<times> spf) res" where
  "network_links area v w oi dist l (added, s) =
     (case ospf_get_next_link (lsdb area ! w) (lsdb area ! v) l of
        None \<Rightarrow> Inr (added, s)
      | Some j \<Rightarrow>
          bindE (ospf_spf_add_parent area v w \<lparr>nh_oi = oi, nh_router = link_data (links (lsdb area ! w) ! j)\<rparr> dist s)
            (\<lambda>s'. network_links area v w oi dist (Some j) (True, s')))"
  by pat_completeness auto
termination
  by (relation "measure (\<lambda>(area, v, w, oi, d, l, st). length (links (lsdb area ! w)) - (case l of None \<Rightarrow> 0 | Some i \<Rightarrow> Suc i))")
    (auto dest!: next_link_bounds split: option.splits)

fun network_nexthops ::
  "ospf_area \<Rightarrow> nat \<Rightarrow> nat \<Rightarrow> u32 \<Rightarrow> vertex_parent list \<Rightarrow> bool \<times> spf \<Rightarrow> (bool \<times> spf) res" where
  "network_nexthops area v w dist [] st = Inr st"
| "network_nexthops area v w dist (vp # vps) (added, s) =
     (if vp_parent vp = root s
      then bindE (assertE (ls_type (lsdb area ! w) = OSPF_VERTEX_ROUTER)) (\<lambda>_.
           bindE (network_links area v w (nh_oi (vp_nexthop vp)) dist None (added, s)) (\<lambda>st.
             network_nexthops area v w dist vps st))
      else network_nexthops area v w dist vps (added, s))"

fun inherit_nexthops ::
  "ospf_area \<Rightarrow> nat \<Rightarrow> nat \<Rightarrow> u32 \<Rightarrow> vertex_parent list \<Rightarrow> bool \<times> spf \<Rightarrow> (bool \<times> spf) res" where
  "inherit_nexthops area v w dist [] st = Inr st"
| "inherit_nexthops area v w dist (vp # vps) (added, s) =
     bindE (ospf_spf_add_parent area v w (vp_nexthop vp) dist s) (\<lambda>s'.
       inherit_nexthops area v w dist vps (True, s'))"

text \<open>\<open>l\<close> is the link of a router vertex \<open>v\<close>; for a network vertex it is null.\<close>

definition ospf_nexthop_calculation ::
  "ospf_area \<Rightarrow> nat \<Rightarrow> nat \<Rightarrow> router_lsa_link option \<Rightarrow> u32 \<Rightarrow> spf \<Rightarrow> (bool \<times> spf) res" where
  "ospf_nexthop_calculation area v w l dist s =
     (if v = root s
      then case l of
             None \<Rightarrow> Inl (if ls_type (lsdb area ! w) = OSPF_VERTEX_ROUTER then Abort else NullDeref)
           | Some link \<Rightarrow>
               bindE (root_nexthop area v w link) (\<lambda>nh.
                 case nh of
                   None \<Rightarrow> Inr (False, s)
                 | Some hop \<Rightarrow> bindE (ospf_spf_add_parent area v w hop dist s) (\<lambda>s'. Inr (True, s')))
      else bindE (get_vertex s v) (\<lambda>vx.
           bindE (if v_type vx = OSPF_VERTEX_NETWORK
                  then network_nexthops area v w dist (parents vx) (False, s) else Inr (False, s)) (\<lambda>(added, s1).
             if added then Inr (True, s1)
             else inherit_nexthops area v w dist (parents vx) (False, s1))))"

subsection \<open>Examining the links of a vertex\<close>

text \<open>One entry of an LSA: a link of a router-LSA or an attached router of a network-LSA.\<close>

datatype lsa_entry = Link router_lsa_link | Attached u32

definition lsa_entries :: "lsa \<Rightarrow> lsa_entry list" where
  "lsa_entries v = (if ls_type v = OSPF_ROUTER_LSA then map Link (links v) else map Attached (routers v))"

text \<open>Step (b) of RFC 2328 16.1: the LSA at the other end of an entry, if it is to be followed. The
  code compares the metric with infinity in network byte order; infinity is the same in both orders.\<close>

definition entry_lsa :: "ospf_area \<Rightarrow> nat \<Rightarrow> bool \<Rightarrow> lsa_entry \<Rightarrow> nat option" where
  "entry_lsa area v is_root e =
     (let found =
        (case e of
           Link l \<Rightarrow>
             if link_type l = LSA_LINK_TYPE_STUB then None
             else if \<not> is_root \<and> metric l \<ge> OSPF_OUTPUT_COST_INFINITE then None
             else if link_type l = LSA_LINK_TYPE_POINTOPOINT \<or> link_type l = LSA_LINK_TYPE_VIRTUALLINK
             then lookup_router_lsa (lsdb area) (link_id l)
             else if link_type l = LSA_LINK_TYPE_TRANSIT
             then lookup_network_lsa (lsdb area) (link_id l)
             else None
         | Attached r \<Rightarrow> lookup_router_lsa (lsdb area) r)
      in case found of
           None \<Rightarrow> None
         | Some w \<Rightarrow>
             if IS_LSA_MAXAGE (lsdb area ! w) then None
             else if ospf_lsa_has_link (lsdb area ! w) (lsdb area ! v) < 0 then None
             else Some w)"

definition entry_cost :: "lsa_entry \<Rightarrow> u32" where
  "entry_cost e = (case e of Link l \<Rightarrow> ucast (metric l) | Attached r \<Rightarrow> 0)"

definition entry_link :: "lsa_entry \<Rightarrow> router_lsa_link option" where
  "entry_link e = (case e of Link l \<Rightarrow> Some l | Attached r \<Rightarrow> None)"

definition spf_entry :: "ospf_area \<Rightarrow> nat \<Rightarrow> spf \<Rightarrow> lsa_entry \<Rightarrow> spf res" where
  "spf_entry area v s e =
     (case entry_lsa area v (v = root s) e of
        None \<Rightarrow> Inr s
      | Some w \<Rightarrow>
          if lsa_stat s w = LSA_SPF_IN_SPFTREE then Inr s
          else bindE (get_vertex s v) (\<lambda>vx.
            let dist = distance vx + entry_cost e in
            if lsa_stat s w = LSA_SPF_NOT_EXPLORED
            then bindE (ospf_nexthop_calculation area v w (entry_link e) dist (ospf_vertex_new area w s)) (\<lambda>(added, s1).
                   if added then bindE (pqueue_enqueue 0 w (queue_now s1)) (\<lambda>q. Inr (s1\<lparr>candidate := q\<rparr>))
                   else Inr s1)
            else if lsa_stat s w \<ge> 0
            then bindE (aget (array (candidate s)) (nat (lsa_stat s w))) (\<lambda>w'.
                 bindE (get_vertex s w') (\<lambda>wx.
                   if distance wx < dist then Inr s
                   else if distance wx = dist
                   then bindE (ospf_nexthop_calculation area v w' (entry_link e) dist s) (\<lambda>(added, s1). Inr s1)
                   else bindE (ospf_nexthop_calculation area v w' (entry_link e) dist s) (\<lambda>(added, s1).
                          if added
                          then bindE (trickle_up (nat (lsa_stat s1 w)) (queue_now s1)) (\<lambda>q. Inr (s1\<lparr>candidate := q\<rparr>))
                          else Inr s1)))
            else Inr s))"

definition ospf_spf_next :: "ospf_area \<Rightarrow> nat \<Rightarrow> spf \<Rightarrow> spf res" where
  "ospf_spf_next area v s =
     (let vl = lsdb area ! v;
          s1 = (if ls_type vl = OSPF_VERTEX_ROUTER \<and> rl_flags vl AND ROUTER_LSA_VIRTUAL \<noteq> 0
                then s\<lparr>transit := True\<rparr> else s)
      in foldE (spf_entry area v) s1 (lsa_entries vl))"

subsection \<open>The calculation\<close>

definition ospf_spf_init :: "ospf_area \<Rightarrow> nat \<Rightarrow> spf" where
  "ospf_spf_init area self =
     (let q = (pqueue_create 0 (\<lambda>_. LSA_SPF_NOT_EXPLORED) (vertex_cmp Map.empty))\<lparr>update := True\<rparr>;
          s0 = ospf_vertex_new area self
                 \<lparr>vertices = Map.empty, candidate = q, root = self, transit = False, spf_tree = [self]\<rparr>
      in set_stat self LSA_SPF_IN_SPFTREE s0)"

text \<open>The main loop, with fuel; \<open>None\<close> is the loop still running.\<close>

fun spf_loop :: "nat \<Rightarrow> ospf_area \<Rightarrow> nat \<Rightarrow> spf \<Rightarrow> spf res option" where
  "spf_loop 0 area v s = None"
| "spf_loop (Suc fuel) area v s =
     (case ospf_spf_next area v s of
        Inl e \<Rightarrow> Some (Inl e)
      | Inr s1 \<Rightarrow>
          if qsize (candidate s1) = 0 then Some (Inr s1)
          else case pqueue_dequeue (queue_now s1) of
                 Inl e \<Rightarrow> Some (Inl e)
               | Inr (u, q) \<Rightarrow>
                   (let s2 = set_stat u LSA_SPF_IN_SPFTREE (s1\<lparr>candidate := q, spf_tree := spf_tree s1 @ [u]\<rparr>) in
                    case ospf_vertex_add_parent u s2 of
                      Inl e \<Rightarrow> Some (Inl e)
                    | Inr s3 \<Rightarrow> spf_loop fuel area u s3))"

text \<open>\<^verbatim>\<open>ospf_spf_calculate\<close> up to the second stage; an area without its own router-LSA is skipped.\<close>

definition ospf_spf_calculate :: "nat \<Rightarrow> ospf_area \<Rightarrow> spf option res option" where
  "ospf_spf_calculate fuel area =
     (case router_lsa_self area of
        None \<Rightarrow> Some (Inr None)
      | Some self \<Rightarrow>
          map_option (\<lambda>r. bindE r (\<lambda>s. Inr (Some s))) (spf_loop fuel area self (ospf_spf_init area self)))"

declare ptmp_link.simps [simp del] ptop_link.simps [simp del] network_links.simps [simp del]

subsection \<open>The order of the candidates\<close>

definition vertex_ok :: "(nat \<Rightarrow> vertex option) \<Rightarrow> nat \<Rightarrow> bool" where
  "vertex_ok vs w \<longleftrightarrow> (\<exists>v. vs w = Some v \<and> unat (distance v) < 2 ^ 31 \<and>
     (v_type v = OSPF_VERTEX_ROUTER \<or> v_type v = OSPF_VERTEX_NETWORK))"

lemma sint_diff:
  fixes a b :: u32
  assumes "unat a < 2 ^ 31" "unat b < 2 ^ 31"
  shows "sint (a - b) = int (unat a) - int (unat b)"
proof -
  have "sint (a - b) = signed_take_bit 31 (take_bit 32 (uint a - uint b))"
    by (simp add: sint_uint uint_word_ariths take_bit_eq_mod)
  also have "\<dots> = signed_take_bit 31 (uint a - uint b)"
    by (subst signed_take_bit_take_bit) simp
  also have "\<dots> = uint a - uint b"
  proof (rule signed_take_bit_int_eq_self)
    have "uint a < 2 ^ 31" "uint b < 2 ^ 31"
      using assms unfolding unat_eq_nat_uint by (simp_all only: nat_less_iff uint_ge_0 of_nat_power of_nat_numeral)
    moreover have "0 \<le> uint a" "0 \<le> uint b" by simp_all
    ultimately show "- (2 ^ 31) \<le> uint a - uint b" "uint a - uint b < 2 ^ 31" by linarith+
  qed
  finally show ?thesis by simp
qed

lemma vertex_cmp_le:
  assumes "vs a = Some x" "vs b = Some y" "vertex_ok vs a" "vertex_ok vs b"
  shows "vertex_cmp vs a b \<le> 0 \<longleftrightarrow> unat (distance x) < unat (distance y) \<or>
      (distance x = distance y \<and> (v_type x = v_type y \<or> v_type x = OSPF_VERTEX_NETWORK))"
    "vertex_cmp vs a b < 0 \<longleftrightarrow> unat (distance x) < unat (distance y) \<or>
      (distance x = distance y \<and> v_type x \<noteq> v_type y \<and> v_type x = OSPF_VERTEX_NETWORK)"
proof -
  define m where "m = unat (distance x)"
  define n where "n = unat (distance y)"
  have eq: "distance x = distance y \<longleftrightarrow> m = n"
    by (simp add: m_def n_def word_unat_eq_iff)
  have d: "sint (distance x - distance y) = int m - int n"
    using assms unfolding m_def n_def by (intro sint_diff) (auto simp: vertex_ok_def)
  have ty: "v_type x = OSPF_VERTEX_ROUTER \<or> v_type x = OSPF_VERTEX_NETWORK"
    using assms by (auto simp: vertex_ok_def)
  have ne: "OSPF_VERTEX_ROUTER \<noteq> OSPF_VERTEX_NETWORK"
    by (simp add: OSPF_VERTEX_ROUTER_def OSPF_VERTEX_NETWORK_def)
  have c: "vertex_cmp vs a b = (if m = n \<and> v_type x \<noteq> v_type y
      then if v_type x = OSPF_VERTEX_NETWORK then - 1 else 1 else int m - int n)"
    using assms(1,2) d ty ne eq by (auto simp: vertex_cmp_def)
  show "vertex_cmp vs a b \<le> 0 \<longleftrightarrow> unat (distance x) < unat (distance y) \<or>
      (distance x = distance y \<and> (v_type x = v_type y \<or> v_type x = OSPF_VERTEX_NETWORK))"
    "vertex_cmp vs a b < 0 \<longleftrightarrow> unat (distance x) < unat (distance y) \<or>
      (distance x = distance y \<and> v_type x \<noteq> v_type y \<and> v_type x = OSPF_VERTEX_NETWORK)"
    unfolding c eq m_def[symmetric] n_def[symmetric] by auto
qed

lemma vertex_cmp_flip:
  assumes ok: "vertex_ok vs a" "vertex_ok vs b"
  shows "vertex_cmp vs a b < 0 \<longleftrightarrow> vertex_cmp vs b a > 0"
proof -
  obtain x y where xy: "vs a = Some x" "vs b = Some y" using ok by (auto simp: vertex_ok_def)
  have ty: "v_type x = OSPF_VERTEX_ROUTER \<or> v_type x = OSPF_VERTEX_NETWORK"
    "v_type y = OSPF_VERTEX_ROUTER \<or> v_type y = OSPF_VERTEX_NETWORK"
    using ok xy by (auto simp: vertex_ok_def)
  have eq: "distance x = distance y \<longleftrightarrow> unat (distance x) = unat (distance y)"
    by (simp add: word_unat_eq_iff)
  have "vertex_cmp vs b a > 0 \<longleftrightarrow> \<not> vertex_cmp vs b a \<le> 0" by linarith
  also have "\<dots> \<longleftrightarrow> \<not> (unat (distance y) < unat (distance x) \<or>
      (unat (distance x) = unat (distance y) \<and> (v_type x = v_type y \<or> v_type y = OSPF_VERTEX_NETWORK)))"
    unfolding vertex_cmp_le(1)[OF xy(2,1) ok(2,1)] by (metis eq)
  also have "\<dots> \<longleftrightarrow> vertex_cmp vs a b < 0"
    unfolding vertex_cmp_le(2)[OF xy ok] eq using ty by (cases "unat (distance x)" "unat (distance y)" rule: linorder_cases) auto
  finally show ?thesis ..
qed

lemma vertex_cmp_trans:
  assumes ok: "vertex_ok vs a" "vertex_ok vs b" "vertex_ok vs c"
    and le: "vertex_cmp vs a b \<le> 0" "vertex_cmp vs b c \<le> 0"
  shows "vertex_cmp vs a c \<le> 0"
proof -
  obtain x y z where xyz: "vs a = Some x" "vs b = Some y" "vs c = Some z"
    using ok by (auto simp: vertex_ok_def)
  show ?thesis
    using le unfolding vertex_cmp_le(1)[OF xyz(1,2) ok(1,2)] vertex_cmp_le(1)[OF xyz(2,3) ok(2,3)]
      vertex_cmp_le(1)[OF xyz(1,3) ok(1,3)] by auto
qed

interpretation cand: queue_order "vertex_cmp vs" "vertex_ok vs"
  by unfold_locales (rule vertex_cmp_flip, assumption+, rule vertex_cmp_trans)

subsection \<open>Next hops only change the vertex they are for\<close>

text \<open>\<open>reached v w d s s'\<close>: vertex \<open>w\<close> got distance \<open>d\<close> and at least one parent, all of them \<open>v\<close> or
  old parents at the same distance.\<close>

definition reached :: "nat \<Rightarrow> nat \<Rightarrow> u32 \<Rightarrow> spf \<Rightarrow> spf \<Rightarrow> bool" where
  "reached v w d s s' \<longleftrightarrow> (\<exists>wx wx'. vertices s w = Some wx \<and> s' = set_vertex w wx' s \<and>
     v_type wx' = v_type wx \<and> children wx' = children wx \<and> distance wx' = d \<and> parents wx' \<noteq> [] \<and>
     (\<forall>vp\<in>set (parents wx'). vp_parent vp = v \<or> (vp \<in> set (parents wx) \<and> distance wx = d)))"

definition may_reach :: "nat \<Rightarrow> u32 \<Rightarrow> spf \<Rightarrow> bool" where
  "may_reach w d s \<longleftrightarrow> d \<noteq> 0 \<and> (\<exists>wx. vertices s w = Some wx \<and> (distance wx = 0 \<and> parents wx = [] \<or> d \<le> distance wx))"

lemma add_parent_reached:
  assumes "may_reach w d s"
  shows "\<exists>s'. ospf_spf_add_parent area v w hop d s = Inr s' \<and> reached v w d s s'"
proof -
  obtain wx where wx: "vertices s w = Some wx" "distance wx = 0 \<and> parents wx = [] \<or> d \<le> distance wx" "d \<noteq> 0"
    using assms by (auto simp: may_reach_def)
  define w1 where "w1 = (if distance wx \<noteq> 0 then wx else wx\<lparr>distance := d\<rparr>)"
  define w2 where "w2 = (if d < distance w1 then w1\<lparr>parents := [], distance := d\<rparr> else w1)"
  let ?vp = "\<lparr>vp_parent = v, vp_backlink = ospf_lsa_has_link (lsdb area ! w) (lsdb area ! v), vp_nexthop = hop\<rparr>"
  have "ospf_spf_add_parent area v w hop d s = Inr (set_vertex w (w2\<lparr>parents := parents w2 @ [?vp]\<rparr>) s)"
    using wx by (auto simp: ospf_spf_add_parent_def get_vertex_def Let_def w1_def w2_def bindE_assertE)
  moreover have "reached v w d s (set_vertex w (w2\<lparr>parents := parents w2 @ [?vp]\<rparr>) s)"
    unfolding reached_def using wx
    by (intro exI[of _ wx] exI[of _ "w2\<lparr>parents := parents w2 @ [?vp]\<rparr>"]) (auto simp: w1_def w2_def)
  ultimately show ?thesis by blast
qed

lemma reached_again:
  assumes "reached v w d s s'" "d \<noteq> 0"
  shows "may_reach w d s'"
  using assms by (auto simp: reached_def may_reach_def set_vertex_def)

lemma reached_trans:
  assumes "reached v w d s s'" "reached v w d s' s''"
  shows "reached v w d s s''"
proof -
  from assms(1) obtain wx wx' where a: "vertices s w = Some wx" "s' = set_vertex w wx' s"
    "v_type wx' = v_type wx" "children wx' = children wx"
    "\<forall>vp\<in>set (parents wx'). vp_parent vp = v \<or> (vp \<in> set (parents wx) \<and> distance wx = d)"
    unfolding reached_def by blast
  have w': "vertices s' w = Some wx'" using a(2) by (simp add: set_vertex_def)
  from assms(2) w' obtain wx'' where b: "s'' = set_vertex w wx'' s'"
    "v_type wx'' = v_type wx'" "children wx'' = children wx'" "distance wx'' = d" "parents wx'' \<noteq> []"
    "\<forall>vp\<in>set (parents wx''). vp_parent vp = v \<or> (vp \<in> set (parents wx') \<and> distance wx' = d)"
    unfolding reached_def by auto
  have "s'' = set_vertex w wx'' s" using a(2) b(1) by (simp add: set_vertex_def)
  then show ?thesis unfolding reached_def using a b by (intro exI[of _ wx] exI[of _ wx'']) auto
qed

lemma reached_root: "reached v w d s s' \<Longrightarrow> root s' = root s"
  by (auto simp: reached_def set_vertex_def)

definition extends :: "nat \<Rightarrow> nat \<Rightarrow> u32 \<Rightarrow> bool \<times> spf \<Rightarrow> bool \<times> spf \<Rightarrow> bool" where
  "extends v w d st st' \<longleftrightarrow> st' = st \<or> (fst st' \<and> reached v w d (snd st) (snd st'))"

lemma extends_trans: "extends v w d a b \<Longrightarrow> extends v w d b c \<Longrightarrow> extends v w d a c"
  unfolding extends_def using reached_trans by blast

lemma network_links_extends:
  assumes "may_reach w d s"
  shows "\<exists>st. network_links area v w oi d l (added, s) = Inr st \<and> extends v w d (added, s) st"
  using assms
proof (induction area v w oi d l "(added, s)" arbitrary: added s rule: network_links.induct)
  case (1 area v w oi d l added s)
  show ?case
  proof (cases "ospf_get_next_link (lsdb area ! w) (lsdb area ! v) l")
    case None
    then show ?thesis by (subst network_links.simps) (simp add: extends_def)
  next
    case (Some j)
    obtain s' where s': "ospf_spf_add_parent area v w \<lparr>nh_oi = oi, nh_router = link_data (links (lsdb area ! w) ! j)\<rparr> d s = Inr s'"
      "reached v w d s s'" using add_parent_reached[OF 1(2)] by blast
    have "may_reach w d s'" using reached_again[OF s'(2)] 1(2) by (simp add: may_reach_def)
    then obtain st where st: "network_links area v w oi d (Some j) (True, s') = Inr st" "extends v w d (True, s') st"
      using 1(1)[OF Some] by blast
    have "extends v w d (added, s) (True, s')" using s'(2) by (simp add: extends_def)
    then have "extends v w d (added, s) st" using st(2) extends_trans by blast
    then show ?thesis using Some s'(1) st(1) by (subst network_links.simps) simp
  qed
qed

lemma extends_may_reach: "extends v w d (a, s) (b, s') \<Longrightarrow> may_reach w d s \<Longrightarrow> may_reach w d s'"
  using reached_again by (auto simp: extends_def may_reach_def)

lemma network_nexthops_extends:
  assumes "may_reach w d s" "ls_type (lsdb area ! w) = OSPF_VERTEX_ROUTER"
  shows "\<exists>st. network_nexthops area v w d vps (added, s) = Inr st \<and> extends v w d (added, s) st"
  using assms(1)
proof (induction vps arbitrary: added s)
  case Nil
  then show ?case by (simp add: extends_def)
next
  case (Cons vp vps)
  show ?case
  proof (cases "vp_parent vp = root s")
    case True
    obtain a1 s1 where st: "network_links area v w (nh_oi (vp_nexthop vp)) d None (added, s) = Inr (a1, s1)"
      "extends v w d (added, s) (a1, s1)"
      using network_links_extends[OF Cons.prems] by (metis surj_pair)
    then have "may_reach w d s1" using extends_may_reach Cons.prems by blast
    then obtain st' where st': "network_nexthops area v w d vps (a1, s1) = Inr st'" "extends v w d (a1, s1) st'"
      using Cons.IH by blast
    then have "extends v w d (added, s) st'" using st(2) extends_trans by blast
    then show ?thesis using True st(1) st'(1) assms(2) by simp
  next
    case False
    then show ?thesis using Cons by simp
  qed
qed

lemma inherit_nexthops_extends:
  assumes "may_reach w d s"
  shows "\<exists>st. inherit_nexthops area v w d vps (added, s) = Inr st \<and> extends v w d (added, s) st \<and>
     (vps \<noteq> [] \<longrightarrow> fst st \<and> reached v w d s (snd st))"
  using assms
proof (induction vps arbitrary: added s)
  case Nil
  then show ?case by (simp add: extends_def)
next
  case (Cons vp vps)
  obtain s' where s': "ospf_spf_add_parent area v w (vp_nexthop vp) d s = Inr s'" "reached v w d s s'"
    using add_parent_reached[OF Cons.prems] by blast
  have "may_reach w d s'" using reached_again[OF s'(2)] Cons.prems by (simp add: may_reach_def)
  then obtain st where st: "inherit_nexthops area v w d vps (True, s') = Inr st" "extends v w d (True, s') st"
    using Cons.IH by blast
  have "fst st \<and> reached v w d s (snd st)"
    using st(2) s'(2) reached_trans[OF s'(2)] by (auto simp: extends_def)
  with st s' show ?case by (auto simp: extends_def)
qed

text \<open>Below the root the next hop calculation always succeeds.\<close>

lemma nexthop_inner:
  assumes "v \<noteq> root s" "vertices s v = Some vx" "parents vx \<noteq> []" "may_reach w d s"
    "v_type vx = OSPF_VERTEX_NETWORK \<Longrightarrow> ls_type (lsdb area ! w) = OSPF_VERTEX_ROUTER"
  shows "\<exists>s'. ospf_nexthop_calculation area v w l d s = Inr (True, s') \<and> reached v w d s s'"
proof -
  let ?m = "if v_type vx = OSPF_VERTEX_NETWORK then network_nexthops area v w d (parents vx) (False, s) else Inr (False, s)"
  obtain a s1 where m: "?m = Inr (a, s1)" "extends v w d (False, s) (a, s1)"
  proof (cases "v_type vx = OSPF_VERTEX_NETWORK")
    case True
    with network_nexthops_extends[OF assms(4) assms(5), of v "parents vx" False] that show thesis by auto
  next
    case False
    then show thesis using that[of False s] by (simp add: extends_def)
  qed
  have e: "ospf_nexthop_calculation area v w l d s =
      (if a then Inr (True, s1) else inherit_nexthops area v w d (parents vx) (False, s1))"
    using assms(1,2) m(1) by (simp add: ospf_nexthop_calculation_def get_vertex_def)
  show ?thesis
  proof (cases a)
    case True
    then show ?thesis using e m(2) by (auto simp: extends_def)
  next
    case False
    then have "s1 = s" using m(2) by (auto simp: extends_def)
    obtain st where st: "inherit_nexthops area v w d (parents vx) (False, s) = Inr st"
      "fst st" "reached v w d s (snd st)"
      using inherit_nexthops_extends[OF assms(4), of area v "parents vx" False] assms(3) by blast
    obtain b s' where "st = (b, s')" by (cases st)
    with e False st \<open>s1 = s\<close> show ?thesis by auto
  qed
qed

lemma nexthop_root:
  assumes "v = root s" "root_nexthop area v w link = Inr nh" "may_reach w d s"
  shows "\<exists>s'. ospf_nexthop_calculation area v w (Some link) d s = Inr (nh \<noteq> None, s') \<and>
     (if nh \<noteq> None then reached v w d s s' else s' = s)"
proof (cases nh)
  case None
  then show ?thesis using assms by (simp add: ospf_nexthop_calculation_def)
next
  case (Some hop)
  then show ?thesis using assms(1,2) add_parent_reached[OF assms(3), of area v hop]
    by (auto simp: ospf_nexthop_calculation_def)
qed

subsection \<open>The graph of an area\<close>

definition usable :: "ospf_area \<Rightarrow> nat \<Rightarrow> nat \<Rightarrow> lsa_entry \<Rightarrow> bool" where
  "usable area r w e \<longleftrightarrow> (\<exists>l h. e = Link l \<and> root_nexthop area r w l = Inr (Some h))"

text \<open>An entry of the LSA of \<open>u\<close> that leads to \<open>w\<close>: not a stub, not at infinite cost, the LSA of \<open>w\<close>
  known, not aged out and pointing back; from the root the next hop must be known as well.\<close>

definition leads_to :: "ospf_area \<Rightarrow> nat \<Rightarrow> nat \<Rightarrow> lsa_entry \<Rightarrow> nat \<Rightarrow> bool" where
  "leads_to area r u e w \<longleftrightarrow> entry_lsa area u (u = r) e = Some w \<and> (u = r \<longrightarrow> usable area r w e)"

inductive spf_path :: "ospf_area \<Rightarrow> nat \<Rightarrow> nat \<Rightarrow> nat \<Rightarrow> bool" for area r where
  here: "spf_path area r r 0"
| step: "spf_path area r u d \<Longrightarrow> e \<in> set (lsa_entries (lsdb area ! u)) \<Longrightarrow> leads_to area r u e w \<Longrightarrow>
    spf_path area r w (d + unat (entry_cost e))"

definition area_ok :: "ospf_area \<Rightarrow> nat \<Rightarrow> bool" where
  "area_ok area r \<longleftrightarrow> r < length (lsdb area) \<and> ls_type (lsdb area ! r) = OSPF_ROUTER_LSA \<and>
     length (lsdb area) \<le> 32768 \<and> (\<forall>l\<in>set (links (lsdb area ! r)). metric l \<noteq> 0) \<and>
     (\<forall>oi\<in>set (oiflist area). wf_prefix (oi_address oi) \<and> wf_prefix (oi_connected oi))"

lemma type_consts: "OSPF_ROUTER_LSA = OSPF_VERTEX_ROUTER" "OSPF_NETWORK_LSA = OSPF_VERTEX_NETWORK"
  "OSPF_VERTEX_ROUTER \<noteq> OSPF_VERTEX_NETWORK"
  by (simp_all add: OSPF_ROUTER_LSA_def OSPF_NETWORK_LSA_def OSPF_VERTEX_ROUTER_def OSPF_VERTEX_NETWORK_def)

lemma lsdb_find_Some: "lsdb_find P db = Some i \<Longrightarrow> i < length db \<and> P (db ! i)"
  by (auto simp: lsdb_find_def split: list.splits dest!: arg_cong[of _ _ set])

lemma entry_lsa_Some:
  assumes "entry_lsa area v b e = Some w"
  shows "w < length (lsdb area)"
    "ls_type (lsdb area ! w) = OSPF_VERTEX_ROUTER \<or> ls_type (lsdb area ! w) = OSPF_VERTEX_NETWORK"
    "\<And>x. e = Attached x \<Longrightarrow> ls_type (lsdb area ! w) = OSPF_VERTEX_ROUTER"
  using assms
  by (auto simp: entry_lsa_def Let_def lookup_router_lsa_def lookup_network_lsa_def type_consts
      dest!: lsdb_find_Some split: lsa_entry.splits if_splits option.splits)

lemma entry_cost_bound: "unat (entry_cost e) \<le> 65535"
proof (cases e)
  case (Link l)
  have "unat (metric l) < 2 ^ 16" using unsigned_less[of "metric l"] by simp
  then show ?thesis using Link by (simp add: entry_cost_def unsigned_ucast_eq take_bit_eq_mod)
qed (simp add: entry_cost_def)

subsection \<open>Next hops from the root do not fault\<close>

lemma ipv4_prefix_bounds: "length (u_prefix (ipv4_prefix a n)) = 16" "prefixlen (ipv4_prefix a n) = n"
  by (simp_all add: ipv4_prefix_def bytes32_def)

lemma if_configured_from_total:
  assumes "\<forall>oi\<in>set ois. wf_prefix (oi_connected oi)"
  shows "\<exists>r. if_is_configured_from i ois addr = Inr r"
  using assms
proof (induction ois arbitrary: i)
  case (Cons oi ois)
  have "\<exists>b. prefix_match (oi_connected oi) (ipv4_prefix addr IPV4_MAX_BITLEN) = Inr b"
    using prefix_match_agree[of "oi_connected oi" "ipv4_prefix addr IPV4_MAX_BITLEN"] Cons.prems
      wf_prefix_bounds[of "oi_connected oi"]
    by (simp add: ipv4_prefix_bounds IPV4_MAX_BITLEN_def)
  then obtain b where "prefix_match (oi_connected oi) (ipv4_prefix addr IPV4_MAX_BITLEN) = Inr b" ..
  with Cons show ?case by auto
qed simp

lemma if_configured_total:
  assumes "area_ok area r" shows "\<exists>i. ospf_if_is_configured (oiflist area) addr = Inr i"
  using if_configured_from_total assms unfolding ospf_if_is_configured_def area_ok_def by blast

lemma if_configured_from_bound:
  "if_is_configured_from i ois addr = Inr (Some j) \<Longrightarrow> i \<le> j \<and> j < i + length ois"
proof (induction ois arbitrary: i)
  case (Cons oi ois)
  have "i = j \<or> if_is_configured_from (Suc i) ois addr = Inr (Some j)"
    using Cons.prems by (auto simp: bindE_eq_Inr split: if_splits)
  then show ?case using Cons.IH[of "Suc i"] by auto
qed simp

lemma ptmp_link_total:
  assumes "wf_prefix address" shows "\<exists>j. ptmp_link w v address l2 = Inr j"
  using assms
proof (induction w v address l2 rule: ptmp_link.induct)
  case (1 w v address l2)
  show ?case
  proof (cases "ospf_get_next_link w v l2")
    case None
    then show ?thesis by (subst ptmp_link.simps) simp
  next
    case (Some j)
    have "\<exists>c. prefix_cmp (ipv4_prefix (link_data (links w ! j)) (prefixlen address)) address = Inr c"
      using prefix_cmp_agree[of "ipv4_prefix (link_data (links w ! j)) (prefixlen address)" address]
        wf_prefix_bounds[OF 1(2)] by (simp add: ipv4_prefix_bounds)
    then obtain c where c: "prefix_cmp (ipv4_prefix (link_data (links w ! j)) (prefixlen address)) address = Inr c" ..
    with 1(1)[OF Some _ 1(2)] Some show ?thesis by (subst ptmp_link.simps) auto
  qed
qed

lemma ptop_link_total:
  assumes "\<And>addr. \<exists>i. ospf_if_is_configured ois addr = Inr i"
  shows "\<exists>r. ptop_link ois w v data l2 = Inr r"
  using assms
proof (induction ois w v data l2 rule: ptop_link.induct)
  case (1 ois w v data l2)
  show ?case
  proof (cases "ospf_get_next_link w v l2")
    case None
    then show ?thesis by (subst ptop_link.simps) simp
  next
    case (Some j)
    obtain oi where oi: "ospf_if_is_configured ois (link_data (links w ! j)) = Inr oi" using 1(3) by blast
    from 1(1)[OF Some 1(3)] oi Some show ?thesis
      by (subst ptop_link.simps) (auto split: option.splits)
  qed
qed

lemma root_nexthop_total:
  assumes "area_ok area r"
    "ls_type (lsdb area ! w) = OSPF_VERTEX_ROUTER \<or> ls_type (lsdb area ! w) = OSPF_VERTEX_NETWORK"
  shows "\<exists>nh. root_nexthop area v w l = Inr nh"
proof -
  obtain oi where oi: "ospf_if_is_configured (oiflist area) (link_data l) = Inr oi"
    using if_configured_total[OF assms(1)] by blast
  have ptop: "\<exists>r. ptop_link (oiflist area) (lsdb area ! w) (lsdb area ! v) (link_data l) None = Inr r"
    using ptop_link_total if_configured_total[OF assms(1)] by blast
  have ptmp: "\<exists>j. ptmp_link (lsdb area ! w) (lsdb area ! v) (oi_address (oiflist area ! i)) None = Inr j"
    if "oi = Some i" for i
  proof (rule ptmp_link_total)
    have "i < length (oiflist area)"
      using if_configured_from_bound[of 0 "oiflist area" "link_data l" i] oi that
      by (simp add: ospf_if_is_configured_def)
    then show "wf_prefix (oi_address (oiflist area ! i))" using assms(1) by (auto simp: area_ok_def)
  qed
  show ?thesis
    using assms(2) oi ptop ptmp
    by (cases oi) (auto simp: root_nexthop_def Let_def type_consts bindE_assertE split: option.splits)
qed

subsection \<open>The queue when vertices change\<close>

lemma queue_now_simps [simp]:
  "array (queue_now s) = array (candidate s)" "qsize (queue_now s) = qsize (candidate s)"
  "update (queue_now s) = update (candidate s)" "stat (queue_now s) = stat (candidate s)"
  "cmp (queue_now s) = vertex_cmp (vertices s)" "contents (queue_now s) = contents (candidate s)"
  "array_size (queue_now s) = array_size (candidate s)"
  by (simp_all add: queue_now_def contents_def)

lemma contents_nth: "qsize q \<le> length (array q) \<Longrightarrow> j < qsize q \<Longrightarrow> array q ! j \<in> set (contents q)"
  by (auto simp: contents_def in_set_conv_nth)

lemma pq_inv_cong:
  assumes "pq_inv c ok q" "\<And>x y. x \<in> set (contents q) \<Longrightarrow> y \<in> set (contents q) \<Longrightarrow> c' x y = c x y"
    "\<And>x. x \<in> set (contents q) \<Longrightarrow> ok' x"
    "array q' = array q" "array_size q' = array_size q" "qsize q' = qsize q" "cmp q' = c'"
    "update q' = update q" "stat q' = stat q"
  shows "pq_inv c' ok' q'"
proof -
  have len: "qsize q \<le> length (array q)" using assms(1) by (simp add: pq_inv_def)
  have con: "contents q' = contents q" using assms(4,6) by (simp add: contents_def)
  have "heap_on c' (qsize q) (array q)"
    unfolding heap_on_def
  proof (intro allI impI)
    fix j assume j: "0 < j \<and> j < qsize q"
    then have "PARENT_OF j < qsize q" using parent_less[of j] by linarith
    then show "c' (array q ! PARENT_OF j) (array q ! j) \<le> 0"
      using assms(1,2) j contents_nth[OF len] by (simp add: pq_inv_def heap_on_def)
  qed
  then show ?thesis using assms con by (simp add: pq_inv_def tracked_def)
qed

text \<open>Lowering the distance of a queued vertex and letting it trickle up.\<close>

lemma decrease_key:
  assumes inv: "pq_inv (vertex_cmp vs) (vertex_ok vs) q" and i: "i < qsize q" and w: "array q ! i = w"
    and wx: "vs w = Some wx" "v_type wx' = v_type wx" "unat (distance wx') < unat (distance wx)"
  defines "vs' \<equiv> vs(w \<mapsto> wx')"
  shows "\<exists>q'. trickle_up i (q\<lparr>cmp := vertex_cmp vs'\<rparr>) = Inr q' \<and> pq_inv (vertex_cmp vs') (vertex_ok vs') q' \<and>
     mset (contents q') = mset (contents q) \<and> update q' = update q \<and>
     (\<forall>y. y \<notin> set (contents q) \<longrightarrow> stat q' y = stat q y)"
proof -
  let ?q = "q\<lparr>cmp := vertex_cmp vs'\<rparr>" let ?n = "qsize q" let ?a = "array q"
  have I: "array_size q = length ?a" "?n < length ?a" "heap_on (vertex_cmp vs) ?n ?a"
    "\<And>x. x \<in> set (contents q) \<Longrightarrow> vertex_ok vs x" "distinct (contents q)" "tracked ?n ?a ?n q"
    using inv by (auto simp: pq_inv_def)
  have inC: "?a ! j \<in> set (contents q)" if "j < ?n" for j using contents_nth[of q j] I(2) that by simp
  have other: "?a ! j \<noteq> w" if "j < ?n" "j \<noteq> i" for j
    using I(2,5) that i w nth_eq_iff_index_eq[of "contents q" j i] by (auto simp: contents_def)
  have ok': "vertex_ok vs' x" if "x \<in> set (contents q)" for x
  proof (cases "x = w")
    case True
    then show ?thesis using I(4)[OF inC[OF i]] w wx by (auto simp: vertex_ok_def vs'_def)
  next
    case False
    then show ?thesis using I(4)[OF that] by (auto simp: vertex_ok_def vs'_def)
  qed
  have same: "vertex_cmp vs' x y = vertex_cmp vs x y" if "x \<noteq> w" "y \<noteq> w" for x y
    using that by (simp add: vertex_cmp_def vs'_def)
  have below: "vertex_cmp vs' w y \<le> 0" if y: "y \<in> set (contents q)" "y \<noteq> w" "vertex_cmp vs w y \<le> 0" for y
  proof -
    have wC: "w \<in> set (contents q)" using inC[OF i] w by simp
    obtain yx where yx: "vs y = Some yx" using I(4)[OF y(1)] by (auto simp: vertex_ok_def)
    have "unat (distance wx) \<le> unat (distance yx)"
      using y(3) vertex_cmp_le(1)[OF wx(1) yx I(4)[OF wC] I(4)[OF y(1)]] by auto
    then show ?thesis
      using vertex_cmp_le(1)[of vs' w wx' y yx] wx(3) yx y(2) ok'[OF wC] ok'[OF y(1)] by (simp add: vs'_def)
  qed
  have "up_ok (vertex_cmp vs') ?n ?a i"
    unfolding up_ok_def
  proof (intro conjI allI impI)
    fix j assume j: "0 < j \<and> j < ?n \<and> j \<noteq> i"
    then have p: "PARENT_OF j < ?n" using parent_less[of j] by linarith
    have le: "vertex_cmp vs (?a ! PARENT_OF j) (?a ! j) \<le> 0" using I(3) j by (simp add: heap_on_def)
    show "vertex_cmp vs' (?a ! PARENT_OF j) (?a ! j) \<le> 0"
    proof (cases "PARENT_OF j = i")
      case True
      then show ?thesis using below[of "?a ! j"] le j w inC other by auto
    next
      case False
      then show ?thesis using same le other j p by auto
    qed
  next
    fix c assume c: "0 < i \<and> 0 < c \<and> c < ?n \<and> PARENT_OF c = i"
    have p: "PARENT_OF i < ?n" "PARENT_OF i \<noteq> i" "c \<noteq> i"
      using c parent_less[of i] parent_less[of c] i by auto
    have "vertex_cmp vs (?a ! PARENT_OF i) (?a ! i) \<le> 0" "vertex_cmp vs (?a ! i) (?a ! c) \<le> 0"
      using I(3) c i by (auto simp: heap_on_def)
    then have "vertex_cmp vs (?a ! PARENT_OF i) (?a ! c) \<le> 0"
      using vertex_cmp_trans I(4) inC p(1) i c by blast
    then show "vertex_cmp vs' (?a ! PARENT_OF i) (?a ! c) \<le> 0" using same other p c by simp
  qed
  moreover have "tracked ?n ?a i ?q" using I(6) i by (auto simp: tracked_def)
  ultimately obtain q' where q': "trickle_up i ?q = Inr q'" "same_config ?q q'"
    "heap_on (vertex_cmp vs') ?n (array q')" "mset (take ?n (array q')) = mset (contents q)"
    "tracked ?n (array q') ?n q'" "\<And>y. y \<notin> set (contents q) \<Longrightarrow> stat q' y = stat q y"
    using cand.trickle_up_spec[of ?q vs' i ?n] i I(2,5) ok' by (auto simp: contents_def)
  have s: "qsize q' = ?n" "array_size q' = length (array q')" "length (array q') = length ?a"
    "cmp q' = vertex_cmp vs'" "update q' = update q"
    using q'(2) I(1) by (auto simp: same_config_def)
  have con: "contents q' = take ?n (array q')" using s(1) by (simp add: contents_def)
  have "pq_inv (vertex_cmp vs') (vertex_ok vs') q'"
    using s q'(3,5) I(2,5) ok' mset_eq_setD[OF q'(4)] mset_eq_imp_distinct_iff[OF q'(4)] con
    by (simp add: pq_inv_def)
  then show ?thesis using q' s(5) con by auto
qed

subsection \<open>The invariant of the calculation\<close>

abbreviation tree :: "spf \<Rightarrow> nat set" where "tree s \<equiv> set (spf_tree s)"
abbreviation cands :: "spf \<Rightarrow> nat set" where "cands s \<equiv> set (contents (candidate s))"

definition dist :: "spf \<Rightarrow> nat \<Rightarrow> nat" where
  "dist s x = unat (distance (the (vertices s x)))"

text \<open>A parent is on the tree, at a distance that its link makes up for.\<close>

definition tight :: "ospf_area \<Rightarrow> spf \<Rightarrow> nat \<Rightarrow> nat \<Rightarrow> bool" where
  "tight area s x p \<longleftrightarrow> p \<in> tree s \<and> (\<exists>e\<in>set (lsa_entries (lsdb area ! p)).
     leads_to area (root s) p e x \<and> dist s x = dist s p + unat (entry_cost e))"

definition node_ok :: "ospf_area \<Rightarrow> spf \<Rightarrow> nat \<Rightarrow> bool" where
  "node_ok area s x \<longleftrightarrow> x < length (lsdb area) \<and> (\<exists>vx. vertices s x = Some vx \<and>
     v_type vx = ls_type (lsdb area ! x) \<and>
     (v_type vx = OSPF_VERTEX_ROUTER \<or> v_type vx = OSPF_VERTEX_NETWORK) \<and>
     (x \<noteq> root s \<longrightarrow> parents vx \<noteq> [] \<and> distance vx \<noteq> 0) \<and>
     (\<forall>vp\<in>set (parents vx). tight area s x (vp_parent vp)))"

definition spf_shape :: "ospf_area \<Rightarrow> spf \<Rightarrow> bool" where
  "spf_shape area s \<longleftrightarrow> distinct (spf_tree s) \<and> root s \<in> tree s \<and> tree s \<inter> cands s = {} \<and>
     pq_inv (vertex_cmp (vertices s)) (vertex_ok (vertices s)) (queue_now s) \<and> update (candidate s) \<and>
     (\<forall>x\<in>tree s. lsa_stat s x = LSA_SPF_IN_SPFTREE) \<and>
     (\<forall>x. x \<notin> tree s \<longrightarrow> x \<notin> cands s \<longrightarrow> lsa_stat s x = LSA_SPF_NOT_EXPLORED) \<and>
     (\<forall>x\<in>tree s \<union> cands s. node_ok area s x) \<and> dist s (root s) = 0"

definition spf_dists :: "ospf_area \<Rightarrow> spf \<Rightarrow> nat \<Rightarrow> bool" where
  "spf_dists area s v \<longleftrightarrow> v \<in> tree s \<and> (\<forall>x\<in>tree s \<union> cands s. spf_path area (root s) x (dist s x)) \<and>
     sorted (map (dist s) (spf_tree s)) \<and>
     (\<forall>u\<in>tree s. dist s u \<le> dist s v) \<and> dist s v \<le> 65535 * (length (spf_tree s) - 1) \<and>
     (\<forall>x\<in>cands s. dist s v \<le> dist s x \<and> dist s x \<le> 65535 * length (spf_tree s))"

definition relaxed :: "ospf_area \<Rightarrow> spf \<Rightarrow> nat \<Rightarrow> lsa_entry \<Rightarrow> bool" where
  "relaxed area s u e \<longleftrightarrow> (\<forall>w. leads_to area (root s) u e w \<longrightarrow>
     w \<in> tree s \<union> cands s \<and> dist s w \<le> dist s u + unat (entry_cost e))"

definition spf_relaxed :: "ospf_area \<Rightarrow> spf \<Rightarrow> nat \<Rightarrow> lsa_entry set \<Rightarrow> bool" where
  "spf_relaxed area s v finished \<longleftrightarrow>
     (\<forall>u\<in>tree s - {v}. \<forall>e\<in>set (lsa_entries (lsdb area ! u)). relaxed area s u e) \<and>
     (\<forall>e\<in>finished. relaxed area s v e)"

definition spf_inv :: "ospf_area \<Rightarrow> spf \<Rightarrow> nat \<Rightarrow> lsa_entry set \<Rightarrow> bool" where
  "spf_inv area s v finished \<longleftrightarrow> spf_shape area s \<and> spf_dists area s v \<and> spf_relaxed area s v finished"

text \<open>All of the invariant is about the type, distance and parents of vertices.\<close>

definition core :: "vertex \<Rightarrow> u8 \<times> u32 \<times> vertex_parent list" where
  "core v = (v_type v, distance v, parents v)"

lemma node_ok_cong:
  assumes "node_ok area s x" "root s' = root s" "map_option core (vertices s' x) = map_option core (vertices s x)"
    "\<And>p. tight area s x p \<Longrightarrow> tight area s' x p"
  shows "node_ok area s' x"
proof -
  obtain vx where vx: "vertices s x = Some vx" "v_type vx = ls_type (lsdb area ! x)"
     "v_type vx = OSPF_VERTEX_ROUTER \<or> v_type vx = OSPF_VERTEX_NETWORK"
     "x \<noteq> root s \<longrightarrow> parents vx \<noteq> [] \<and> distance vx \<noteq> 0" "\<forall>vp\<in>set (parents vx). tight area s x (vp_parent vp)"
     and x: "x < length (lsdb area)"
    using assms(1) unfolding node_ok_def by blast
  obtain vx' where "vertices s' x = Some vx'" "core vx' = core vx" using vx(1) assms(3) by auto
  then show ?thesis using vx x assms(2,4) unfolding node_ok_def core_def by auto
qed

lemma sorted_dist_cong:
  assumes "sorted (map (dist s) (spf_tree s))" "\<And>x. x \<in> tree s \<Longrightarrow> dist s' x = dist s x"
  shows "sorted (map (dist s') (spf_tree s))"
  using assms by (simp cong: map_cong)

lemma tree_bound:
  assumes "spf_shape area s"
  shows "length (spf_tree s) + card (cands s) \<le> length (lsdb area)"
proof -
  have sub: "tree s \<union> cands s \<subseteq> {..<length (lsdb area)}"
    using assms by (auto simp: spf_shape_def node_ok_def)
  have "length (spf_tree s) = card (tree s)" using assms by (simp add: spf_shape_def distinct_card)
  then have "length (spf_tree s) + card (cands s) = card (tree s \<union> cands s)"
    using assms by (simp add: spf_shape_def card_Un_disjoint)
  also have "\<dots> \<le> length (lsdb area)" using card_mono[OF _ sub] by simp
  finally show ?thesis .
qed

lemma queued_vertex:
  assumes "spf_shape area s" "w \<in> cands s"
  shows "0 \<le> lsa_stat s w" "nat (lsa_stat s w) < qsize (candidate s)"
    "array (candidate s) ! nat (lsa_stat s w) = w" "aget (array (candidate s)) (nat (lsa_stat s w)) = Inr w"
    "vertex_ok (vertices s) w"
proof -
  have inv: "pq_inv (vertex_cmp (vertices s)) (vertex_ok (vertices s)) (queue_now s)" "update (candidate s)"
    using assms(1) by (auto simp: spf_shape_def)
  then have len: "qsize (candidate s) < length (array (candidate s))" by (simp add: pq_inv_def)
  obtain j where j: "j < qsize (candidate s)" "array (candidate s) ! j = w"
    using assms(2) len by (auto simp: contents_def in_set_conv_nth)
  then have st: "lsa_stat s w = int j"
    using inv by (auto simp: pq_inv_def tracked_def lsa_stat_def)
  with j len show "0 \<le> lsa_stat s w" "nat (lsa_stat s w) < qsize (candidate s)"
    "array (candidate s) ! nat (lsa_stat s w) = w" "aget (array (candidate s)) (nat (lsa_stat s w)) = Inr w"
    by auto
  show "vertex_ok (vertices s) w" using inv(1) assms(2) by (simp add: pq_inv_def)
qed

text \<open>Changing one vertex outside the tree: either it was queued and its distance did not grow, or
  it is new in the queue.\<close>

lemma spf_inv_reach:
  assumes inv: "spf_inv area s v finished" and e: "leads_to area (root s) v e w"
    and w: "w \<notin> tree s" "w < length (lsdb area)"
    and s': "root s' = root s" "spf_tree s' = spf_tree s" "cands s' = insert w (cands s)" "update (candidate s')"
      "\<And>x. x \<noteq> w \<Longrightarrow> vertices s' x = vertices s x"
      "pq_inv (vertex_cmp (vertices s')) (vertex_ok (vertices s')) (queue_now s')"
      "\<And>x. x \<notin> cands s' \<Longrightarrow> lsa_stat s' x = lsa_stat s x"
    and wx: "vertices s' w = Some wx'" "v_type wx' = ls_type (lsdb area ! w)"
      "v_type wx' = OSPF_VERTEX_ROUTER \<or> v_type wx' = OSPF_VERTEX_NETWORK"
      "parents wx' \<noteq> []" "distance wx' \<noteq> 0" "\<And>vp. vp \<in> set (parents wx') \<Longrightarrow> vp_parent vp = v \<or> (tight area s w (vp_parent vp) \<and> unat (distance wx') = dist s w)"
      "unat (distance wx') = dist s v + unat (entry_cost e)"
    and less: "w \<in> cands s \<Longrightarrow> dist s v + unat (entry_cost e) \<le> dist s w"
    and path: "e \<in> set (lsa_entries (lsdb area ! v))"
  shows "spf_inv area s' v (insert e finished)"
proof -
  have S: "spf_shape area s" and D: "spf_dists area s v" and R: "spf_relaxed area s v finished"
    using inv by (auto simp: spf_inv_def)
  have d: "dist s' x = dist s x" if "x \<noteq> w" for x using that s'(5) by (simp add: dist_def)
  have dw: "dist s' w = dist s v + unat (entry_cost e)" using wx(1,7) by (simp add: dist_def)
  have vt: "v \<in> tree s" "v \<noteq> w" using D w(1) by (auto simp: spf_dists_def)
  have rw: "root s \<noteq> w" using S w(1) by (auto simp: spf_shape_def)
  have tight: "tight area s' x p" if t: "tight area s x p" "dist s' x = dist s x" for x p
  proof -
    have "p \<noteq> w" using t(1) w(1) by (auto simp: tight_def)
    then show ?thesis using t d s'(1,2) by (simp add: tight_def)
  qed
  have N: "node_ok area s' x" if "x \<in> tree s' \<union> cands s'" for x
  proof (cases "x = w")
    case True
    have "tight area s' w v" using vt path e dw d[OF vt(2)] s'(1,2) by (auto simp: tight_def)
    then have "tight area s' w (vp_parent vp)" if "vp \<in> set (parents wx')" for vp
      using wx(6)[OF that] tight[of w "vp_parent vp"] dw wx(7) by auto
    then show ?thesis using True w wx(1-5) s'(1,2) by (auto simp: node_ok_def)
  next
    case False
    then have "node_ok area s x" using that S s'(2,3) by (auto simp: spf_shape_def)
    then show ?thesis by (rule node_ok_cong) (use False s'(1,5) tight d in auto)
  qed
  have shape: "spf_shape area s'"
    unfolding spf_shape_def
  proof (intro conjI ballI allI impI)
    show "node_ok area s' x" if "x \<in> tree s' \<union> cands s'" for x using N[OF that] .
    show "lsa_stat s' x = LSA_SPF_IN_SPFTREE" if "x \<in> tree s'" for x
      using that s'(2,3) s'(7)[of x] S w(1) by (auto simp: spf_shape_def)
    show "lsa_stat s' x = LSA_SPF_NOT_EXPLORED" if "x \<notin> tree s'" "x \<notin> cands s'" for x
      using that s'(2,3) s'(7)[of x] S by (auto simp: spf_shape_def)
  qed (use S s' w d[OF rw] in \<open>auto simp: spf_shape_def\<close>)
  have dv: "dist s v \<le> 65535 * (length (spf_tree s) - 1)" using D by (simp add: spf_dists_def)
  have len: "0 < length (spf_tree s)" using vt(1) by (cases "spf_tree s") auto
  have bw: "dist s' w \<le> 65535 * length (spf_tree s)"
    using dv dw entry_cost_bound[of e] len by (cases "length (spf_tree s)") auto
  have pw: "spf_path area (root s) w (dist s' w)"
    unfolding dw using D vt path e by (intro spf_path.step) (auto simp: spf_dists_def)
  have dists: "spf_dists area s' v"
    unfolding spf_dists_def s'(1,2,3)
  proof (intro conjI ballI)
    show "v \<in> tree s" using vt(1) .
    show "sorted (map (dist s') (spf_tree s))"
    proof (rule sorted_dist_cong)
      show "dist s' x = dist s x" if "x \<in> tree s" for x using that w(1) by (intro d) auto
    qed (use D in \<open>simp add: spf_dists_def\<close>)
    show "spf_path area (root s) x (dist s' x)" if "x \<in> tree s \<union> insert w (cands s)" for x
      using that D pw d[of x] by (cases "x = w") (auto simp: spf_dists_def)
    show "dist s' u \<le> dist s' v" if "u \<in> tree s" for u
    proof -
      have "u \<noteq> w" using that w(1) by blast
      then show ?thesis using that D d vt(2) by (simp add: spf_dists_def)
    qed
    show "dist s' v \<le> 65535 * (length (spf_tree s) - 1)" using dv d[OF vt(2)] by simp
    fix x assume x: "x \<in> insert w (cands s)"
    show "dist s' v \<le> dist s' x" "dist s' x \<le> 65535 * length (spf_tree s)"
      using x D bw dw d[OF vt(2)] d[of x] by (cases "x = w"; simp add: spf_dists_def)+
  qed
  have mono: "relaxed area s' u e'" if "relaxed area s u e'" "u \<in> tree s" for u e'
    unfolding relaxed_def s'(1,2,3)
  proof (intro allI impI)
    fix w' assume "leads_to area (root s) u e' w'"
    then have *: "w' \<in> tree s \<union> cands s" "dist s w' \<le> dist s u + unat (entry_cost e')"
      using that(1) by (auto simp: relaxed_def)
    have "u \<noteq> w" using that(2) w(1) by auto
    moreover have "dist s' w' \<le> dist s w'"
      using * d dw less w(1) by (cases "w' = w") auto
    ultimately show "w' \<in> tree s \<union> insert w (cands s) \<and> dist s' w' \<le> dist s' u + unat (entry_cost e')"
      using * d by auto
  qed
  have new: "relaxed area s' v e"
    unfolding relaxed_def s'(1,2,3)
    using e dw d[OF vt(2)] by (auto simp: leads_to_def)
  have "spf_relaxed area s' v (insert e finished)"
    using R mono new vt(1) by (auto simp: spf_relaxed_def s'(2))
  with shape dists show ?thesis by (simp add: spf_inv_def)
qed

text \<open>An entry that needs no work, and changes outside the invariant's view.\<close>

lemma spf_inv_cong:
  assumes inv: "spf_inv area s v finished"
    and s': "root s' = root s" "spf_tree s' = spf_tree s" "candidate s' = candidate s"
      "\<And>x. x \<in> tree s \<union> cands s \<Longrightarrow> map_option core (vertices s' x) = map_option core (vertices s x)"
    and e: "\<And>e w. e \<in> finished' - finished \<Longrightarrow> leads_to area (root s) v e w \<Longrightarrow>
      w \<in> tree s \<union> cands s \<and> dist s w \<le> dist s v + unat (entry_cost e)"
  shows "spf_inv area s' v finished'"
proof -
  have S: "spf_shape area s" and D: "spf_dists area s v" and R: "spf_relaxed area s v finished"
    using inv by (auto simp: spf_inv_def)
  have vx: "\<exists>vx vx'. vertices s x = Some vx \<and> vertices s' x = Some vx' \<and> core vx' = core vx"
    if "x \<in> tree s \<union> cands s" for x
  proof -
    have "node_ok area s x" using S that by (simp add: spf_shape_def)
    then obtain vx where "vertices s x = Some vx" by (auto simp: node_ok_def)
    then show ?thesis using s'(4)[OF that] by auto
  qed
  have d: "dist s' x = dist s x" if "x \<in> tree s \<union> cands s" for x
    using vx[OF that] by (auto simp: dist_def core_def)
  have N: "node_ok area s' x" if "x \<in> tree s \<union> cands s" for x
  proof (rule node_ok_cong)
    show "node_ok area s x" using S that by (simp add: spf_shape_def)
    show "tight area s' x p" if "tight area s x p" for p
      using that \<open>x \<in> tree s \<union> cands s\<close> d s'(1,2) by (simp add: tight_def)
  qed (use s' that in auto)
  have "pq_inv (vertex_cmp (vertices s')) (vertex_ok (vertices s')) (queue_now s')"
  proof (rule pq_inv_cong)
    show P: "pq_inv (vertex_cmp (vertices s)) (vertex_ok (vertices s)) (queue_now s)" using S by (simp add: spf_shape_def)
    show "vertex_ok (vertices s') x" if "x \<in> set (contents (queue_now s))" for x
      using that P vx[of x] by (auto simp: pq_inv_def vertex_ok_def core_def)
    show "vertex_cmp (vertices s') x y = vertex_cmp (vertices s) x y"
      if "x \<in> set (contents (queue_now s))" "y \<in> set (contents (queue_now s))" for x y
      using vx[of x] vx[of y] that by (auto simp: vertex_cmp_def core_def)
  qed (use s'(3) in simp_all)
  then have shape: "spf_shape area s'"
    using S N d[of "root s"] s'(1,2,3) by (simp add: spf_shape_def lsa_stat_def)
  have vt: "v \<in> tree s" using D by (simp add: spf_dists_def)
  have "sorted (map (dist s') (spf_tree s))"
    by (rule sorted_dist_cong) (use D d in \<open>simp_all add: spf_dists_def\<close>)
  then have dists: "spf_dists area s' v" using D d vt unfolding spf_dists_def s'(1,2,3) by auto
  have mono: "relaxed area s' u e'" if "relaxed area s u e'" "u \<in> tree s" for u e'
    using that d unfolding relaxed_def s'(1,2,3) by auto
  have "relaxed area s v e'" if "e' \<in> finished'" for e'
    using R e[of e'] that by (cases "e' \<in> finished") (auto simp: relaxed_def spf_relaxed_def)
  then have "spf_relaxed area s' v finished'"
    using R mono vt unfolding spf_relaxed_def s'(2) by simp
  with shape dists show ?thesis by (simp add: spf_inv_def)
qed

lemma spf_inv_skip:
  assumes "spf_inv area s v finished"
    "root s' = root s" "spf_tree s' = spf_tree s" "candidate s' = candidate s"
    "\<And>x. x \<in> tree s \<union> cands s \<Longrightarrow> vertices s' x = vertices s x"
    "\<And>w. leads_to area (root s) v e w \<Longrightarrow> w \<in> tree s \<union> cands s \<and> dist s w \<le> dist s v + unat (entry_cost e)"
  shows "spf_inv area s' v (insert e finished)"
  by (rule spf_inv_cong[OF assms(1-4)]) (use assms(5,6) in auto)

subsection \<open>One entry\<close>

lemma spf_inv_bound:
  assumes "area_ok area r" "spf_inv area s v finished"
  shows "dist s v \<le> 65535 * 32767" "v < length (lsdb area)" "root s \<in> tree s" "v \<in> tree s" "node_ok area s v"
proof -
  have S: "spf_shape area s" and D: "spf_dists area s v" using assms(2) by (auto simp: spf_inv_def)
  have "length (spf_tree s) \<le> length (lsdb area)" using tree_bound[OF S] by simp
  moreover have "length (lsdb area) \<le> 32768" using assms(1) by (simp add: area_ok_def)
  ultimately have "length (spf_tree s) - 1 \<le> 32767" by linarith
  then have "65535 * (length (spf_tree s) - 1) \<le> 65535 * 32767" by simp
  moreover have "dist s v \<le> 65535 * (length (spf_tree s) - 1)" using D by (simp add: spf_dists_def)
  ultimately show "dist s v \<le> 65535 * 32767" by (rule le_trans[rotated])
  show "v \<in> tree s" using D by (simp add: spf_dists_def)
  then show "node_ok area s v" using S by (simp add: spf_shape_def)
  then show "v < length (lsdb area)" by (simp add: node_ok_def)
  show "root s \<in> tree s" using S by (simp add: spf_shape_def)
qed

lemma entry_distance:
  assumes area: "area_ok area (root s)" and inv: "spf_inv area s v finished"
    and e: "e \<in> set (lsa_entries (lsdb area ! v))"
  shows "\<exists>vx. vertices s v = Some vx \<and> unat (distance vx + entry_cost e) = dist s v + unat (entry_cost e) \<and>
     distance vx + entry_cost e \<noteq> 0 \<and> dist s v + unat (entry_cost e) < 2 ^ 31"
proof -
  note B = spf_inv_bound[OF area inv]
  obtain vx where vx: "vertices s v = Some vx" "v \<noteq> root s \<longrightarrow> distance vx \<noteq> 0"
    using B(5) by (auto simp: node_ok_def)
  have d: "dist s v = unat (distance vx)" using vx by (simp add: dist_def)
  have small: "dist s v + unat (entry_cost e) < 2 ^ 31"
    using B(1) entry_cost_bound[of e] by simp
  then have u: "unat (distance vx + entry_cost e) = dist s v + unat (entry_cost e)"
    unfolding d by (intro unat_add_lem[THEN iffD1]) simp
  have "dist s v + unat (entry_cost e) \<noteq> 0"
  proof (cases "v = root s")
    case True
    then obtain l where "e = Link l" "metric l \<noteq> 0"
      using area e by (auto simp: area_ok_def lsa_entries_def)
    moreover have "unat (metric l) < 2 ^ 16" using unsigned_less[of "metric l"] by simp
    ultimately have "entry_cost e \<noteq> 0"
      by (simp add: entry_cost_def word_unat_eq_iff unsigned_ucast_eq take_bit_eq_mod)
    then show ?thesis by (simp add: unat_eq_0)
  next
    case False
    then show ?thesis using vx(2) d by (simp add: unat_eq_0)
  qed
  then have "distance vx + entry_cost e \<noteq> 0" using u by auto
  with vx u small show ?thesis by blast
qed

lemma nexthop_result:
  assumes area: "area_ok area (root s)" and inv: "spf_inv area s v finished"
    and e: "e \<in> set (lsa_entries (lsdb area ! v))" "entry_lsa area v (v = root s) e = Some w"
    and s0: "root s0 = root s" "vertices s0 v = vertices s v" "may_reach w d s0"
  shows "\<exists>s'. ospf_nexthop_calculation area v w (entry_link e) d s0 = Inr (leads_to area (root s) v e w, s') \<and>
     (if leads_to area (root s) v e w then reached v w d s0 s' else s' = s0)"
proof -
  obtain vx where vx: "vertices s v = Some vx" "v_type vx = ls_type (lsdb area ! v)"
      "v \<noteq> root s \<longrightarrow> parents vx \<noteq> []"
    using spf_inv_bound(5)[OF area inv] by (auto simp: node_ok_def)
  show ?thesis
  proof (cases "v = root s")
    case True
    obtain l where l: "e = Link l" using area e(1) True by (auto simp: area_ok_def lsa_entries_def)
    obtain nh where nh: "root_nexthop area v w l = Inr nh"
      using root_nexthop_total[OF area entry_lsa_Some(2)[OF e(2)]] by blast
    have "leads_to area (root s) v e w \<longleftrightarrow> nh \<noteq> None"
      using e(2) True nh l by (auto simp: leads_to_def usable_def)
    then show ?thesis
      using nexthop_root[OF _ nh s0(3)] True s0(1) l by (simp add: entry_link_def)
  next
    case False
    have "ls_type (lsdb area ! w) = OSPF_VERTEX_ROUTER" if n: "v_type vx = OSPF_VERTEX_NETWORK"
    proof -
      obtain x where "e = Attached x" using e(1) n vx(2) type_consts by (auto simp: lsa_entries_def)
      then show ?thesis by (rule entry_lsa_Some(3)[OF e(2)])
    qed
    moreover have "leads_to area (root s) v e w" using e(2) False by (simp add: leads_to_def)
    ultimately show ?thesis
      using nexthop_inner[of v s0 vx w d area "entry_link e"] False vx s0 by simp
  qed
qed

lemma queue_now_set_vertex:
  "queue_now (set_vertex w wx s) = (queue_now s)\<lparr>cmp := vertex_cmp ((vertices s)(w \<mapsto> wx))\<rparr>"
  "vertices (set_vertex w wx s) = (vertices s)(w \<mapsto> wx)"
  by (simp_all add: queue_now_def set_vertex_def)

lemma queue_other_vertex:
  assumes "pq_inv (vertex_cmp vs) (vertex_ok vs) q" "w \<notin> set (contents q)"
  shows "pq_inv (vertex_cmp (vs(w \<mapsto> wx))) (vertex_ok (vs(w \<mapsto> wx))) (q\<lparr>cmp := vertex_cmp (vs(w \<mapsto> wx))\<rparr>)"
proof (rule pq_inv_cong[OF assms(1)])
  show "vertex_ok (vs(w \<mapsto> wx)) x" if "x \<in> set (contents q)" for x
    using assms that by (auto simp: pq_inv_def vertex_ok_def)
  show "vertex_cmp (vs(w \<mapsto> wx)) x y = vertex_cmp vs x y"
    if "x \<in> set (contents q)" "y \<in> set (contents q)" for x y
    using that assms(2) by (auto simp: vertex_cmp_def)
qed simp_all

lemma queue_same_distance:
  assumes "pq_inv (vertex_cmp vs) (vertex_ok vs) q" "vs w = Some wx0" "distance wx = distance wx0" "v_type wx = v_type wx0"
  shows "pq_inv (vertex_cmp (vs(w \<mapsto> wx))) (vertex_ok (vs(w \<mapsto> wx))) (q\<lparr>cmp := vertex_cmp (vs(w \<mapsto> wx))\<rparr>)"
proof (rule pq_inv_cong[OF assms(1)])
  show "vertex_ok (vs(w \<mapsto> wx)) x" if "x \<in> set (contents q)" for x
    using assms that by (auto simp: pq_inv_def vertex_ok_def)
  show "vertex_cmp (vs(w \<mapsto> wx)) x y = vertex_cmp vs x y" for x y
    using assms(2,3,4) by (auto simp: vertex_cmp_def split: option.splits)
qed simp_all

text \<open>What an entry does to a vertex that is not explored, and to one already in the queue.\<close>

lemma entry_new:
  assumes area: "area_ok area (root s)" and inv: "spf_inv area s v finished"
    and e: "e \<in> set (lsa_entries (lsdb area ! v))" "entry_lsa area v (v = root s) e = Some w"
    and w: "lsa_stat s w = LSA_SPF_NOT_EXPLORED"
  shows "\<exists>s'. spf_entry area v s e = Inr s' \<and> spf_inv area s' v (insert e finished) \<and> root s' = root s \<and>
     spf_tree s' = spf_tree s"
proof -
  have S: "spf_shape area s" using inv by (simp add: spf_inv_def)
  have out: "w \<notin> tree s" "w \<notin> cands s"
    using S w queued_vertex(1)[OF S, of w] by (auto simp: spf_shape_def LSA_SPF_IN_SPFTREE_def LSA_SPF_NOT_EXPLORED_def)
  obtain vx where vx: "vertices s v = Some vx"
    and d: "unat (distance vx + entry_cost e) = dist s v + unat (entry_cost e)"
      "distance vx + entry_cost e \<noteq> 0" "dist s v + unat (entry_cost e) < 2 ^ 31"
    using entry_distance[OF area inv e(1)] by blast
  let ?d = "distance vx + entry_cost e" let ?s0 = "ospf_vertex_new area w s"
  have vw: "v \<noteq> w" using out spf_inv_bound(4)[OF area inv] by blast
  have s0: "root ?s0 = root s" "vertices ?s0 v = vertices s v" "may_reach w ?d ?s0"
    using vw d(2) by (auto simp: ospf_vertex_new_def set_vertex_def may_reach_def)
  obtain s1 where s1: "ospf_nexthop_calculation area v w (entry_link e) ?d ?s0 = Inr (leads_to area (root s) v e w, s1)"
    "if leads_to area (root s) v e w then reached v w ?d ?s0 s1 else s1 = ?s0"
    using nexthop_result[OF area inv e s0] by blast
  have E: "spf_entry area v s e = (if leads_to area (root s) v e w
      then bindE (pqueue_enqueue 0 w (queue_now s1)) (\<lambda>q. Inr (s1\<lparr>candidate := q\<rparr>)) else Inr s1)"
    using e(2) w vx s1(1)
    by (simp add: spf_entry_def get_vertex_def Let_def LSA_SPF_IN_SPFTREE_def LSA_SPF_NOT_EXPLORED_def)
  show ?thesis
  proof (cases "leads_to area (root s) v e w")
    case False
    then have "s1 = ?s0" using s1(2) by simp
    moreover have "spf_inv area ?s0 v (insert e finished)"
    proof (rule spf_inv_skip[OF inv])
      show "vertices ?s0 x = vertices s x" if "x \<in> tree s \<union> cands s" for x
        using that out by (auto simp: ospf_vertex_new_def set_vertex_def)
      show "w' \<in> tree s \<union> cands s \<and> dist s w' \<le> dist s v + unat (entry_cost e)" if "leads_to area (root s) v e w'" for w'
        using False that e(2) by (simp add: leads_to_def)
    qed (simp_all add: ospf_vertex_new_def set_vertex_def)
    ultimately show ?thesis using E False by (simp add: ospf_vertex_new_def set_vertex_def)
  next
    case True
    then obtain wx' where wx': "s1 = set_vertex w wx' s" "v_type wx' = ls_type (lsdb area ! w)"
      "distance wx' = ?d" "parents wx' \<noteq> []" "\<forall>vp\<in>set (parents wx'). vp_parent vp = v"
      using s1(2) d(2) by (auto simp: reached_def ospf_vertex_new_def set_vertex_def)
    have q: "pq_inv (vertex_cmp (vertices s1)) (vertex_ok (vertices s1)) (queue_now s1)"
      using queue_other_vertex[of "vertices s" "queue_now s" w wx'] S out(2) wx'(1)
      by (simp add: spf_shape_def queue_now_set_vertex)
    have ty: "v_type wx' = OSPF_VERTEX_ROUTER \<or> v_type wx' = OSPF_VERTEX_NETWORK"
      using entry_lsa_Some(2)[OF e(2)] wx'(2) by simp
    have ok: "vertex_ok (vertices s1) w"
      using wx'(1,3) d(1,3) ty by (simp add: vertex_ok_def set_vertex_def)
    have nin: "w \<notin> set (contents (queue_now s1))" using out(2) wx'(1) by (simp add: set_vertex_def)
    obtain q' where q': "pqueue_enqueue 0 w (queue_now s1) = Inr q'"
      "pq_inv (vertex_cmp (vertices s1)) (vertex_ok (vertices s1)) q'" "update q' = update (queue_now s1)"
      "mset (contents q') = add_mset w (mset (contents (queue_now s1)))"
      "\<forall>y. y \<notin> set (contents q') \<longrightarrow> stat q' y = stat (queue_now s1) y"
      using cand.enqueue_spec[OF q ok nin, of 0] by blast
    let ?s' = "s1\<lparr>candidate := q'\<rparr>"
    have cands': "cands ?s' = insert w (cands s)"
      using arg_cong[OF q'(4), of set_mset] wx'(1) by (simp add: set_vertex_def)
    have now: "queue_now ?s' = q'" using q'(2) by (simp add: queue_now_def pq_inv_def)
    have "spf_inv area ?s' v (insert e finished)"
    proof (rule spf_inv_reach[OF inv True out(1) entry_lsa_Some(1)[OF e(2)], of ?s' wx'])
      show "pq_inv (vertex_cmp (vertices ?s')) (vertex_ok (vertices ?s')) (queue_now ?s')"
        using q'(2) now by simp
      show "lsa_stat ?s' x = lsa_stat s x" if "x \<notin> cands ?s'" for x
        using that q'(5) wx'(1) by (simp add: lsa_stat_def set_vertex_def)
      show "update (candidate ?s')" using q'(3) S wx'(1) by (simp add: spf_shape_def set_vertex_def)
      show "vp_parent vp = v \<or> tight area s w (vp_parent vp) \<and> unat (distance wx') = dist s w"
        if "vp \<in> set (parents wx')" for vp using wx'(5) that by simp
    qed (use wx' ty cands' e d out in \<open>simp_all add: set_vertex_def\<close>)
    then show ?thesis using E True q'(1) wx'(1) by (auto simp: set_vertex_def)
  qed
qed

lemma entry_queued:
  assumes area: "area_ok area (root s)" and inv: "spf_inv area s v finished"
    and e: "e \<in> set (lsa_entries (lsdb area ! v))" "entry_lsa area v (v = root s) e = Some w"
    and w: "w \<in> cands s"
  shows "\<exists>s'. spf_entry area v s e = Inr s' \<and> spf_inv area s' v (insert e finished) \<and> root s' = root s \<and>
     spf_tree s' = spf_tree s"
proof -
  have S: "spf_shape area s" using inv by (simp add: spf_inv_def)
  note Q = queued_vertex[OF S w]
  have out: "w \<notin> tree s" using S w by (auto simp: spf_shape_def)
  have vw: "v \<noteq> w" using out spf_inv_bound(4)[OF area inv] by blast
  obtain vx where vx: "vertices s v = Some vx"
    and d: "unat (distance vx + entry_cost e) = dist s v + unat (entry_cost e)"
      "distance vx + entry_cost e \<noteq> 0" "dist s v + unat (entry_cost e) < 2 ^ 31"
    using entry_distance[OF area inv e(1)] by blast
  let ?d = "distance vx + entry_cost e"
  have N: "node_ok area s w" using S w by (simp add: spf_shape_def)
  obtain wx where wx: "vertices s w = Some wx" "v_type wx = ls_type (lsdb area ! w)"
    "\<forall>vp\<in>set (parents wx). tight area s w (vp_parent vp)"
    using N by (auto simp: node_ok_def)
  have dw: "dist s w = unat (distance wx)" using wx(1) by (simp add: dist_def)
  have skip: "spf_inv area s v (insert e finished)" if "distance wx < ?d \<or> \<not> leads_to area (root s) v e w"
  proof (rule spf_inv_skip[OF inv])
    fix w' assume l: "leads_to area (root s) v e w'"
    then have "w' = w" using e(2) by (simp add: leads_to_def)
    moreover have "distance wx < ?d" using that l calculation by blast
    ultimately show "w' \<in> tree s \<union> cands s \<and> dist s w' \<le> dist s v + unat (entry_cost e)"
      using w dw d(1) by (simp add: word_less_nat_alt)
  qed simp_all
  show ?thesis
  proof (cases "distance wx < ?d")
    case True
    then have "spf_entry area v s e = Inr s"
      using e(2) Q vx wx by (auto simp: spf_entry_def get_vertex_def Let_def LSA_SPF_IN_SPFTREE_def LSA_SPF_NOT_EXPLORED_def)
    then show ?thesis using skip True by blast
  next
    case False
    then have le: "?d \<le> distance wx" by simp
    then have reach: "may_reach w ?d s" using d(2) wx(1) by (simp add: may_reach_def)
    obtain s1 where s1: "ospf_nexthop_calculation area v w (entry_link e) ?d s = Inr (leads_to area (root s) v e w, s1)"
      "if leads_to area (root s) v e w then reached v w ?d s s1 else s1 = s"
      using nexthop_result[OF area inv e refl refl reach] by blast
    have E: "spf_entry area v s e =
        (if distance wx \<noteq> ?d \<and> leads_to area (root s) v e w
         then bindE (trickle_up (nat (lsa_stat s1 w)) (queue_now s1)) (\<lambda>q. Inr (s1\<lparr>candidate := q\<rparr>)) else Inr s1)"
      using e(2) Q vx wx s1(1) False
      by (simp add: spf_entry_def get_vertex_def Let_def LSA_SPF_IN_SPFTREE_def LSA_SPF_NOT_EXPLORED_def)
    show ?thesis
    proof (cases "leads_to area (root s) v e w")
      case False
      then show ?thesis using E s1(2) skip by auto
    next
      case True
      then obtain wx' where wx': "s1 = set_vertex w wx' s" "v_type wx' = v_type wx"
        "distance wx' = ?d" "parents wx' \<noteq> []" "\<forall>vp\<in>set (parents wx'). vp_parent vp = v \<or> (vp \<in> set (parents wx) \<and> distance wx = ?d)"
        using s1(2) wx(1) by (auto simp: reached_def)
      have P: "pq_inv (vertex_cmp (vertices s)) (vertex_ok (vertices s)) (queue_now s)" "update (candidate s)"
        using S by (auto simp: spf_shape_def)
      obtain q' where q': "spf_entry area v s e = Inr (s1\<lparr>candidate := q'\<rparr>)"
        "pq_inv (vertex_cmp (vertices s1)) (vertex_ok (vertices s1)) (q'\<lparr>cmp := vertex_cmp (vertices s1)\<rparr>)"
        "update q'" "mset (contents q') = mset (contents (candidate s))"
        "\<forall>y. y \<notin> cands s \<longrightarrow> stat q' y = lsa_stat s y"
      proof (cases "distance wx = ?d")
        case True
        then have "spf_entry area v s e = Inr (s1\<lparr>candidate := candidate s\<rparr>)"
          using E wx'(1) by (simp add: set_vertex_def)
        moreover have "pq_inv (vertex_cmp (vertices s1)) (vertex_ok (vertices s1))
            ((candidate s)\<lparr>cmp := vertex_cmp (vertices s1)\<rparr>)"
          using queue_same_distance[OF P(1) wx(1), of wx'] wx'(1,2,3) True
          by (simp add: queue_now_set_vertex) (simp add: queue_now_def)
        ultimately show ?thesis using that[of "candidate s"] P(2) by (simp add: lsa_stat_def)
      next
        case False
        then have less: "unat (distance wx') < unat (distance wx)"
          using le wx'(3) by (metis order_le_less word_less_nat_alt)
        obtain q' where q': "trickle_up (nat (lsa_stat s w)) ((queue_now s)\<lparr>cmp := vertex_cmp ((vertices s)(w \<mapsto> wx'))\<rparr>) = Inr q'"
          "pq_inv (vertex_cmp ((vertices s)(w \<mapsto> wx'))) (vertex_ok ((vertices s)(w \<mapsto> wx'))) q'"
          "mset (contents q') = mset (contents (queue_now s))" "update q' = update (queue_now s)"
          "\<forall>y. y \<notin> set (contents (queue_now s)) \<longrightarrow> stat q' y = stat (queue_now s) y"
          using decrease_key[OF P(1) _ _ wx(1) wx'(2) less, of "nat (lsa_stat s w)"] Q by auto
        have "lsa_stat s1 w = lsa_stat s w" using wx'(1) by (simp add: lsa_stat_def set_vertex_def)
        then have "spf_entry area v s e = Inr (s1\<lparr>candidate := q'\<rparr>)"
          using E \<open>leads_to area (root s) v e w\<close> False q'(1) wx'(1) by (simp add: queue_now_set_vertex)
        moreover have "q'\<lparr>cmp := vertex_cmp (vertices s1)\<rparr> = q'"
          using q'(2) wx'(1) by (simp add: pq_inv_def queue_now_set_vertex)
        ultimately show ?thesis
          using that[of q'] q' P(2) wx'(1) by (simp add: queue_now_set_vertex lsa_stat_def)
      qed
      let ?s' = "s1\<lparr>candidate := q'\<rparr>"
      have cands': "cands ?s' = cands s" using mset_eq_setD[OF q'(4)] by simp
      have ty: "v_type wx' = OSPF_VERTEX_ROUTER \<or> v_type wx' = OSPF_VERTEX_NETWORK"
        using entry_lsa_Some(2)[OF e(2)] wx'(2) wx(2) by simp
      have "spf_inv area ?s' v (insert e finished)"
      proof (rule spf_inv_reach[OF inv True out entry_lsa_Some(1)[OF e(2)], of ?s' wx'])
        show "pq_inv (vertex_cmp (vertices ?s')) (vertex_ok (vertices ?s')) (queue_now ?s')"
          using q'(2) by (simp add: queue_now_def)
        show "lsa_stat ?s' x = lsa_stat s x" if "x \<notin> cands ?s'" for x
          using that q'(5) cands' by (simp add: lsa_stat_def)
        show "vp_parent vp = v \<or> tight area s w (vp_parent vp) \<and> unat (distance wx') = dist s w"
          if "vp \<in> set (parents wx')" for vp using wx'(3,5) wx(3) dw that by auto
        show "cands ?s' = insert w (cands s)" using cands' w by auto
        show "dist s v + unat (entry_cost e) \<le> dist s w"
          using le dw d(1) by (simp add: word_le_nat_alt)
      qed (use wx' wx(2) ty e d q'(3) in \<open>simp_all add: set_vertex_def\<close>)
      then show ?thesis using q'(1) wx'(1) by (auto simp: set_vertex_def)
    qed
  qed
qed

lemma entry_step:
  assumes area: "area_ok area (root s)" and inv: "spf_inv area s v finished"
    and e: "e \<in> set (lsa_entries (lsdb area ! v))"
  shows "\<exists>s'. spf_entry area v s e = Inr s' \<and> spf_inv area s' v (insert e finished) \<and> root s' = root s \<and>
     spf_tree s' = spf_tree s"
proof (cases "entry_lsa area v (v = root s) e")
  case None
  then have "spf_inv area s v (insert e finished)" by (intro spf_inv_skip[OF inv]) (auto simp: leads_to_def)
  then show ?thesis using None by (simp add: spf_entry_def)
next
  case (Some w)
  have S: "spf_shape area s" and D: "spf_dists area s v" using inv by (auto simp: spf_inv_def)
  consider "w \<in> tree s" | "w \<in> cands s" | "w \<notin> tree s" "w \<notin> cands s" by blast
  then show ?thesis
  proof cases
    case 1
    then have "spf_inv area s v (insert e finished)"
      using Some D by (intro spf_inv_skip[OF inv]) (auto simp: leads_to_def spf_dists_def intro: trans_le_add1)
    moreover have "lsa_stat s w = LSA_SPF_IN_SPFTREE" using 1 S by (simp add: spf_shape_def)
    ultimately show ?thesis using Some by (simp add: spf_entry_def)
  next
    case 2
    then show ?thesis by (rule entry_queued[OF area inv e Some])
  next
    case 3
    then have "lsa_stat s w = LSA_SPF_NOT_EXPLORED" using S by (simp add: spf_shape_def)
    then show ?thesis by (rule entry_new[OF area inv e Some])
  qed
qed

subsection \<open>The whole calculation\<close>

lemma entries_step:
  assumes "area_ok area (root s)" "spf_inv area s v finished" "set es \<subseteq> set (lsa_entries (lsdb area ! v))"
  shows "\<exists>s'. foldE (spf_entry area v) s es = Inr s' \<and> spf_inv area s' v (finished \<union> set es) \<and>
     root s' = root s \<and> spf_tree s' = spf_tree s"
  using assms
proof (induction es arbitrary: s finished)
  case (Cons e es)
  obtain s1 where s1: "spf_entry area v s e = Inr s1" "spf_inv area s1 v (insert e finished)"
    "root s1 = root s" "spf_tree s1 = spf_tree s"
    using entry_step[OF Cons.prems(1,2), of e] Cons.prems(3) by auto
  obtain s2 where "foldE (spf_entry area v) s1 es = Inr s2" "spf_inv area s2 v (insert e finished \<union> set es)"
    "root s2 = root s1" "spf_tree s2 = spf_tree s1"
    using Cons.IH[of s1 "insert e finished"] Cons.prems(1,3) s1 by auto
  moreover have "finished \<union> set (e # es) = insert e finished \<union> set es" by auto
  ultimately show ?case using s1 by simp
qed simp

lemma next_step:
  assumes "area_ok area (root s)" "spf_inv area s v {}"
  shows "\<exists>s'. ospf_spf_next area v s = Inr s' \<and> spf_inv area s' v (set (lsa_entries (lsdb area ! v))) \<and>
     root s' = root s \<and> spf_tree s' = spf_tree s"
proof -
  have t: "spf_inv area (s\<lparr>transit := b\<rparr>) v {}" for b by (rule spf_inv_cong[OF assms(2)]) auto
  show ?thesis
    using entries_step[OF _ t[of True], of "lsa_entries (lsdb area ! v)"] assms(1)
      entries_step[OF assms, of "lsa_entries (lsdb area ! v)"]
    by (auto simp: ospf_spf_next_def Let_def)
qed

lemma children_step:
  assumes "\<forall>vp\<in>set vps. vertices s (vp_parent vp) \<noteq> None"
  shows "\<exists>s'. add_to_children v vps s = Inr s' \<and> root s' = root s \<and> spf_tree s' = spf_tree s \<and>
     candidate s' = candidate s \<and> (\<forall>x. map_option core (vertices s' x) = map_option core (vertices s x))"
  using assms
proof (induction vps arbitrary: s)
  case (Cons vp vps)
  obtain p where p: "vertices s (vp_parent vp) = Some p" using Cons.prems by auto
  let ?s = "if v \<in> set (children p) then s else set_vertex (vp_parent vp) (p\<lparr>children := children p @ [v]\<rparr>) s"
  have s: "root ?s = root s" "spf_tree ?s = spf_tree s" "candidate ?s = candidate s"
    "map_option core (vertices ?s x) = map_option core (vertices s x)" for x
    using p by (auto simp: set_vertex_def core_def)
  have "\<forall>vp\<in>set vps. vertices ?s (vp_parent vp) \<noteq> None"
    using Cons.prems s(4) by (metis list.set_intros(2) option.map_disc_iff)
  then obtain s' where "add_to_children v vps ?s = Inr s'" "root s' = root ?s" "spf_tree s' = spf_tree ?s"
    "candidate s' = candidate ?s" "\<forall>x. map_option core (vertices s' x) = map_option core (vertices ?s x)"
    using Cons.IH by blast
  then show ?case using p s by (simp add: get_vertex_def)
qed simp

lemma pop_step:
  assumes inv: "spf_inv area s v (set (lsa_entries (lsdb area ! v)))"
    and q: "pqueue_dequeue (queue_now s) = Inr (u, q')"
      "pq_inv (vertex_cmp (vertices s)) (vertex_ok (vertices s)) q'" "update q'"
      "mset (contents (candidate s)) = add_mset u (mset (contents q'))"
      "\<forall>y\<in>cands s. vertex_cmp (vertices s) u y \<le> 0" "\<forall>y. y \<notin> cands s \<longrightarrow> stat q' y = lsa_stat s y"
  shows "spf_inv area (set_stat u LSA_SPF_IN_SPFTREE (s\<lparr>candidate := q', spf_tree := spf_tree s @ [u]\<rparr>)) u {}"
    (is "spf_inv area ?s u {}")
proof -
  have S: "spf_shape area s" and D: "spf_dists area s v"
    and R: "spf_relaxed area s v (set (lsa_entries (lsdb area ! v)))"
    using inv by (auto simp: spf_inv_def)
  have P: "pq_inv (vertex_cmp (vertices s)) (vertex_ok (vertices s)) (queue_now s)" using S by (simp add: spf_shape_def)
  have cq: "cands s = insert u (set (contents q'))" using arg_cong[OF q(4), of set_mset] by simp
  have "distinct (contents (candidate s))" using P by (simp add: pq_inv_def)
  then have uq: "u \<notin> set (contents q')"
    using q(4) by (metis distinct.simps(2) mset.simps(2) mset_eq_imp_distinct_iff)
  have s: "root ?s = root s" "spf_tree ?s = spf_tree s @ [u]" "vertices ?s = vertices s" "cands ?s = set (contents q')"
    "update (candidate ?s)" "lsa_stat ?s u = LSA_SPF_IN_SPFTREE" "x \<noteq> u \<Longrightarrow> lsa_stat ?s x = stat q' x" for x
    using q(3) by (auto simp: set_stat_def contents_def lsa_stat_def)
  have nodes: "tree ?s \<union> cands ?s = tree s \<union> cands s" using s(2,4) cq by auto
  have d: "dist ?s x = dist s x" for x using s(3) by (simp add: dist_def)
  have out: "u \<notin> tree s" "tree s \<inter> cands s = {}" using S cq by (auto simp: spf_shape_def)
  have tr: "tracked (qsize q') (array q') (qsize q') ((queue_now ?s))"
  proof -
    have "array q' ! j \<noteq> u" if "j < qsize q'" for j
      using that uq contents_nth[of q' j] q(2) by (auto simp: pq_inv_def)
    then show ?thesis using q(2) by (auto simp: pq_inv_def tracked_def set_stat_def)
  qed
  have now: "pq_inv (vertex_cmp (vertices ?s)) (vertex_ok (vertices ?s)) (queue_now ?s)"
    using q(2) tr unfolding pq_inv_def by (simp add: set_stat_def contents_def)
  have N: "node_ok area ?s x" if "x \<in> tree s \<union> cands s" for x
  proof (rule node_ok_cong)
    show "node_ok area s x" using S that by (simp add: spf_shape_def)
    show "tight area ?s x p" if "tight area s x p" for p
      using that d s(1,2) by (auto simp: tight_def)
  qed (use s in auto)
  have shape: "spf_shape area ?s"
    unfolding spf_shape_def
  proof (intro conjI ballI allI impI)
    show "lsa_stat ?s x = LSA_SPF_IN_SPFTREE" if "x \<in> tree ?s" for x
    proof (cases "x = u")
      case False
      then have "x \<in> tree s" using that s(2) by simp
      then show ?thesis using s(7)[OF False] q(6) out(2) S by (auto simp: spf_shape_def)
    qed (use s(6) in simp)
    show "lsa_stat ?s x = LSA_SPF_NOT_EXPLORED" if "x \<notin> tree ?s" "x \<notin> cands ?s" for x
    proof -
      have "x \<noteq> u" "x \<notin> tree s" "x \<notin> cands s" using that nodes s(2) by auto
      then show ?thesis using s(7) q(6) S by (simp add: spf_shape_def)
    qed
    show "node_ok area ?s x" if "x \<in> tree ?s \<union> cands ?s" for x using that N nodes by blast
  qed (use S s(1,2,4,5) now d out uq cq in \<open>auto simp: spf_shape_def\<close>)
  have vt: "v \<in> tree s" "u \<in> cands s" using D cq by (auto simp: spf_dists_def)
  have least: "dist s u \<le> dist s y" if "y \<in> cands s" for y
  proof -
    have ok: "vertex_ok (vertices s) u" "vertex_ok (vertices s) y" using P vt(2) that by (auto simp: pq_inv_def)
    then obtain ux yx where "vertices s u = Some ux" "vertices s y = Some yx" by (auto simp: vertex_ok_def)
    then show ?thesis using vertex_cmp_le(1)[OF _ _ ok] q(5) that by (fastforce simp: dist_def)
  qed
  have up: "\<forall>x\<in>tree s. dist s x \<le> dist s u" using D vt(2) by (fastforce simp: spf_dists_def)
  have dists: "spf_dists area ?s u"
    unfolding spf_dists_def nodes
  proof (intro conjI ballI)
    have "sorted (map (dist s) (spf_tree s @ [u]))" using D up by (auto simp: spf_dists_def sorted_append)
    then show "sorted (map (dist ?s) (spf_tree ?s))" using d s(2) by (simp cong: map_cong)
    show "dist ?s u \<le> 65535 * (length (spf_tree ?s) - 1)" using D vt(2) d s(2) by (simp add: spf_dists_def)
    fix y assume "y \<in> cands ?s"
    then have "y \<in> cands s" using s(4) cq by simp
    then show "dist ?s u \<le> dist ?s y" "dist ?s y \<le> 65535 * length (spf_tree ?s)"
      using least D d s(2) by (auto simp: spf_dists_def intro: trans_le_add2)
  qed (use D d s(1,2) up in \<open>auto simp: spf_dists_def\<close>)
  have "spf_relaxed area ?s u {}"
    unfolding spf_relaxed_def relaxed_def nodes s(1) d
    using R vt out(1) s(2) by (auto simp: spf_relaxed_def relaxed_def)
  with shape dists show ?thesis by (simp add: spf_inv_def)
qed

text \<open>When the queue is empty the tree is closed under the links of its vertices.\<close>

definition spf_done :: "ospf_area \<Rightarrow> nat \<Rightarrow> spf \<Rightarrow> bool" where
  "spf_done area r s \<longleftrightarrow> root s = r \<and> distinct (spf_tree s) \<and> sorted (map (dist s) (spf_tree s)) \<and>
     (\<forall>x\<in>tree s. node_ok area s x \<and> spf_path area r x (dist s x)) \<and>
     (\<forall>x d. spf_path area r x d \<longrightarrow> x \<in> tree s \<and> dist s x \<le> d)"

lemma spf_inv_done:
  assumes inv: "spf_inv area s v (set (lsa_entries (lsdb area ! v)))" and q: "qsize (candidate s) = 0"
  shows "spf_done area (root s) s"
proof -
  have S: "spf_shape area s" and D: "spf_dists area s v"
    and R: "spf_relaxed area s v (set (lsa_entries (lsdb area ! v)))"
    using inv by (auto simp: spf_inv_def)
  have c: "cands s = {}" using q by (simp add: contents_def)
  have rel: "relaxed area s u e" if "u \<in> tree s" "e \<in> set (lsa_entries (lsdb area ! u))" for u e
    using R that by (cases "u = v") (auto simp: spf_relaxed_def)
  have "x \<in> tree s \<and> dist s x \<le> d" if "spf_path area (root s) x d" for x d
    using that
  proof (induction rule: spf_path.induct)
    case here
    then show ?case using S by (simp add: spf_shape_def)
  next
    case (step u d e w)
    then have "w \<in> tree s \<and> dist s w \<le> dist s u + unat (entry_cost e)"
      using rel[of u e] c by (simp add: relaxed_def)
    then show ?case using step.IH by simp
  qed
  then show ?thesis using S D c by (auto simp: spf_done_def spf_shape_def spf_dists_def)
qed

lemma loop_step:
  assumes "area_ok area (root s)" "spf_inv area s v {}" "length (lsdb area) < fuel + length (spf_tree s)"
  shows "\<exists>s'. spf_loop fuel area v s = Some (Inr s') \<and> spf_done area (root s) s'"
  using assms
proof (induction fuel arbitrary: v s)
  case 0
  then show ?case using tree_bound[of area s] by (simp add: spf_inv_def)
next
  case (Suc fuel)
  obtain s1 where s1: "ospf_spf_next area v s = Inr s1" "spf_inv area s1 v (set (lsa_entries (lsdb area ! v)))"
    "root s1 = root s" "spf_tree s1 = spf_tree s"
    using next_step[OF Suc.prems(1,2)] by blast
  show ?case
  proof (cases "qsize (candidate s1) = 0")
    case True
    then show ?thesis using s1 spf_inv_done[OF s1(2) True] by simp
  next
    case False
    have P: "pq_inv (vertex_cmp (vertices s1)) (vertex_ok (vertices s1)) (queue_now s1)" "update (candidate s1)"
      using s1(2) by (auto simp: spf_inv_def spf_shape_def)
    obtain u q' where q: "pqueue_dequeue (queue_now s1) = Inr (u, q')"
      "pq_inv (vertex_cmp (vertices s1)) (vertex_ok (vertices s1)) q'" "update q'"
      "mset (contents (candidate s1)) = add_mset u (mset (contents q'))"
      "\<forall>y\<in>cands s1. vertex_cmp (vertices s1) u y \<le> 0" "\<forall>y. y \<notin> cands s1 \<longrightarrow> stat q' y = lsa_stat s1 y"
      using cand.dequeue_spec[OF P(1)] False P(2) by (auto simp: lsa_stat_def)
    let ?s2 = "set_stat u LSA_SPF_IN_SPFTREE (s1\<lparr>candidate := q', spf_tree := spf_tree s1 @ [u]\<rparr>)"
    have s2: "spf_inv area ?s2 u {}" by (rule pop_step[OF s1(2) q])
    then have N: "node_ok area ?s2 u" "\<forall>x\<in>tree ?s2. node_ok area ?s2 x"
      by (auto simp: spf_inv_def spf_shape_def spf_dists_def)
    obtain ux where ux: "vertices ?s2 u = Some ux" "\<forall>vp\<in>set (parents ux). tight area ?s2 u (vp_parent vp)"
      using N(1) by (auto simp: node_ok_def)
    have "\<forall>vp\<in>set (parents ux). vertices ?s2 (vp_parent vp) \<noteq> None"
      using ux(2) N(2) unfolding tight_def node_ok_def by blast
    then obtain s3 where s3: "add_to_children u (parents ux) ?s2 = Inr s3" "root s3 = root ?s2" "spf_tree s3 = spf_tree ?s2"
      "candidate s3 = candidate ?s2" "\<forall>x. map_option core (vertices s3 x) = map_option core (vertices ?s2 x)"
      using children_step by blast
    have inv3: "spf_inv area s3 u {}" by (rule spf_inv_cong[OF s2 s3(2,3,4)]) (use s3(5) in auto)
    have "root s3 = root s" "length (lsdb area) < fuel + length (spf_tree s3)"
      using s3(2,3) s1(3,4) Suc.prems(3) by (auto simp: set_stat_def)
    then obtain s' where "spf_loop fuel area u s3 = Some (Inr s')" "spf_done area (root s) s'"
      using Suc.IH[OF _ inv3] Suc.prems(1) by auto
    then show ?thesis
      using s1(1) False q(1) ux(1) s3(1) by (simp add: Let_def ospf_vertex_add_parent_def get_vertex_def)
  qed
qed

lemma init_inv:
  assumes "area_ok area r"
  shows "spf_inv area (ospf_spf_init area r) r {}"
proof -
  let ?s = "ospf_spf_init area r"
  have q: "pq_inv (vertex_cmp (vertices ?s)) (vertex_ok (vertices ?s)) (queue_now ?s)"
    by (simp add: ospf_spf_init_def Let_def set_stat_def ospf_vertex_new_def set_vertex_def pqueue_create_def
        contents_def pq_inv_def heap_on_def tracked_def queue_now_def PQUEUE_INIT_ARRAYSIZE_def)
  have s: "root ?s = r" "spf_tree ?s = [r]" "contents (candidate ?s) = []" "update (candidate ?s)"
    "lsa_stat ?s x = (if x = r then LSA_SPF_IN_SPFTREE else LSA_SPF_NOT_EXPLORED)" 
    "vertices ?s r = Some \<lparr>v_type = ls_type (lsdb area ! r), distance = 0, parents = [], children = []\<rparr>" for x
    by (simp_all add: ospf_spf_init_def Let_def set_stat_def ospf_vertex_new_def set_vertex_def pqueue_create_def
        contents_def lsa_stat_def)
  have d: "dist ?s r = 0" using s(6) by (simp add: dist_def)
  have "node_ok area ?s r" using assms s(1,6) by (simp add: node_ok_def area_ok_def type_consts)
  then have "spf_shape area ?s" using q s d by (simp add: spf_shape_def)
  moreover have "spf_dists area ?s r" using s d by (simp add: spf_dists_def spf_path.here)
  moreover have "spf_relaxed area ?s r {}" using s by (simp add: spf_relaxed_def)
  ultimately show ?thesis by (simp add: spf_inv_def)
qed

lemma calculate_done:
  assumes "area_ok area r" "router_lsa_self area = Some r" "length (lsdb area) \<le> fuel"
  shows "\<exists>s. ospf_spf_calculate fuel area = Some (Inr (Some s)) \<and> spf_done area r s"
proof -
  let ?s = "ospf_spf_init area r"
  have "root ?s = r" "spf_tree ?s = [r]"
    by (simp_all add: ospf_spf_init_def Let_def set_stat_def ospf_vertex_new_def set_vertex_def)
  then show ?thesis
    using loop_step[OF _ init_inv[OF assms(1)], of fuel] assms by (auto simp: ospf_spf_calculate_def)
qed

subsection \<open>Properties\<close>

text \<open>C1: The shortest-path calculation of an area. For every area whose own router-LSA announces no
  zero metric, with at most 32768 LSAs and well-formed interface addresses, \<^verbatim>\<open>ospf_spf_calculate\<close> ends
  after at most as many rounds as there are LSAs, without a failed assertion or a null pointer. The
  tree then holds each LSA that a path reaches exactly once and nothing else, every vertex has the
  cost of a shortest path as its distance, and vertices entered the tree in order of distance.\<close>

theorem ospf_spf_shortest:
  assumes "area_ok area r" "router_lsa_self area = Some r" "length (lsdb area) \<le> fuel"
  shows "\<exists>s. ospf_spf_calculate fuel area = Some (Inr (Some s)) \<and> distinct (spf_tree s) \<and>
     set (spf_tree s) = {x. \<exists>d. spf_path area r x d} \<and>
     sorted (map (\<lambda>x. unat (distance (the (vertices s x)))) (spf_tree s)) \<and>
     (\<forall>x\<in>set (spf_tree s). \<exists>vx. vertices s x = Some vx \<and> spf_path area r x (unat (distance vx)) \<and>
        (\<forall>d. spf_path area r x d \<longrightarrow> unat (distance vx) \<le> d))"
proof -
  obtain s where s: "ospf_spf_calculate fuel area = Some (Inr (Some s))" "spf_done area r s"
    using calculate_done[OF assms] by blast
  have "\<exists>vx. vertices s x = Some vx \<and> spf_path area r x (unat (distance vx)) \<and>
      (\<forall>d. spf_path area r x d \<longrightarrow> unat (distance vx) \<le> d)" if "x \<in> tree s" for x
  proof -
    have "node_ok area s x" and least: "spf_path area r x (dist s x)" "\<And>d. spf_path area r x d \<Longrightarrow> dist s x \<le> d"
      using s(2) that by (auto simp: spf_done_def)
    then obtain vx where "vertices s x = Some vx" by (auto simp: node_ok_def)
    then show ?thesis using least by (auto simp: dist_def)
  qed
  moreover have "(\<lambda>x. unat (distance (the (vertices s x)))) = dist s" by (simp add: dist_def fun_eq_iff)
  moreover have "tree s = {x. \<exists>d. spf_path area r x d}" using s(2) unfolding spf_done_def by blast
  ultimately show ?thesis using s by (intro exI[of _ s]) (simp add: spf_done_def)
qed

definition example_link :: "u16 \<Rightarrow> router_lsa_link" where
  "example_link m = \<lparr>link_id = 9, link_data = 0x0A000001, link_type = 2, metric = m\<rparr>"

definition example_area :: "u16 \<Rightarrow> ospf_area" where
  "example_area m =
     \<lparr>lsdb = [\<lparr>ls_type = 1, ls_id = 1, adv_router = 1, rl_flags = 0, age = 0, links = [example_link m], routers = []\<rparr>,
             \<lparr>ls_type = 2, ls_id = 9, adv_router = 1, rl_flags = 0, age = 0, links = [], routers = [1, 2]\<rparr>,
             \<lparr>ls_type = 1, ls_id = 2, adv_router = 2, rl_flags = 0, age = 0,
               links = [\<lparr>link_id = 9, link_data = 0x0A000002, link_type = 2, metric = 7\<rparr>], routers = []\<rparr>],
      router_lsa_self = Some 0,
      oiflist = [\<lparr>oi_type = 2, oi_address = ipv4_prefix 0x0A000001 24, oi_connected = ipv4_prefix 0x0A000001 24\<rparr>],
      vlinks = []\<rparr>"

lemma example_area_ok:
  "area_ok (example_area 5) 0 \<and> router_lsa_self (example_area 5) = Some 0 \<and> length (lsdb (example_area 5)) \<le> 3"
  by (simp add: area_ok_def example_area_def example_link_def OSPF_ROUTER_LSA_def ipv4_prefix_def wf_prefix_def
      bytes32_def max_bits_def AF_INET_def AF_INET6_def)

lemmas example_defs = leads_to_def usable_def entry_lsa_def lookup_router_lsa_def lookup_network_lsa_def lsdb_find_def
  example_area_def IS_LSA_MAXAGE_def LS_AGE_def OSPF_LSA_MAXAGE_def ospf_lsa_has_link_def OSPF_ROUTER_LSA_def
  OSPF_NETWORK_LSA_def LSA_LINK_TYPE_STUB_def LSA_LINK_TYPE_TRANSIT_def LSA_LINK_TYPE_POINTOPOINT_def
  LSA_LINK_TYPE_VIRTUALLINK_def lsa_entries_def entry_cost_def upt_rec

lemma example_first: "leads_to (example_area m) 0 0 (Link (example_link m)) 1"
proof -
  have "ospf_if_is_configured (oiflist (example_area m)) 0x0A000001 = Inr (Some 0)"
    by (simp add: ospf_if_is_configured_def example_area_def OSPF_IFTYPE_VIRTUALLINK_def OSPF_IFTYPE_POINTOPOINT_def
        ipv4_prefix_def bytes32_def)
  then have "root_nexthop (example_area m) 0 1 (example_link m) = Inr (Some \<lparr>nh_oi = 0, nh_router = 0\<rparr>)"
    by (simp add: root_nexthop_def Let_def example_area_def example_link_def OSPF_VERTEX_ROUTER_def
        OSPF_VERTEX_NETWORK_def assertE_def)
  then show ?thesis by (simp add: example_defs) (simp add: example_link_def)
qed

lemma example_path: "spf_path (example_area 5) 0 2 5"
proof -
  have "spf_path (example_area 5) 0 1 (0 + unat (entry_cost (Link (example_link 5))))"
    by (rule spf_path.step[OF spf_path.here _ example_first]) (simp add: example_defs)
  then have "spf_path (example_area 5) 0 1 5" by (simp add: entry_cost_def example_link_def)
  moreover have "leads_to (example_area 5) 0 1 (Attached 2) 2" by (simp add: example_defs)
  ultimately have "spf_path (example_area 5) 0 2 (5 + unat (entry_cost (Attached 2)))"
    by (intro spf_path.step[of "example_area 5" 0 1 5 "Attached 2" 2]) (simp_all add: example_area_def lsa_entries_def OSPF_ROUTER_LSA_def)
  then show ?thesis by (simp add: entry_cost_def)
qed

theorem ospf_spf_shortest_witness:
  "\<exists>s. ospf_spf_calculate 3 (example_area 5) = Some (Inr (Some s)) \<and> 2 \<in> set (spf_tree s) \<and>
     (\<exists>vx. vertices s 2 = Some vx \<and> unat (distance vx) \<le> 5)"
proof -
  have "2 \<in> {x. \<exists>d. spf_path (example_area 5) 0 x d}" using example_path by blast
  then show ?thesis using ospf_spf_shortest[of "example_area 5" 0 3] example_area_ok example_path by metis
qed

text \<open>C20: The tree records its structure truthfully: every vertex of the finished tree has the type of
  its LSA, router or network; every vertex but the root has a parent; and each recorded parent is a
  vertex of the tree whose LSA has an entry leading to the child, at a cost that makes up exactly the
  difference of their distances. So every next hop is taken along a shortest path.\<close>

theorem ospf_spf_parents:
  assumes "area_ok area r" "router_lsa_self area = Some r" "length (lsdb area) \<le> fuel"
    and "ospf_spf_calculate fuel area = Some (Inr (Some s))" "x \<in> set (spf_tree s)"
  shows "\<exists>vx. vertices s x = Some vx \<and> v_type vx = ls_type (lsdb area ! x) \<and>
     v_type vx \<in> {OSPF_VERTEX_ROUTER, OSPF_VERTEX_NETWORK} \<and> (x \<noteq> r \<longrightarrow> parents vx \<noteq> []) \<and>
     (\<forall>vp\<in>set (parents vx). vp_parent vp \<in> set (spf_tree s) \<and>
        (\<exists>px. vertices s (vp_parent vp) = Some px \<and> (\<exists>e\<in>set (lsa_entries (lsdb area ! vp_parent vp)).
           leads_to area r (vp_parent vp) e x \<and>
           unat (distance vx) = unat (distance px) + unat (entry_cost e))))"
proof -
  have D: "spf_done area r s" using calculate_done[OF assms(1-3)] assms(4) by auto
  then have "node_ok area s x" and r: "root s = r" using assms(5) by (auto simp: spf_done_def)
  then obtain vx where vx: "vertices s x = Some vx" "v_type vx = ls_type (lsdb area ! x)"
    "v_type vx = OSPF_VERTEX_ROUTER \<or> v_type vx = OSPF_VERTEX_NETWORK" "x \<noteq> r \<longrightarrow> parents vx \<noteq> []"
    and t: "\<forall>vp\<in>set (parents vx). tight area s x (vp_parent vp)"
    unfolding node_ok_def by blast
  have p: "vp_parent vp \<in> set (spf_tree s) \<and>
        (\<exists>px. vertices s (vp_parent vp) = Some px \<and> (\<exists>e\<in>set (lsa_entries (lsdb area ! vp_parent vp)).
           leads_to area r (vp_parent vp) e x \<and>
           unat (distance vx) = unat (distance px) + unat (entry_cost e)))" if vp: "vp \<in> set (parents vx)" for vp
  proof -
    obtain e where e: "vp_parent vp \<in> tree s" "e \<in> set (lsa_entries (lsdb area ! vp_parent vp))"
      "leads_to area r (vp_parent vp) e x" "dist s x = dist s (vp_parent vp) + unat (entry_cost e)"
      using t vp r unfolding tight_def by blast
    then obtain px where "vertices s (vp_parent vp) = Some px" using D unfolding spf_done_def node_ok_def by blast
    then show ?thesis using e vx(1) by (auto simp: dist_def)
  qed
  show ?thesis using vx p by (intro exI[of _ vx]) simp
qed

theorem ospf_spf_parents_witness:
  "\<exists>s vx. ospf_spf_calculate 3 (example_area 5) = Some (Inr (Some s)) \<and> vertices s 2 = Some vx \<and>
     v_type vx = OSPF_VERTEX_ROUTER \<and> parents vx \<noteq> []"
proof -
  obtain s where s: "ospf_spf_calculate 3 (example_area 5) = Some (Inr (Some s))" "spf_done (example_area 5) 0 s"
    using calculate_done[of "example_area 5" 0 3] example_area_ok by auto
  moreover have "2 \<in> tree s" using s(2) example_path unfolding spf_done_def by blast
  moreover have "ls_type (lsdb (example_area 5) ! 2) = OSPF_VERTEX_ROUTER"
    by (simp add: example_area_def OSPF_VERTEX_ROUTER_def)
  ultimately show ?thesis using ospf_spf_parents[of "example_area 5" 0 3 s 2] example_area_ok by auto
qed

text \<open>A zero metric on a link of the root to a neighbour not yet explored stops the daemon: the
  distance of the neighbour would be zero, and \<^verbatim>\<open>ospf_spf_add_parent\<close> asserts that it is not.\<close>

theorem ospf_spf_zero_metric_aborts:
  assumes "leads_to area (root s) (root s) e w" "entry_cost e = 0" "lsa_stat s w = LSA_SPF_NOT_EXPLORED"
    "vertices s (root s) = Some vx" "distance vx = 0"
  shows "spf_entry area (root s) s e = Inl Abort"
proof -
  obtain l h where "e = Link l" "root_nexthop area (root s) w l = Inr (Some h)" "entry_lsa area (root s) True e = Some w"
    using assms(1) by (auto simp: leads_to_def usable_def)
  moreover have "root (ospf_vertex_new area w s) = root s" by (simp add: ospf_vertex_new_def set_vertex_def)
  ultimately show ?thesis
    using assms(2-5)
    by (simp add: spf_entry_def get_vertex_def Let_def LSA_SPF_IN_SPFTREE_def LSA_SPF_NOT_EXPLORED_def
        ospf_nexthop_calculation_def entry_link_def ospf_spf_add_parent_def assertE_def)
qed

theorem ospf_spf_zero_metric_aborts_witness:
  "spf_entry (example_area 0) 0 (ospf_spf_init (example_area 0) 0) (Link (example_link 0)) = Inl Abort"
proof -
  let ?s = "ospf_spf_init (example_area 0) 0"
  have s: "root ?s = 0" "lsa_stat ?s 1 = LSA_SPF_NOT_EXPLORED"
    "vertices ?s 0 = Some \<lparr>v_type = ls_type (lsdb (example_area 0) ! 0), distance = 0, parents = [], children = []\<rparr>"
    by (simp_all add: ospf_spf_init_def Let_def set_stat_def ospf_vertex_new_def set_vertex_def pqueue_create_def lsa_stat_def)
  have "entry_cost (Link (example_link 0)) = 0" by (simp add: entry_cost_def example_link_def)
  then show ?thesis
    using ospf_spf_zero_metric_aborts[of "example_area 0" ?s "Link (example_link 0)" 1] example_first[of 0] s by simp
qed

end
