(* ===== verification/Bgp_Peer.thy ===== *)
theory Bgp_Peer
  imports Bgp_Aspath Prefix
begin

text \<open>
  The parts of \<^verbatim>\<open>struct bgp\<close> and \<^verbatim>\<open>struct peer\<close> (\<^verbatim>\<open>bgpd/bgpd.h\<close>) that the decision process and the finite
  state machine read, the classification of peers and the comparison of socket addresses. IPv4 addresses
  are kept as the numbers \<^verbatim>\<open>ntohl\<close> gives.
\<close>

definition CHECK_FLAG :: "'a :: len word \<Rightarrow> 'a word \<Rightarrow> bool" where
  "CHECK_FLAG v f \<longleftrightarrow> v AND f \<noteq> 0"

definition SET_FLAG :: "'a :: len word \<Rightarrow> 'a word \<Rightarrow> 'a word" where
  "SET_FLAG v f = v OR f"

definition UNSET_FLAG :: "'a :: len word \<Rightarrow> 'a word \<Rightarrow> 'a word" where
  "UNSET_FLAG v f = v AND NOT f"

definition BGP_CONFIG_CONFEDERATION :: u16 where "BGP_CONFIG_CONFEDERATION = 4"
definition BGP_FLAG_ALWAYS_COMPARE_MED :: u16 where "BGP_FLAG_ALWAYS_COMPARE_MED = 1"
definition BGP_FLAG_DETERMINISTIC_MED :: u16 where "BGP_FLAG_DETERMINISTIC_MED = 2"
definition BGP_FLAG_MED_MISSING_AS_WORST :: u16 where "BGP_FLAG_MED_MISSING_AS_WORST = 4"
definition BGP_FLAG_MED_CONFED :: u16 where "BGP_FLAG_MED_CONFED = 8"
definition BGP_FLAG_COMPARE_ROUTER_ID :: u16 where "BGP_FLAG_COMPARE_ROUTER_ID = 128"
definition BGP_FLAG_ASPATH_IGNORE :: u16 where "BGP_FLAG_ASPATH_IGNORE = 256"
definition BGP_FLAG_ASPATH_CONFED :: u16 where "BGP_FLAG_ASPATH_CONFED = 8192"

record bgp =
  bgp_as :: as_t
  bgp_config :: u16
  router_id :: u32
  confed_id :: as_t
  confed_peers :: "as_t list"
  bgp_flags :: u16
  default_local_pref :: u32
  default_holdtime :: u32
  default_keepalive :: u32
  stalepath_time :: u32
  bgp_name :: "string option"
  bgp_peers :: "nat list"
  peer_self :: nat

definition bgp_flag_check :: "bgp \<Rightarrow> u16 \<Rightarrow> bool" where
  "bgp_flag_check b flag = CHECK_FLAG (bgp_flags b) flag"

definition bgp_confederation_peers_check :: "bgp \<Rightarrow> as_t \<Rightarrow> bool" where
  "bgp_confederation_peers_check b a = list_ex (\<lambda>x. x = a) (confed_peers b)"

definition PEER_STATUS_ACCEPT_PEER :: u16 where "PEER_STATUS_ACCEPT_PEER = 1"
definition PEER_STATUS_PREFIX_OVERFLOW :: u16 where "PEER_STATUS_PREFIX_OVERFLOW = 2"
definition PEER_STATUS_CAPABILITY_OPEN :: u16 where "PEER_STATUS_CAPABILITY_OPEN = 4"
definition PEER_STATUS_GROUP :: u16 where "PEER_STATUS_GROUP = 16"
definition PEER_STATUS_NSF_MODE :: u16 where "PEER_STATUS_NSF_MODE = 32"
definition PEER_STATUS_NSF_WAIT :: u16 where "PEER_STATUS_NSF_WAIT = 64"

text \<open>The field \<open>group_head\<close> is the local and remote AS number of the first member of the peer's group.\<close>

record peer =
  peer_as :: as_t
  local_as :: as_t
  sflags :: u16
  group_head :: "(as_t \<times> as_t) option"
  remote_id :: u32
  su_remote :: "sockunion option"

datatype peer_kind = BGP_PEER_IBGP | BGP_PEER_EBGP | BGP_PEER_INTERNAL | BGP_PEER_CONFED

definition peer_sort :: "bgp \<Rightarrow> 'a peer_scheme \<Rightarrow> peer_kind" where
  "peer_sort b p =
     (if CHECK_FLAG (sflags p) PEER_STATUS_GROUP
      then if peer_as p \<noteq> 0
           then if bgp_as b = peer_as p then BGP_PEER_IBGP else BGP_PEER_EBGP
           else case group_head p of
                  Some (las, ras) \<Rightarrow> if las = ras then BGP_PEER_IBGP else BGP_PEER_EBGP
                | None \<Rightarrow> BGP_PEER_INTERNAL
      else if CHECK_FLAG (bgp_config b) BGP_CONFIG_CONFEDERATION
      then if local_as p = 0 then BGP_PEER_INTERNAL
           else if local_as p = peer_as p
           then if local_as p = confed_id b then BGP_PEER_EBGP else BGP_PEER_IBGP
           else if bgp_confederation_peers_check b (peer_as p) then BGP_PEER_CONFED
           else BGP_PEER_EBGP
      else if local_as p = 0 then BGP_PEER_INTERNAL
      else if local_as p = peer_as p then BGP_PEER_IBGP
      else BGP_PEER_EBGP)"

fun in6addr_cmp :: "byte list \<Rightarrow> byte list \<Rightarrow> int" where
  "in6addr_cmp (a # as) (b # bs) = (if a > b then 1 else if a < b then - 1 else in6addr_cmp as bs)"
| "in6addr_cmp _ _ = 0"

definition sockunion_cmp :: "sockunion \<Rightarrow> sockunion \<Rightarrow> int" where
  "sockunion_cmp su1 su2 =
     (if sa_family su1 > sa_family su2 then 1
      else if sa_family su1 < sa_family su2 then - 1
      else if sa_family su1 = AF_INET
      then if be32 (sin_addr su1) = be32 (sin_addr su2) then 0
           else if be32 (sin_addr su1) > be32 (sin_addr su2) then 1 else - 1
      else if sa_family su1 = AF_INET6 then in6addr_cmp (sin6_addr su1) (sin6_addr su2)
      else 0)"

end
