(* ===== verification/Bgp_Decision.thy ===== *)
theory Bgp_Decision
  imports Bgp_Peer "HOL-Library.Product_Lexorder" "HOL-Library.List_Lexorder"
begin

text \<open>
  The decision process of BGP (\<^verbatim>\<open>bgpd/bgp_route.c\<close>): the comparison of two paths to a prefix, the selection of
  the best path among the entries of a routing table node, the flags of the entries and the count of
  accepted prefixes they drive.

  A node is the list of its entries. An entry is identified by its address; the peer of an entry is looked
  up in a table of peers. The multipath lists (\<^verbatim>\<open>bgpd/bgp_mpath.c\<close>) are not modelled: the selection is that of
  a process with the default of one path, in which they stay empty.
\<close>

definition BGP_ATTR_MULTI_EXIT_DISC :: nat where "BGP_ATTR_MULTI_EXIT_DISC = 4"
definition BGP_ATTR_LOCAL_PREF :: nat where "BGP_ATTR_LOCAL_PREF = 5"
definition BGP_ATTR_ORIGINATOR_ID :: nat where "BGP_ATTR_ORIGINATOR_ID = 9"
definition BGP_ATTR_CLUSTER_LIST :: nat where "BGP_ATTR_CLUSTER_LIST = 10"
definition BGP_MED_MAX :: u32 where "BGP_MED_MAX = 0xFFFFFFFF"

definition ATTR_FLAG_BIT :: "nat \<Rightarrow> u32" where
  "ATTR_FLAG_BIT x = push_bit (x - 1) 1"

record attr_extra =
  weight :: u32
  originator_id :: u32
  cluster_length :: "int option"

record attr =
  attr_aspath :: aspath
  extra :: "attr_extra option"
  attr_flag :: u32
  med :: u32
  local_pref :: u32
  origin :: u8

definition BGP_INFO_IGP_CHANGED :: u16 where "BGP_INFO_IGP_CHANGED = 1"
definition BGP_INFO_DAMPED :: u16 where "BGP_INFO_DAMPED = 2"
definition BGP_INFO_HISTORY :: u16 where "BGP_INFO_HISTORY = 4"
definition BGP_INFO_SELECTED :: u16 where "BGP_INFO_SELECTED = 8"
definition BGP_INFO_VALID :: u16 where "BGP_INFO_VALID = 16"
definition BGP_INFO_ATTR_CHANGED :: u16 where "BGP_INFO_ATTR_CHANGED = 32"
definition BGP_INFO_DMED_CHECK :: u16 where "BGP_INFO_DMED_CHECK = 64"
definition BGP_INFO_DMED_SELECTED :: u16 where "BGP_INFO_DMED_SELECTED = 128"
definition BGP_INFO_STALE :: u16 where "BGP_INFO_STALE = 256"
definition BGP_INFO_REMOVED :: u16 where "BGP_INFO_REMOVED = 512"
definition BGP_INFO_COUNTED :: u16 where "BGP_INFO_COUNTED = 1024"
definition BGP_INFO_MULTIPATH :: u16 where "BGP_INFO_MULTIPATH = 2048"
definition BGP_INFO_MULTIPATH_CHG :: u16 where "BGP_INFO_MULTIPATH_CHG = 4096"

definition BGP_INFO_UNUSEABLE :: u16 where
  "BGP_INFO_UNUSEABLE = BGP_INFO_HISTORY OR BGP_INFO_DAMPED OR BGP_INFO_REMOVED"

definition BGP_ROUTE_NORMAL :: u8 where "BGP_ROUTE_NORMAL = 0"
definition BGP_ROUTE_STATIC :: u8 where "BGP_ROUTE_STATIC = 1"
definition BGP_ROUTE_AGGREGATE :: u8 where "BGP_ROUTE_AGGREGATE = 2"
definition BGP_ROUTE_REDISTRIBUTE :: u8 where "BGP_ROUTE_REDISTRIBUTE = 3"

record bgp_info =
  bi_peer :: nat
  bi_attr :: attr
  igpmetric :: "u32 option"
  bi_lock :: nat
  bi_flags :: u16
  bi_type :: u8
  sub_type :: u8

definition BGP_INFO_HOLDDOWN :: "bgp_info \<Rightarrow> bool" where
  "BGP_INFO_HOLDDOWN bi \<longleftrightarrow>
     \<not> CHECK_FLAG (bi_flags bi) BGP_INFO_VALID \<or> CHECK_FLAG (bi_flags bi) BGP_INFO_UNUSEABLE"

subsection \<open>Comparing two paths\<close>

definition bgp_med_value :: "attr \<Rightarrow> bgp \<Rightarrow> u32" where
  "bgp_med_value a b =
     (if CHECK_FLAG (attr_flag a) (ATTR_FLAG_BIT BGP_ATTR_MULTI_EXIT_DISC) then med a
      else if bgp_flag_check b BGP_FLAG_MED_MISSING_AS_WORST then BGP_MED_MAX else 0)"

definition info_weight :: "bgp_info \<Rightarrow> u32" where
  "info_weight bi = (case extra (bi_attr bi) of None \<Rightarrow> 0 | Some e \<Rightarrow> weight e)"

definition info_pref :: "bgp \<Rightarrow> bgp_info \<Rightarrow> u32" where
  "info_pref b bi =
     (if CHECK_FLAG (attr_flag (bi_attr bi)) (ATTR_FLAG_BIT BGP_ATTR_LOCAL_PREF)
      then local_pref (bi_attr bi) else default_local_pref b)"

definition info_hops :: "bgp \<Rightarrow> bgp_info \<Rightarrow> nat" where
  "info_hops b bi =
     (if bgp_flag_check b BGP_FLAG_ASPATH_CONFED
      then aspath_count_hops (attr_aspath (bi_attr bi)) + aspath_count_confeds (attr_aspath (bi_attr bi))
      else aspath_count_hops (attr_aspath (bi_attr bi)))"

text \<open>Whether two paths were learnt from the same neighbouring AS.\<close>

definition same_neighbour :: "bgp_info \<Rightarrow> bgp_info \<Rightarrow> bool res" where
  "same_neighbour bi1 bi2 =
     bindE (aspath_cmp_left (Some (attr_aspath (bi_attr bi1))) (Some (attr_aspath (bi_attr bi2)))) (\<lambda>left.
       if left then Inr True
       else aspath_cmp_left_confed (Some (attr_aspath (bi_attr bi1))) (Some (attr_aspath (bi_attr bi2))))"

definition compare_med :: "bgp \<Rightarrow> bgp_info \<Rightarrow> bgp_info \<Rightarrow> bool res" where
  "compare_med b new exist =
     (let np = attr_aspath (bi_attr new); ep = attr_aspath (bi_attr exist);
          internal_as_route = (aspath_count_hops np = 0 \<and> aspath_count_hops ep = 0);
          confed_as_route = (aspath_count_confeds np > 0 \<and> aspath_count_confeds ep > 0 \<and>
            aspath_count_hops np = 0 \<and> aspath_count_hops ep = 0)
      in if bgp_flag_check b BGP_FLAG_ALWAYS_COMPARE_MED \<or> (bgp_flag_check b BGP_FLAG_MED_CONFED \<and> confed_as_route)
         then Inr True
         else bindE (same_neighbour new exist) (\<lambda>same. Inr (same \<or> internal_as_route)))"

definition info_metric :: "bgp_info \<Rightarrow> u32" where
  "info_metric bi = (case igpmetric bi of None \<Rightarrow> 0 | Some m \<Rightarrow> m)"

definition info_id :: "(nat \<Rightarrow> peer) \<Rightarrow> bgp_info \<Rightarrow> u32 res" where
  "info_id peers bi =
     (if CHECK_FLAG (attr_flag (bi_attr bi)) (ATTR_FLAG_BIT BGP_ATTR_ORIGINATOR_ID)
      then case extra (bi_attr bi) of None \<Rightarrow> Inl NullDeref | Some e \<Rightarrow> Inr (originator_id e)
      else Inr (remote_id (peers (bi_peer bi))))"

definition info_cluster :: "bgp_info \<Rightarrow> int res" where
  "info_cluster bi =
     (if CHECK_FLAG (attr_flag (bi_attr bi)) (ATTR_FLAG_BIT BGP_ATTR_CLUSTER_LIST)
      then case extra (bi_attr bi) of
             None \<Rightarrow> Inl NullDeref
           | Some e \<Rightarrow> (case cluster_length e of None \<Rightarrow> Inl NullDeref | Some n \<Rightarrow> Inr n)
      else Inr 0)"

text \<open>The last steps, when no earlier step decided: the oldest external path, the router identifier, the
  length of the cluster list and the address of the neighbour.\<close>

definition cmp_tail :: "bgp \<Rightarrow> (nat \<Rightarrow> peer) \<Rightarrow> bgp_info \<Rightarrow> bgp_info \<Rightarrow> bool res" where
  "cmp_tail b peers new exist =
     (let external = (\<not> bgp_flag_check b BGP_FLAG_COMPARE_ROUTER_ID \<and>
            peer_sort b (peers (bi_peer new)) = BGP_PEER_EBGP \<and> peer_sort b (peers (bi_peer exist)) = BGP_PEER_EBGP)
      in if external \<and> CHECK_FLAG (bi_flags new) BGP_INFO_SELECTED then Inr True
         else if external \<and> CHECK_FLAG (bi_flags exist) BGP_INFO_SELECTED then Inr False
         else bindE (info_id peers new) (\<lambda>new_id.
              bindE (info_id peers exist) (\<lambda>exist_id.
                if new_id < exist_id then Inr True
                else if new_id > exist_id then Inr False
                else bindE (info_cluster new) (\<lambda>new_cluster.
                     bindE (info_cluster exist) (\<lambda>exist_cluster.
                       if new_cluster < exist_cluster then Inr True
                       else if new_cluster > exist_cluster then Inr False
                       else case (su_remote (peers (bi_peer new)), su_remote (peers (bi_peer exist))) of
                              (Some su1, Some su2) \<Rightarrow> Inr (sockunion_cmp su1 su2 \<noteq> 1)
                            | _ \<Rightarrow> Inl NullDeref)))))"

text \<open>The result and \<^verbatim>\<open>*paths_eq\<close>.\<close>

definition bgp_info_cmp ::
  "bgp \<Rightarrow> (nat \<Rightarrow> peer) \<Rightarrow> bgp_info option \<Rightarrow> bgp_info option \<Rightarrow> (bool \<times> bool) res" where
  "bgp_info_cmp b peers new0 exist0 =
     (case (new0, exist0) of
        (None, _) \<Rightarrow> Inr (False, False)
      | (Some new, None) \<Rightarrow> Inr (True, False)
      | (Some new, Some exist) \<Rightarrow>
          let new_sort = peer_sort b (peers (bi_peer new)); exist_sort = peer_sort b (peers (bi_peer exist));
              new_med = bgp_med_value (bi_attr new) b; exist_med = bgp_med_value (bi_attr exist) b in
          if info_weight new > info_weight exist then Inr (True, False)
          else if info_weight new < info_weight exist then Inr (False, False)
          else if info_pref b new > info_pref b exist then Inr (True, False)
          else if info_pref b new < info_pref b exist then Inr (False, False)
          else if sub_type new = BGP_ROUTE_STATIC then Inr (True, False)
          else if sub_type exist = BGP_ROUTE_STATIC then Inr (False, False)
          else if sub_type new = BGP_ROUTE_REDISTRIBUTE then Inr (True, False)
          else if sub_type exist = BGP_ROUTE_REDISTRIBUTE then Inr (False, False)
          else if sub_type new = BGP_ROUTE_AGGREGATE then Inr (True, False)
          else if sub_type exist = BGP_ROUTE_AGGREGATE then Inr (False, False)
          else if \<not> bgp_flag_check b BGP_FLAG_ASPATH_IGNORE \<and> info_hops b new < info_hops b exist then Inr (True, False)
          else if \<not> bgp_flag_check b BGP_FLAG_ASPATH_IGNORE \<and> info_hops b new > info_hops b exist then Inr (False, False)
          else if origin (bi_attr new) < origin (bi_attr exist) then Inr (True, False)
          else if origin (bi_attr new) > origin (bi_attr exist) then Inr (False, False)
          else bindE (compare_med b new exist) (\<lambda>do_med.
            if do_med \<and> new_med < exist_med then Inr (True, False)
            else if do_med \<and> new_med > exist_med then Inr (False, False)
            else if new_sort = BGP_PEER_EBGP \<and> exist_sort = BGP_PEER_IBGP then Inr (True, False)
            else if new_sort = BGP_PEER_EBGP \<and> exist_sort = BGP_PEER_CONFED then Inr (True, False)
            else if new_sort = BGP_PEER_IBGP \<and> exist_sort = BGP_PEER_EBGP then Inr (False, False)
            else if new_sort = BGP_PEER_CONFED \<and> exist_sort = BGP_PEER_EBGP then Inr (False, False)
            else if info_metric new < info_metric exist then Inr (True, False)
            else if info_metric new > info_metric exist then Inr (False, False)
            else let paths_eq =
                       (if new_sort = BGP_PEER_IBGP
                        then aspath_cmp (attr_aspath (bi_attr new)) (attr_aspath (bi_attr exist))
                        else peer_as (peers (bi_peer new)) = peer_as (peers (bi_peer exist)))
                 in bindE (cmp_tail b peers new exist) (\<lambda>r. Inr (r, paths_eq))))"

subsection \<open>The entries of a node\<close>

text \<open>
  The memory of a node: the entries by address, the list of the node's entries, its reference count, whether both
  of its links in the tree are set, whether the node has been freed, its flags, whether its table is the
  main table, the reference counts of the instance and of the table, and of the peers the reference and prefix
  counts. The calls to the update and kernel interfaces are recorded in order.

  An access to a node that has been freed is a fault. It is checked where the code may hold a node without
  entries: when an entry is added, when a reference is taken or given back, and when processing ends. Every entry of the list
  holds a reference, so a node that is reached through one of its entries is live.
\<close>

datatype announcement = AnnounceSelected nat "nat option" | ZebraAnnounce nat | ZebraWithdraw nat

record rib =
  infos :: "nat \<Rightarrow> bgp_info option"
  bn_info :: "nat list"
  bn_lock :: nat
  bn_both :: bool
  bn_live :: bool
  bn_scheduled :: bool
  table_main :: bool
  bgp_refs :: nat
  table_refs :: nat
  peer_locks :: "nat \<Rightarrow> nat"
  pcount :: "nat \<Rightarrow> u64"
  calls :: "announcement list"

definition get_info :: "rib \<Rightarrow> nat \<Rightarrow> bgp_info res" where
  "get_info s a = (case infos s a of None \<Rightarrow> Inl NullDeref | Some bi \<Rightarrow> Inr bi)"

definition set_info :: "nat \<Rightarrow> bgp_info \<Rightarrow> rib \<Rightarrow> rib" where
  "set_info a bi s = s\<lparr>infos := (infos s)(a \<mapsto> bi)\<rparr>"

definition set_bits :: "nat \<Rightarrow> u16 \<Rightarrow> rib \<Rightarrow> rib res" where
  "set_bits a f s = bindE (get_info s a) (\<lambda>ri. Inr (set_info a (ri\<lparr>bi_flags := SET_FLAG (bi_flags ri) f\<rparr>) s))"

definition unset_bits :: "nat \<Rightarrow> u16 \<Rightarrow> rib \<Rightarrow> rib res" where
  "unset_bits a f s = bindE (get_info s a) (\<lambda>ri. Inr (set_info a (ri\<lparr>bi_flags := UNSET_FLAG (bi_flags ri) f\<rparr>) s))"

definition bgp_pcount_adjust :: "bgp \<Rightarrow> nat \<Rightarrow> rib \<Rightarrow> rib res" where
  "bgp_pcount_adjust b a s =
     bindE (get_info s a) (\<lambda>ri.
       let p = bi_peer ri in
       if \<not> table_main s \<or> p = peer_self b then Inr s
       else if BGP_INFO_HOLDDOWN ri \<and> CHECK_FLAG (bi_flags ri) BGP_INFO_COUNTED
       then bindE (unset_bits a BGP_INFO_COUNTED s) (\<lambda>s.
              Inr (if pcount s p \<noteq> 0 then s\<lparr>pcount := (pcount s)(p := pcount s p - 1)\<rparr> else s))
       else if \<not> BGP_INFO_HOLDDOWN ri \<and> \<not> CHECK_FLAG (bi_flags ri) BGP_INFO_COUNTED
       then bindE (set_bits a BGP_INFO_COUNTED s) (\<lambda>s.
              Inr (s\<lparr>pcount := (pcount s)(p := pcount s p + 1)\<rparr>))
       else Inr s)"

definition bgp_info_set_flag :: "bgp \<Rightarrow> nat \<Rightarrow> u16 \<Rightarrow> rib \<Rightarrow> rib res" where
  "bgp_info_set_flag b a flag s =
     bindE (set_bits a flag s) (\<lambda>s.
       if \<not> CHECK_FLAG flag (BGP_INFO_VALID OR BGP_INFO_UNUSEABLE) then Inr s else bgp_pcount_adjust b a s)"

definition bgp_info_unset_flag :: "bgp \<Rightarrow> nat \<Rightarrow> u16 \<Rightarrow> rib \<Rightarrow> rib res" where
  "bgp_info_unset_flag b a flag s =
     bindE (unset_bits a flag s) (\<lambda>s.
       if \<not> CHECK_FLAG flag (BGP_INFO_VALID OR BGP_INFO_UNUSEABLE) then Inr s else bgp_pcount_adjust b a s)"

definition bgp_info_delete :: "bgp \<Rightarrow> nat \<Rightarrow> rib \<Rightarrow> rib res" where
  "bgp_info_delete b a s = bindE (bgp_info_set_flag b a BGP_INFO_REMOVED s) (unset_bits a BGP_INFO_VALID)"

definition bgp_info_restore :: "bgp \<Rightarrow> nat \<Rightarrow> rib \<Rightarrow> rib res" where
  "bgp_info_restore b a s = bindE (bgp_info_unset_flag b a BGP_INFO_REMOVED s) (set_bits a BGP_INFO_VALID)"

text \<open>References. The peer, the instance or the table whose last reference goes is freed by code outside this
  model; the attributes of an entry are shared values.\<close>

definition peer_lock :: "nat \<Rightarrow> rib \<Rightarrow> rib" where
  "peer_lock p s = s\<lparr>peer_locks := (peer_locks s)(p := peer_locks s p + 1)\<rparr>"

definition peer_unlock :: "nat \<Rightarrow> rib \<Rightarrow> rib res" where
  "peer_unlock p s =
     bindE (assertE (peer_locks s p > 0)) (\<lambda>_. Inr (s\<lparr>peer_locks := (peer_locks s)(p := peer_locks s p - 1)\<rparr>))"

definition bgp_info_lock :: "nat \<Rightarrow> rib \<Rightarrow> rib res" where
  "bgp_info_lock a s = bindE (get_info s a) (\<lambda>bi. Inr (set_info a (bi\<lparr>bi_lock := bi_lock bi + 1\<rparr>) s))"

definition bgp_info_free :: "nat \<Rightarrow> rib \<Rightarrow> rib res" where
  "bgp_info_free a s =
     bindE (get_info s a) (\<lambda>bi.
     bindE (peer_unlock (bi_peer bi) s) (\<lambda>s. Inr (s\<lparr>infos := (infos s)(a := None)\<rparr>)))"

definition bgp_info_unlock :: "nat \<Rightarrow> rib \<Rightarrow> rib res" where
  "bgp_info_unlock a s =
     bindE (get_info s a) (\<lambda>bi.
     bindE (assertE (bi_lock bi > 0)) (\<lambda>_.
       let s = set_info a (bi\<lparr>bi_lock := bi_lock bi - 1\<rparr>) s in
       if bi_lock bi - 1 = 0 then bgp_info_free a s else Inr s))"

definition node_access :: "rib \<Rightarrow> unit res" where
  "node_access s = (if bn_live s then Inr () else Inl NullDeref)"

definition bgp_lock_node :: "rib \<Rightarrow> rib res" where
  "bgp_lock_node s = bindE (node_access s) (\<lambda>_. Inr (s\<lparr>bn_lock := bn_lock s + 1\<rparr>))"

text \<open>A node without references is taken out of the tree and freed, unless it joins two subtrees. The links of its
  neighbours, the node count of the table and a parent that is freed with it are outside the node.\<close>

definition bgp_node_delete :: "rib \<Rightarrow> rib res" where
  "bgp_node_delete s =
     bindE (assertE (bn_lock s = 0)) (\<lambda>_.
     bindE (assertE (bn_info s = [])) (\<lambda>_.
       Inr (if bn_both s then s else s\<lparr>bn_live := False\<rparr>)))"

definition bgp_unlock_node :: "rib \<Rightarrow> rib res" where
  "bgp_unlock_node s =
     bindE (node_access s) (\<lambda>_.
     bindE (assertE (bn_lock s > 0)) (\<lambda>_.
       let s = s\<lparr>bn_lock := bn_lock s - 1\<rparr> in
       if bn_lock s = 0 then bgp_node_delete s else Inr s))"

definition bgp_info_add :: "nat \<Rightarrow> rib \<Rightarrow> rib res" where
  "bgp_info_add a s =
     bindE (node_access s) (\<lambda>_.
     bindE (get_info s a) (\<lambda>ri.
     bindE (bgp_info_lock a (s\<lparr>bn_info := a # bn_info s\<rparr>)) (\<lambda>s.
     bindE (bgp_lock_node s) (\<lambda>s.
       Inr (peer_lock (bi_peer ri) s)))))"

definition bgp_info_reap :: "nat \<Rightarrow> rib \<Rightarrow> rib res" where
  "bgp_info_reap a s =
     bindE (bgp_info_unlock a (s\<lparr>bn_info := remove1 a (bn_info s)\<rparr>)) bgp_unlock_node"

subsection \<open>Selection of the best path\<close>

definition holds :: "rib \<Rightarrow> nat \<Rightarrow> u16 \<Rightarrow> bool res" where
  "holds s a f = bindE (get_info s a) (\<lambda>bi. Inr (CHECK_FLAG (bi_flags bi) f))"

text \<open>The inner loop over the entries after \<open>ri1\<close>, which compares those of the same neighbouring AS.\<close>

fun dmed_inner :: "bgp \<Rightarrow> (nat \<Rightarrow> peer) \<Rightarrow> nat \<Rightarrow> nat list \<Rightarrow> nat \<Rightarrow> rib \<Rightarrow> (nat \<times> rib) res" where
  "dmed_inner b peers ri1 [] new_select s = Inr (new_select, s)"
| "dmed_inner b peers ri1 (ri2 # rest) new_select s =
     bindE (get_info s ri2) (\<lambda>i2.
       if CHECK_FLAG (bi_flags i2) BGP_INFO_DMED_CHECK \<or> BGP_INFO_HOLDDOWN i2
       then dmed_inner b peers ri1 rest new_select s
       else bindE (get_info s ri1) (\<lambda>i1.
            bindE (same_neighbour i1 i2) (\<lambda>same.
              if \<not> same then dmed_inner b peers ri1 rest new_select s
              else bindE (get_info s new_select) (\<lambda>n.
                   bindE (bgp_info_cmp b peers (Some i2) (Some n)) (\<lambda>(better, paths_eq).
                     if better
                     then bindE (bgp_info_unset_flag b new_select BGP_INFO_DMED_SELECTED s) (\<lambda>s.
                          bindE (bgp_info_set_flag b ri2 BGP_INFO_DMED_CHECK s) (\<lambda>s.
                            dmed_inner b peers ri1 rest ri2 s))
                     else bindE (bgp_info_set_flag b ri2 BGP_INFO_DMED_CHECK s) (\<lambda>s.
                            dmed_inner b peers ri1 rest new_select s))))))"

fun dmed_outer :: "bgp \<Rightarrow> (nat \<Rightarrow> peer) \<Rightarrow> nat list \<Rightarrow> rib \<Rightarrow> rib res" where
  "dmed_outer b peers [] s = Inr s"
| "dmed_outer b peers (ri1 # rest) s =
     bindE (get_info s ri1) (\<lambda>i1.
       if CHECK_FLAG (bi_flags i1) BGP_INFO_DMED_CHECK \<or> BGP_INFO_HOLDDOWN i1
       then dmed_outer b peers rest s
       else bindE (dmed_inner b peers ri1 rest ri1 s) (\<lambda>(new_select, s).
            bindE (bgp_info_set_flag b new_select BGP_INFO_DMED_CHECK s) (\<lambda>s.
            bindE (bgp_info_set_flag b new_select BGP_INFO_DMED_SELECTED s) (\<lambda>s.
              dmed_outer b peers rest s))))"

definition get_opt :: "rib \<Rightarrow> nat option \<Rightarrow> bgp_info option res" where
  "get_opt s a = (case a of None \<Rightarrow> Inr None | Some x \<Rightarrow> bindE (get_info s x) (\<lambda>bi. Inr (Some bi)))"

definition select_step ::
  "bgp \<Rightarrow> (nat \<Rightarrow> peer) \<Rightarrow> nat option \<times> nat option \<times> rib \<Rightarrow> nat \<Rightarrow> (nat option \<times> nat option \<times> rib) res" where
  "select_step b peers = (\<lambda>(old, new, s) ri.
     bindE (get_info s ri) (\<lambda>i.
       let old = (if CHECK_FLAG (bi_flags i) BGP_INFO_SELECTED then Some ri else old) in
       if BGP_INFO_HOLDDOWN i
       then if CHECK_FLAG (bi_flags i) BGP_INFO_REMOVED \<and> old \<noteq> Some ri
            then bindE (bgp_info_reap ri s) (\<lambda>s. Inr (old, new, s))
            else Inr (old, new, s)
       else bindE (bgp_info_unset_flag b ri BGP_INFO_DMED_CHECK s) (\<lambda>s.
         if bgp_flag_check b BGP_FLAG_DETERMINISTIC_MED \<and> \<not> CHECK_FLAG (bi_flags i) BGP_INFO_DMED_SELECTED
         then Inr (old, new, s)
         else bindE (bgp_info_unset_flag b ri BGP_INFO_DMED_SELECTED s) (\<lambda>s.
              bindE (get_info s ri) (\<lambda>i.
              bindE (get_opt s new) (\<lambda>n.
              bindE (bgp_info_cmp b peers (Some i) n) (\<lambda>(better, paths_eq).
                Inr (old, if better then Some ri else new, s))))))))"

definition bgp_best_selection :: "bgp \<Rightarrow> (nat \<Rightarrow> peer) \<Rightarrow> rib \<Rightarrow> (nat option \<times> nat option \<times> rib) res" where
  "bgp_best_selection b peers s =
     bindE (if bgp_flag_check b BGP_FLAG_DETERMINISTIC_MED then dmed_outer b peers (bn_info s) s else Inr s) (\<lambda>s.
       foldE (select_step b peers) (None, None, s) (bn_info s))"

subsection \<open>Processing a node\<close>

definition ZEBRA_ROUTE_BGP :: u8 where "ZEBRA_ROUTE_BGP = 9"
definition SAFI_UNICAST :: u8 where "SAFI_UNICAST = 1"
definition SAFI_MULTICAST :: u8 where "SAFI_MULTICAST = 2"

definition record_call :: "announcement \<Rightarrow> rib \<Rightarrow> rib" where
  "record_call c s = s\<lparr>calls := calls s @ [c]\<rparr>"

definition is_bgp_normal :: "rib \<Rightarrow> nat option \<Rightarrow> bool res" where
  "is_bgp_normal s a =
     bindE (get_opt s a) (\<lambda>bi. Inr (case bi of None \<Rightarrow> False
       | Some bi \<Rightarrow> bi_type bi = ZEBRA_ROUTE_BGP \<and> sub_type bi = BGP_ROUTE_NORMAL))"

definition fib_update :: "bgp \<Rightarrow> bool \<Rightarrow> u8 \<Rightarrow> nat option \<Rightarrow> nat option \<Rightarrow> rib \<Rightarrow> rib res" where
  "fib_update b no_fib safi old new s =
     (if (safi = SAFI_UNICAST \<or> safi = SAFI_MULTICAST) \<and> bgp_name b = None \<and> \<not> no_fib
      then bindE (is_bgp_normal s new) (\<lambda>n.
           bindE (if n then Inr False else is_bgp_normal s old) (\<lambda>o'.
             Inr (if n then record_call (ZebraAnnounce (the new)) s
                  else if o' then record_call (ZebraWithdraw (the old)) s else s)))
      else Inr s)"

definition mark_selected :: "bgp \<Rightarrow> nat option \<Rightarrow> nat option \<Rightarrow> rib \<Rightarrow> rib res" where
  "mark_selected b old new s =
     bindE (case old of None \<Rightarrow> Inr s | Some a \<Rightarrow> bgp_info_unset_flag b a BGP_INFO_SELECTED s) (\<lambda>s.
       case new of
         None \<Rightarrow> Inr s
       | Some a \<Rightarrow> bindE (bgp_info_set_flag b a BGP_INFO_SELECTED s) (\<lambda>s.
                   bindE (bgp_info_unset_flag b a BGP_INFO_ATTR_CHANGED s) (unset_bits a BGP_INFO_MULTIPATH_CHG)))"

definition clear_scheduled :: "rib \<Rightarrow> rib res" where
  "clear_scheduled s = bindE (node_access s) (\<lambda>_. Inr (s\<lparr>bn_scheduled := False\<rparr>))"

definition bgp_process_main :: "bgp \<Rightarrow> (nat \<Rightarrow> peer) \<Rightarrow> bool \<Rightarrow> u8 \<Rightarrow> rib \<Rightarrow> rib res" where
  "bgp_process_main b peers no_fib safi s =
     bindE (bgp_best_selection b peers s) (\<lambda>(old, new, s).
     bindE (case old of None \<Rightarrow> Inr False
            | Some a \<Rightarrow> if old = new then bindE (holds s a BGP_INFO_ATTR_CHANGED) (\<lambda>changed. Inr (\<not> changed))
                        else Inr False) (\<lambda>nothing.
       if nothing
       then bindE (holds s (the old) (BGP_INFO_IGP_CHANGED OR BGP_INFO_MULTIPATH_CHG)) (\<lambda>changed.
            bindE (unset_bits (the old) BGP_INFO_MULTIPATH_CHG
                     (if changed then record_call (ZebraAnnounce (the old)) s else s)) (\<lambda>s.
              clear_scheduled s))
       else bindE (mark_selected b old new s) (\<lambda>s.
            bindE (fib_update b no_fib safi old new (fold (\<lambda>p. record_call (AnnounceSelected p new)) (bgp_peers b) s)) (\<lambda>s.
            bindE (case old of None \<Rightarrow> Inr s
                   | Some a \<Rightarrow> bindE (holds s a BGP_INFO_REMOVED) (\<lambda>removed. if removed then bgp_info_reap a s else Inr s)) (\<lambda>s.
              clear_scheduled s)))))"

text \<open>The item of the work queue: it holds a reference to the table, the node and the instance, which are given back
  when the item is removed from the queue.\<close>

datatype process_queue = ProcessMain | ProcessRsclient

definition bgp_process :: "rib \<Rightarrow> (process_queue option \<times> rib) res" where
  "bgp_process s =
     bindE (node_access s) (\<lambda>_.
       if bn_scheduled s then Inr (None, s)
       else let s = s\<lparr>table_refs := table_refs s + 1\<rparr> in
            bindE (bgp_lock_node s) (\<lambda>s.
              let s = s\<lparr>bgp_refs := bgp_refs s + 1\<rparr> in
              Inr (Some (if table_main s then ProcessMain else ProcessRsclient), s)))"

definition bgp_unlock :: "rib \<Rightarrow> rib res" where
  "bgp_unlock s = bindE (assertE (bgp_refs s > 0)) (\<lambda>_. Inr (s\<lparr>bgp_refs := bgp_refs s - 1\<rparr>))"

definition bgp_table_unlock :: "rib \<Rightarrow> rib res" where
  "bgp_table_unlock s = bindE (assertE (table_refs s > 0)) (\<lambda>_. Inr (s\<lparr>table_refs := table_refs s - 1\<rparr>))"

definition bgp_processq_del :: "rib \<Rightarrow> rib res" where
  "bgp_processq_del s =
     bindE (node_access s) (\<lambda>_.
     bindE (bgp_unlock s) (\<lambda>s.
     bindE (bgp_unlock_node s) bgp_table_unlock))"

subsection \<open>The order of paths\<close>

text \<open>
  The decision process as one key per path, compared lexicographically: the smaller key is the better path.
  It describes the comparison when the configuration compares the exit discriminators of all paths
  (\<^verbatim>\<open>bgp always-compare-med\<close>) and the identifiers of external paths (\<^verbatim>\<open>bgp bestpath compare-routerid\<close>).
  Locally originated paths compare by kind only.
\<close>

definition sub_rank :: "bgp_info \<Rightarrow> nat" where
  "sub_rank bi = (if sub_type bi = BGP_ROUTE_STATIC then 0 else if sub_type bi = BGP_ROUTE_REDISTRIBUTE then 1
     else if sub_type bi = BGP_ROUTE_AGGREGATE then 2 else 3)"

definition su_key :: "sockunion \<Rightarrow> nat \<times> nat list" where
  "su_key su = (sa_family su, if sa_family su = AF_INET then [unat (be32 (sin_addr su))]
     else if sa_family su = AF_INET6 then map unat (sin6_addr su) else [])"

type_synonym final_keys = "nat \<times> int \<times> nat \<times> nat list"
type_synonym learnt_keys = "nat \<times> nat \<times> nat \<times> nat \<times> nat \<times> final_keys"

definition final_key :: "(nat \<Rightarrow> peer) \<Rightarrow> bgp_info \<Rightarrow> final_keys" where
  "final_key peers bi =
     (case info_id peers bi of Inl e \<Rightarrow> 0 | Inr i \<Rightarrow> unat i,
      case info_cluster bi of Inl e \<Rightarrow> 0 | Inr n \<Rightarrow> n,
      case su_remote (peers (bi_peer bi)) of None \<Rightarrow> (0, []) | Some su \<Rightarrow> su_key su)"

definition learnt_key :: "bgp \<Rightarrow> (nat \<Rightarrow> peer) \<Rightarrow> bgp_info \<Rightarrow> learnt_keys" where
  "learnt_key b peers bi =
     (if bgp_flag_check b BGP_FLAG_ASPATH_IGNORE then 0 else info_hops b bi,
      unat (origin (bi_attr bi)), unat (bgp_med_value (bi_attr bi) b),
      if peer_sort b (peers (bi_peer bi)) = BGP_PEER_EBGP then 0 else 1,
      unat (info_metric bi), final_key peers bi)"

definition info_key :: "bgp \<Rightarrow> (nat \<Rightarrow> peer) \<Rightarrow> bgp_info \<Rightarrow> int \<times> int \<times> nat \<times> learnt_keys" where
  "info_key b peers bi =
     (- uint (info_weight bi), - uint (info_pref b bi), sub_rank bi,
      if sub_rank bi < 3 then (0, 0, 0, 0, 0, 0, 0, 0, []) else learnt_key b peers bi)"

definition su_ok :: "sockunion \<Rightarrow> bool" where
  "su_ok su \<longleftrightarrow> sa_family su = AF_INET6 \<longrightarrow> length (sin6_addr su) = 16"

text \<open>What the rest of the daemon guarantees of an entry: the flags of optional attributes are truthful, a
  learnt path has a peer of a known sort whose address is known, and no segment of its AS path is empty.\<close>

definition info_ok :: "bgp \<Rightarrow> (nat \<Rightarrow> peer) \<Rightarrow> bgp_info \<Rightarrow> bool" where
  "info_ok b peers bi \<longleftrightarrow>
     (CHECK_FLAG (attr_flag (bi_attr bi)) (ATTR_FLAG_BIT BGP_ATTR_ORIGINATOR_ID) \<longrightarrow> extra (bi_attr bi) \<noteq> None) \<and>
     (CHECK_FLAG (attr_flag (bi_attr bi)) (ATTR_FLAG_BIT BGP_ATTR_CLUSTER_LIST) \<longrightarrow>
        (\<exists>e n. extra (bi_attr bi) = Some e \<and> cluster_length e = Some n)) \<and>
     (sub_rank bi = 3 \<longrightarrow> peer_sort b (peers (bi_peer bi)) \<noteq> BGP_PEER_INTERNAL \<and>
        (\<exists>su. su_remote (peers (bi_peer bi)) = Some su \<and> su_ok su)) \<and>
     (\<forall>seg\<in>set (segments (attr_aspath (bi_attr bi))). seg_as seg \<noteq> [])"

lemma in6addr_cmp_key:
  "length as = length bs \<Longrightarrow> in6addr_cmp as bs \<noteq> 1 \<longleftrightarrow> map unat as \<le> map unat bs"
proof (induction as bs rule: in6addr_cmp.induct)
  case (1 a as b bs)
  then show ?case by (auto simp: word_less_nat_alt word_le_nat_alt)
qed auto

lemma sockunion_cmp_key:
  assumes "su_ok su1" "su_ok su2"
  shows "sockunion_cmp su1 su2 \<noteq> 1 \<longleftrightarrow> su_key su1 \<le> su_key su2"
  using assms in6addr_cmp_key[of "sin6_addr su1" "sin6_addr su2"]
  by (auto simp: sockunion_cmp_def su_key_def su_ok_def word_less_nat_alt AF_INET_def AF_INET6_def)

lemma info_id_total: "info_ok b peers bi \<Longrightarrow> \<exists>i. info_id peers bi = Inr i"
  by (auto simp: info_ok_def info_id_def)

lemma info_cluster_total: "info_ok b peers bi \<Longrightarrow> \<exists>n. info_cluster bi = Inr n"
  by (auto simp: info_ok_def info_cluster_def)

lemma cmp_tail_key:
  assumes "bgp_flag_check b BGP_FLAG_COMPARE_ROUTER_ID" "info_ok b peers n" "info_ok b peers e"
    "sub_rank n = 3" "sub_rank e = 3"
  shows "cmp_tail b peers n e = Inr (final_key peers n \<le> final_key peers e)"
proof -
  obtain i j where "info_id peers n = Inr i" "info_id peers e = Inr j" using info_id_total assms(2,3) by blast
  moreover obtain c d where "info_cluster n = Inr c" "info_cluster e = Inr d" using info_cluster_total assms(2,3) by blast
  moreover obtain u v where "su_remote (peers (bi_peer n)) = Some u" "su_remote (peers (bi_peer e)) = Some v" "su_ok u" "su_ok v"
    using assms(2-5) by (auto simp: info_ok_def)
  ultimately show ?thesis
    using assms(1) sockunion_cmp_key[of u v] by (auto simp: cmp_tail_def final_key_def word_less_nat_alt)
qed

lemma compare_med_always: "bgp_flag_check b BGP_FLAG_ALWAYS_COMPARE_MED \<Longrightarrow> compare_med b n e = Inr True"
  by (simp add: compare_med_def)

lemma lex_step:
  fixes x y :: "'a :: linorder" and u v :: "'b :: linorder"
  shows "((x, u) \<le> (y, v)) = (if x < y then True else if y < x then False else u \<le> v)"
  by auto

definition prefers :: "bgp \<Rightarrow> (nat \<Rightarrow> peer) \<Rightarrow> bgp_info \<Rightarrow> bgp_info \<Rightarrow> bool res" where
  "prefers b peers n e = bindE (bgp_info_cmp b peers (Some n) (Some e)) (\<lambda>(r, q). Inr r)"

lemma cmp_local:
  assumes "info_weight n = info_weight e" "info_pref b n = info_pref b e" "sub_rank n \<noteq> 3 \<or> sub_rank e \<noteq> 3"
  shows "prefers b peers n e = Inr (info_key b peers n \<le> info_key b peers e)"
proof -
  have key: "info_key b peers n \<le> info_key b peers e \<longleftrightarrow> sub_rank n \<le> sub_rank e"
    using assms by (auto simp: info_key_def sub_rank_def split: if_splits)
  have "prefers b peers n e = Inr (sub_rank n \<le> sub_rank e)"
  proof (cases "sub_rank n = 3")
    case True
    then have "sub_type n \<noteq> BGP_ROUTE_STATIC" "sub_type n \<noteq> BGP_ROUTE_REDISTRIBUTE" "sub_type n \<noteq> BGP_ROUTE_AGGREGATE"
      "sub_type e = BGP_ROUTE_STATIC \<or> sub_type e = BGP_ROUTE_REDISTRIBUTE \<or> sub_type e = BGP_ROUTE_AGGREGATE"
      using assms(3) by (auto simp: sub_rank_def split: if_splits)
    then show ?thesis using assms(1,2) by (elim disjE) (simp_all add: prefers_def bgp_info_cmp_def sub_rank_def)
  next
    case False
    then have "sub_type n = BGP_ROUTE_STATIC \<or> sub_type n = BGP_ROUTE_REDISTRIBUTE \<or> sub_type n = BGP_ROUTE_AGGREGATE"
      by (auto simp: sub_rank_def split: if_splits)
    then show ?thesis using assms(1,2)
      by (elim disjE) (simp_all add: prefers_def bgp_info_cmp_def sub_rank_def BGP_ROUTE_STATIC_def BGP_ROUTE_REDISTRIBUTE_def BGP_ROUTE_AGGREGATE_def)
  qed
  then show ?thesis unfolding key .
qed

lemma cmp_learnt:
  assumes "bgp_flag_check b BGP_FLAG_ALWAYS_COMPARE_MED" "bgp_flag_check b BGP_FLAG_COMPARE_ROUTER_ID"
    "info_ok b peers n" "info_ok b peers e"
    "info_weight n = info_weight e" "info_pref b n = info_pref b e" "sub_rank n = 3" "sub_rank e = 3"
  shows "prefers b peers n e = Inr (info_key b peers n \<le> info_key b peers e)"
proof -
  have sub: "sub_type n \<noteq> BGP_ROUTE_STATIC" "sub_type n \<noteq> BGP_ROUTE_REDISTRIBUTE" "sub_type n \<noteq> BGP_ROUTE_AGGREGATE"
    "sub_type e \<noteq> BGP_ROUTE_STATIC" "sub_type e \<noteq> BGP_ROUTE_REDISTRIBUTE" "sub_type e \<noteq> BGP_ROUTE_AGGREGATE"
    using assms(7,8) by (auto simp: sub_rank_def split: if_splits)
  have sorts: "peer_sort b (peers (bi_peer n)) \<noteq> BGP_PEER_INTERNAL" "peer_sort b (peers (bi_peer e)) \<noteq> BGP_PEER_INTERNAL"
    using assms(3,4,7,8) by (auto simp: info_ok_def)
  show ?thesis
    using sub sorts assms(5-8) cmp_tail_key[OF assms(2-4,7,8)] compare_med_always[OF assms(1)]
    by (cases "peer_sort b (peers (bi_peer n))"; cases "peer_sort b (peers (bi_peer e))")
      (simp_all add: prefers_def bgp_info_cmp_def info_key_def learnt_key_def Let_def lex_step word_less_nat_alt)
qed

lemma cmp_key:
  assumes "bgp_flag_check b BGP_FLAG_ALWAYS_COMPARE_MED" "bgp_flag_check b BGP_FLAG_COMPARE_ROUTER_ID"
    "info_ok b peers n" "info_ok b peers e"
  shows "prefers b peers n e = Inr (info_key b peers n \<le> info_key b peers e)"
proof -
  consider (weight) "info_weight n < info_weight e \<or> info_weight e < info_weight n"
    | (pref) "info_weight n = info_weight e" "info_pref b n < info_pref b e \<or> info_pref b e < info_pref b n"
    | (local) "info_weight n = info_weight e" "info_pref b n = info_pref b e" "sub_rank n \<noteq> 3 \<or> sub_rank e \<noteq> 3"
    | (learnt) "info_weight n = info_weight e" "info_pref b n = info_pref b e" "sub_rank n = 3" "sub_rank e = 3"
    by fastforce
  then show ?thesis
  proof cases
    case weight
    then show ?thesis
    proof
      assume "info_weight n < info_weight e"
      then show ?thesis by (simp add: prefers_def bgp_info_cmp_def info_key_def word_less_def)
    next
      assume "info_weight e < info_weight n"
      then show ?thesis by (simp add: prefers_def bgp_info_cmp_def info_key_def word_less_def)
    qed
  next
    case pref
    from pref(2) show ?thesis
    proof
      assume "info_pref b n < info_pref b e"
      then show ?thesis using pref(1) by (simp add: prefers_def bgp_info_cmp_def info_key_def word_less_def)
    next
      assume "info_pref b e < info_pref b n"
      then show ?thesis using pref(1) by (simp add: prefers_def bgp_info_cmp_def info_key_def word_less_def)
    qed
  next
    case local
    then show ?thesis by (rule cmp_local)
  next
    case learnt
    then show ?thesis using cmp_learnt[OF assms] by blast
  qed
qed

subsection \<open>Flags\<close>

lemmas info_flag_defs = BGP_INFO_IGP_CHANGED_def BGP_INFO_DAMPED_def BGP_INFO_HISTORY_def BGP_INFO_SELECTED_def
  BGP_INFO_VALID_def BGP_INFO_ATTR_CHANGED_def BGP_INFO_DMED_CHECK_def BGP_INFO_DMED_SELECTED_def BGP_INFO_STALE_def
  BGP_INFO_REMOVED_def BGP_INFO_COUNTED_def BGP_INFO_MULTIPATH_CHG_def

lemma CHECK_FLAG_exp: "CHECK_FLAG v (2 ^ k) \<longleftrightarrow> bit v k"
  by (simp add: CHECK_FLAG_def and_exp_eq_0_iff_not_bit)

lemma CHECK_FLAG_or: "CHECK_FLAG v (f OR g) \<longleftrightarrow> CHECK_FLAG v f \<or> CHECK_FLAG v g"
  by (simp add: CHECK_FLAG_def bit.conj_disj_distrib or_eq_0_iff)

lemma check_bits:
  "CHECK_FLAG v BGP_INFO_IGP_CHANGED \<longleftrightarrow> bit v 0"
  "CHECK_FLAG v BGP_INFO_DAMPED \<longleftrightarrow> bit v 1"
  "CHECK_FLAG v BGP_INFO_HISTORY \<longleftrightarrow> bit v 2"
  "CHECK_FLAG v BGP_INFO_SELECTED \<longleftrightarrow> bit v 3"
  "CHECK_FLAG v BGP_INFO_VALID \<longleftrightarrow> bit v 4"
  "CHECK_FLAG v BGP_INFO_ATTR_CHANGED \<longleftrightarrow> bit v 5"
  "CHECK_FLAG v BGP_INFO_DMED_CHECK \<longleftrightarrow> bit v 6"
  "CHECK_FLAG v BGP_INFO_DMED_SELECTED \<longleftrightarrow> bit v 7"
  "CHECK_FLAG v BGP_INFO_STALE \<longleftrightarrow> bit v 8"
  "CHECK_FLAG v BGP_INFO_REMOVED \<longleftrightarrow> bit v 9"
  "CHECK_FLAG v BGP_INFO_COUNTED \<longleftrightarrow> bit v 10"
  "CHECK_FLAG v BGP_INFO_MULTIPATH_CHG \<longleftrightarrow> bit v 12"
  using CHECK_FLAG_exp[of v 0] CHECK_FLAG_exp[of v 1] CHECK_FLAG_exp[of v 2] CHECK_FLAG_exp[of v 3] CHECK_FLAG_exp[of v 4]
    CHECK_FLAG_exp[of v 5] CHECK_FLAG_exp[of v 6] CHECK_FLAG_exp[of v 7] CHECK_FLAG_exp[of v 8] CHECK_FLAG_exp[of v 9]
    CHECK_FLAG_exp[of v 10] CHECK_FLAG_exp[of v 12]
  by (simp_all add: info_flag_defs)

lemma info_flag_exp:
  "BGP_INFO_SELECTED = 2 ^ 3" "BGP_INFO_VALID = 2 ^ 4" "BGP_INFO_ATTR_CHANGED = 2 ^ 5" "BGP_INFO_DMED_CHECK = 2 ^ 6"
  "BGP_INFO_DMED_SELECTED = 2 ^ 7" "BGP_INFO_REMOVED = 2 ^ 9" "BGP_INFO_COUNTED = 2 ^ 10" "BGP_INFO_MULTIPATH_CHG = 2 ^ 12"
  by (simp_all add: info_flag_defs)

lemma set_exp_bit: "bit (SET_FLAG v (2 ^ k)) j \<longleftrightarrow> bit v j \<or> (j = k \<and> k < 16)" for v :: u16
  by (auto simp: SET_FLAG_def bit_or_iff bit_exp_iff)

lemma unset_exp_bit: "bit (UNSET_FLAG v (2 ^ k)) j \<longleftrightarrow> bit v j \<and> j \<noteq> k" for v :: u16
  by (auto simp: UNSET_FLAG_def bit_and_iff bit_not_iff bit_exp_iff dest: bit_imp_le_length)

lemma set_info_bit:
  "bit (SET_FLAG v BGP_INFO_SELECTED) j \<longleftrightarrow> bit v j \<or> j = 3" "bit (SET_FLAG v BGP_INFO_VALID) j \<longleftrightarrow> bit v j \<or> j = 4"
  "bit (SET_FLAG v BGP_INFO_DMED_CHECK) j \<longleftrightarrow> bit v j \<or> j = 6" "bit (SET_FLAG v BGP_INFO_DMED_SELECTED) j \<longleftrightarrow> bit v j \<or> j = 7"
  "bit (SET_FLAG v BGP_INFO_REMOVED) j \<longleftrightarrow> bit v j \<or> j = 9" "bit (SET_FLAG v BGP_INFO_COUNTED) j \<longleftrightarrow> bit v j \<or> j = 10"
  unfolding info_flag_exp set_exp_bit by auto

lemma unset_info_bit:
  "bit (UNSET_FLAG v BGP_INFO_SELECTED) j \<longleftrightarrow> bit v j \<and> j \<noteq> 3" "bit (UNSET_FLAG v BGP_INFO_VALID) j \<longleftrightarrow> bit v j \<and> j \<noteq> 4"
  "bit (UNSET_FLAG v BGP_INFO_ATTR_CHANGED) j \<longleftrightarrow> bit v j \<and> j \<noteq> 5" "bit (UNSET_FLAG v BGP_INFO_DMED_CHECK) j \<longleftrightarrow> bit v j \<and> j \<noteq> 6"
  "bit (UNSET_FLAG v BGP_INFO_DMED_SELECTED) j \<longleftrightarrow> bit v j \<and> j \<noteq> 7" "bit (UNSET_FLAG v BGP_INFO_REMOVED) j \<longleftrightarrow> bit v j \<and> j \<noteq> 9"
  "bit (UNSET_FLAG v BGP_INFO_COUNTED) j \<longleftrightarrow> bit v j \<and> j \<noteq> 10" "bit (UNSET_FLAG v BGP_INFO_MULTIPATH_CHG) j \<longleftrightarrow> bit v j \<and> j \<noteq> 12"
  unfolding info_flag_exp unset_exp_bit by auto

lemmas flag_bits = check_bits set_info_bit unset_info_bit

definition alive :: "bgp_info \<Rightarrow> bool" where
  "alive bi \<longleftrightarrow> \<not> BGP_INFO_HOLDDOWN bi"

lemma alive_bits:
  "alive bi \<longleftrightarrow> bit (bi_flags bi) 4 \<and> \<not> bit (bi_flags bi) 2 \<and> \<not> bit (bi_flags bi) 1 \<and> \<not> bit (bi_flags bi) 9"
  by (auto simp: alive_def BGP_INFO_HOLDDOWN_def BGP_INFO_UNUSEABLE_def CHECK_FLAG_or check_bits)

lemma plain_flags:
  "\<not> CHECK_FLAG BGP_INFO_DMED_CHECK (BGP_INFO_VALID OR BGP_INFO_UNUSEABLE)"
  "\<not> CHECK_FLAG BGP_INFO_DMED_SELECTED (BGP_INFO_VALID OR BGP_INFO_UNUSEABLE)"
  "\<not> CHECK_FLAG BGP_INFO_SELECTED (BGP_INFO_VALID OR BGP_INFO_UNUSEABLE)"
  "\<not> CHECK_FLAG BGP_INFO_ATTR_CHANGED (BGP_INFO_VALID OR BGP_INFO_UNUSEABLE)"
  by (simp_all add: CHECK_FLAG_def BGP_INFO_UNUSEABLE_def info_flag_defs)

lemma set_plain:
  "bgp_info_set_flag b a BGP_INFO_DMED_CHECK s = set_bits a BGP_INFO_DMED_CHECK s"
  "bgp_info_set_flag b a BGP_INFO_DMED_SELECTED s = set_bits a BGP_INFO_DMED_SELECTED s"
  "bgp_info_set_flag b a BGP_INFO_SELECTED s = set_bits a BGP_INFO_SELECTED s"
  "bgp_info_unset_flag b a BGP_INFO_DMED_CHECK s = unset_bits a BGP_INFO_DMED_CHECK s"
  "bgp_info_unset_flag b a BGP_INFO_DMED_SELECTED s = unset_bits a BGP_INFO_DMED_SELECTED s"
  "bgp_info_unset_flag b a BGP_INFO_SELECTED s = unset_bits a BGP_INFO_SELECTED s"
  "bgp_info_unset_flag b a BGP_INFO_ATTR_CHANGED s = unset_bits a BGP_INFO_ATTR_CHANGED s"
  by (simp_all add: bgp_info_set_flag_def bgp_info_unset_flag_def plain_flags)

lemma get_info_Some [simp]: "infos s a = Some bi \<Longrightarrow> get_info s a = Inr bi"
  by (simp add: get_info_def)

lemma set_bits_Some: "infos s a = Some bi \<Longrightarrow> set_bits a f s = Inr (set_info a (bi\<lparr>bi_flags := SET_FLAG (bi_flags bi) f\<rparr>) s)"
  by (simp add: set_bits_def)

lemma unset_bits_Some: "infos s a = Some bi \<Longrightarrow> unset_bits a f s = Inr (set_info a (bi\<lparr>bi_flags := UNSET_FLAG (bi_flags bi) f\<rparr>) s)"
  by (simp add: unset_bits_def)

lemma set_info_simps [simp]:
  "infos (set_info a bi s) = (infos s)(a \<mapsto> bi)" "bn_info (set_info a bi s) = bn_info s" "bn_lock (set_info a bi s) = bn_lock s"
  "bn_scheduled (set_info a bi s) = bn_scheduled s" "table_main (set_info a bi s) = table_main s"
  "bn_both (set_info a bi s) = bn_both s" "bn_live (set_info a bi s) = bn_live s"
  "bgp_refs (set_info a bi s) = bgp_refs s" "table_refs (set_info a bi s) = table_refs s"
  "peer_locks (set_info a bi s) = peer_locks s" "pcount (set_info a bi s) = pcount s" "calls (set_info a bi s) = calls s"
  by (simp_all add: set_info_def)

text \<open>A change of flags at most at the bits \<open>K\<close>, and nothing else.\<close>

definition reflag :: "nat set \<Rightarrow> bgp_info \<Rightarrow> bgp_info \<Rightarrow> bool" where
  "reflag K bi bi' \<longleftrightarrow> bi' = bi\<lparr>bi_flags := bi_flags bi'\<rparr> \<and> (\<forall>k. k \<notin> K \<longrightarrow> bit (bi_flags bi') k = bit (bi_flags bi) k)"

definition reflagged :: "nat set \<Rightarrow> rib \<Rightarrow> rib \<Rightarrow> bool" where
  "reflagged K s s' \<longleftrightarrow> s' = s\<lparr>infos := infos s'\<rparr> \<and> (\<forall>a. rel_option (reflag K) (infos s a) (infos s' a))"

lemma reflag_refl: "reflag K bi bi"
  by (simp add: reflag_def)

lemma reflag_trans: "reflag K x y \<Longrightarrow> reflag K y z \<Longrightarrow> reflag K x z"
  by (cases x; cases y; cases z) (auto simp: reflag_def)

lemma reflagged_refl: "reflagged K s s"
  by (auto simp: reflagged_def reflag_refl option.rel_refl)

lemma reflagged_trans:
  assumes "reflagged K s t" "reflagged K t u" shows "reflagged K s u"
proof -
  have "rel_option (reflag K) (infos s a) (infos u a)" for a
  proof -
    have 1: "rel_option (reflag K) (infos s a) (infos t a)" "rel_option (reflag K) (infos t a) (infos u a)"
      using assms by (auto simp: reflagged_def)
    then show ?thesis by (cases "infos s a"; cases "infos t a"; cases "infos u a") (auto intro: reflag_trans)
  qed
  moreover have "u = s\<lparr>infos := infos u\<rparr>"
    using assms by (cases s; cases t; cases u) (auto simp: reflagged_def)
  ultimately show ?thesis by (simp add: reflagged_def)
qed

lemma reflagged_one:
  assumes "infos s a = Some bi" "\<And>k. k \<notin> K \<Longrightarrow> bit f k = bit (bi_flags bi) k"
  shows "reflagged K s (set_info a (bi\<lparr>bi_flags := f\<rparr>) s)"
  using assms by (auto simp: reflagged_def set_info_def reflag_def option.rel_refl rel_option_iff split: option.splits)

lemma reflaggedD:
  assumes "reflagged K s s'" "infos s a = Some bi"
  obtains bi' where "infos s' a = Some bi'" "reflag K bi bi'"
  using assms by (auto simp: reflagged_def rel_option_iff split: option.splits dest!: spec[of _ a])

lemma reflagged_fields:
  "reflagged K s s' \<Longrightarrow> bn_info s' = bn_info s \<and> bn_lock s' = bn_lock s \<and> bn_scheduled s' = bn_scheduled s \<and>
     bn_both s' = bn_both s \<and> bn_live s' = bn_live s \<and> bgp_refs s' = bgp_refs s \<and> table_refs s' = table_refs s \<and>
     table_main s' = table_main s \<and> peer_locks s' = peer_locks s \<and> pcount s' = pcount s \<and> calls s' = calls s"
  by (cases s; cases s') (auto simp: reflagged_def)

subsection \<open>The deterministic comparison\<close>

definition entry_at :: "rib \<Rightarrow> nat \<Rightarrow> bgp_info" where
  "entry_at s a = the (infos s a)"

abbreviation checked :: "rib \<Rightarrow> nat \<Rightarrow> bool" where
  "checked s a \<equiv> bit (bi_flags (entry_at s a)) 6"

abbreviation winner :: "rib \<Rightarrow> nat \<Rightarrow> bool" where
  "winner s a \<equiv> bit (bi_flags (entry_at s a)) 7"

lemma entry_at_upd [simp]: "entry_at (set_info a bi s) x = (if x = a then bi else entry_at s x)"
  by (simp add: entry_at_def)

lemma reflagged_entry:
  assumes "reflagged K s s'"
  shows "reflag K (entry_at s x) (entry_at s' x)"
  using assms by (auto simp: reflagged_def entry_at_def rel_option_iff reflag_refl split: option.splits dest!: spec[of _ x])

lemma reflag_alive: "reflag {6, 7} x y \<Longrightarrow> alive y = alive x"
  by (simp add: alive_bits reflag_def)

lemma reflagged_alive: "reflagged {6, 7} s s' \<Longrightarrow> alive (entry_at s' x) = alive (entry_at s x)"
  using reflagged_entry reflag_alive by blast

lemma holddown_alive: "BGP_INFO_HOLDDOWN bi \<longleftrightarrow> \<not> alive bi"
  by (simp add: alive_def)

definition inner_result :: "(bgp_info \<Rightarrow> 'k :: linorder) \<Rightarrow> rib \<Rightarrow> nat list \<Rightarrow> nat \<Rightarrow> nat \<times> rib \<Rightarrow> bool" where
  "inner_result key s xs n = (\<lambda>(n', s'). reflagged {6, 7} s s' \<and> (n' = n \<or> n' \<in> set xs) \<and>
     alive (entry_at s n') \<and> key (entry_at s n') \<le> key (entry_at s n) \<and> (\<forall>x. winner s' x = winner s x) \<and>
     \<not> winner s n' \<and> (\<forall>x. checked s x \<longrightarrow> checked s' x) \<and>
     (\<forall>x. checked s' x \<and> \<not> checked s x \<longrightarrow> x \<in> set xs \<and> alive (entry_at s x) \<and> key (entry_at s n') \<le> key (entry_at s x)))"

lemma inner_result_more: "inner_result key s xs n r \<Longrightarrow> inner_result key s (x # xs) n r"
  unfolding inner_result_def by (cases r) (simp, blast)

definition covered :: "(bgp_info \<Rightarrow> 'k :: linorder) \<Rightarrow> rib \<Rightarrow> nat set \<Rightarrow> nat \<Rightarrow> bool" where
  "covered key s L x \<longleftrightarrow> (\<exists>w\<in>L. winner s w \<and> alive (entry_at s w) \<and> key (entry_at s w) \<le> key (entry_at s x))"

definition outer_inv :: "(bgp_info \<Rightarrow> 'k :: linorder) \<Rightarrow> nat set \<Rightarrow> rib \<Rightarrow> bool" where
  "outer_inv key L s \<longleftrightarrow>
     (\<forall>x\<in>L. (winner s x \<longrightarrow> checked s x \<and> alive (entry_at s x)) \<and>
        (checked s x \<longrightarrow> alive (entry_at s x) \<and> covered key s L x))"

text \<open>What the selection needs of the comparison: on valid entries it is a total order of keys that do not
  depend on the flags.\<close>

locale path_order =
  fixes b :: bgp and peers :: "nat \<Rightarrow> peer" and key :: "bgp_info \<Rightarrow> 'k :: linorder" and valid :: "bgp_info \<Rightarrow> bool"
  assumes prefers: "valid n \<Longrightarrow> valid e \<Longrightarrow> prefers b peers n e = Inr (key n \<le> key e)"
    and reflag_key: "reflag K x y \<Longrightarrow> key y = key x \<and> valid y = valid x"
    and neighbour: "valid x \<Longrightarrow> valid y \<Longrightarrow> \<exists>r. same_neighbour x y = Inr r"
begin

lemma cmp_pair: "valid n \<Longrightarrow> valid e \<Longrightarrow> \<exists>q. bgp_info_cmp b peers (Some n) (Some e) = Inr (key n \<le> key e, q)"
  using prefers[of n e] by (cases "bgp_info_cmp b peers (Some n) (Some e)") (auto simp: prefers_def)

lemma reflagged_key: "reflagged K s s' \<Longrightarrow> key (entry_at s' x) = key (entry_at s x) \<and> valid (entry_at s' x) = valid (entry_at s x)"
  using reflagged_entry reflag_key by blast

lemma dmed_inner_spec:
  assumes "infos s ri1 \<noteq> None" "valid (entry_at s ri1)" "infos s n \<noteq> None" "valid (entry_at s n)"
    "\<forall>x\<in>set xs. infos s x \<noteq> None \<and> valid (entry_at s x) \<and> (winner s x \<longrightarrow> checked s x)"
    "distinct xs" "n \<notin> set xs" "alive (entry_at s n)" "\<not> winner s n"
  shows "\<exists>r. dmed_inner b peers ri1 xs n s = Inr r \<and> inner_result key s xs n r"
  using assms
proof (induction xs arbitrary: n s)
  case Nil
  then show ?case by (auto simp: reflagged_refl inner_result_def)
next
  case (Cons ri2 xs)
  obtain i2 where i2: "infos s ri2 = Some i2" "entry_at s ri2 = i2" "valid i2" using Cons.prems(5) by (auto simp: entry_at_def)
  obtain i1 where i1: "infos s ri1 = Some i1" "entry_at s ri1 = i1" "valid i1" using Cons.prems(1,2) by (auto simp: entry_at_def)
  obtain ni where ni: "infos s n = Some ni" "entry_at s n = ni" "valid ni" using Cons.prems(3,4) by (auto simp: entry_at_def)
  obtain same where same: "same_neighbour i1 i2 = Inr same" using neighbour i1(3) i2(3) by blast
  obtain q where q: "bgp_info_cmp b peers (Some i2) (Some ni) = Inr (key i2 \<le> key ni, q)" using cmp_pair i2(3) ni(3) by blast
  have neq: "ri2 \<noteq> n" using Cons.prems(7) by auto
  have skip: ?case if "dmed_inner b peers ri1 (ri2 # xs) n s = dmed_inner b peers ri1 xs n s"
    using Cons.IH[OF Cons.prems(1-4) _ _ _ Cons.prems(8,9)] Cons.prems(5-7) inner_result_more unfolding that by fastforce
  show ?case
  proof (cases "checked s ri2 \<or> \<not> alive i2 \<or> \<not> same")
    case True
    then show ?thesis using skip i1 i2 same by (auto simp: check_bits holddown_alive)
  next
    case False
    define i2' where "i2' = i2\<lparr>bi_flags := SET_FLAG (bi_flags i2) BGP_INFO_DMED_CHECK\<rparr>"
    define t where "t = set_info ri2 i2' (if key i2 \<le> key ni then set_info n (ni\<lparr>bi_flags := UNSET_FLAG (bi_flags ni) BGP_INFO_DMED_SELECTED\<rparr>) s else s)"
    define n1 where "n1 = (if key i2 \<le> key ni then ri2 else n)"
    have run: "dmed_inner b peers ri1 (ri2 # xs) n s = dmed_inner b peers ri1 xs n1 t"
      using False i1(1) i2 ni(1) same q neq
      by (simp add: check_bits holddown_alive set_plain set_bits_Some unset_bits_Some t_def n1_def i2'_def)
    have r: "reflagged {6, 7} s t"
    proof -
      let ?u = "if key i2 \<le> key ni then set_info n (ni\<lparr>bi_flags := UNSET_FLAG (bi_flags ni) BGP_INFO_DMED_SELECTED\<rparr>) s else s"
      have "reflagged {6, 7} s ?u" using reflagged_one[OF ni(1), of "{6, 7}"] by (auto simp: flag_bits reflagged_refl)
      moreover have "reflagged {6, 7} ?u t"
        unfolding t_def i2'_def using i2(1) neq by (intro reflagged_one) (auto simp: flag_bits)
      ultimately show ?thesis by (rule reflagged_trans)
    qed
    note rk = reflagged_key[OF r] and ra = reflagged_alive[OF r]
    have dom: "infos t x \<noteq> None \<longleftrightarrow> infos s x \<noteq> None" for x using i2(1) ni(1) by (auto simp: t_def)
    have w: "winner t x = winner s x" for x
      using Cons.prems(5,9) False i2(2) ni(2) neq by (auto simp: t_def i2'_def flag_bits)
    have c: "checked t x \<longleftrightarrow> checked s x \<or> x = ri2" for x
      using i2(2) ni(2) neq by (auto simp: t_def i2'_def flag_bits)
    have le: "key (entry_at s n1) \<le> key ni" "key (entry_at s n1) \<le> key i2" using i2(2) ni(2) by (auto simp: n1_def)
    have "\<exists>r. dmed_inner b peers ri1 xs n1 t = Inr r \<and> inner_result key t xs n1 r"
    proof (rule Cons.IH)
      show "infos t ri1 \<noteq> None" "valid (entry_at t ri1)" using Cons.prems(1,2) dom rk by auto
      show "infos t n1 \<noteq> None" "valid (entry_at t n1)" "n1 \<notin> set xs" "alive (entry_at t n1)"
        using Cons.prems(3-8) dom rk ra False i2(2) by (auto simp: n1_def)
      show "\<forall>x\<in>set xs. infos t x \<noteq> None \<and> valid (entry_at t x) \<and> (winner t x \<longrightarrow> checked t x)"
        using Cons.prems(5) dom rk w c by auto
      show "distinct xs" using Cons.prems(6) by simp
      show "\<not> winner t n1" using w[of n1] Cons.prems(5,9) False i2(2) by (auto simp: n1_def)
    qed
    then obtain n' s' where IH: "dmed_inner b peers ri1 xs n1 t = Inr (n', s')" "reflagged {6, 7} t s'" "n' = n1 \<or> n' \<in> set xs"
      "alive (entry_at t n')" "key (entry_at t n') \<le> key (entry_at t n1)" "\<forall>x. winner s' x = winner t x"
      "\<not> winner t n'" "\<forall>x. checked t x \<longrightarrow> checked s' x"
      "\<forall>x. checked s' x \<and> \<not> checked t x \<longrightarrow> x \<in> set xs \<and> alive (entry_at t x) \<and> key (entry_at t n') \<le> key (entry_at t x)"
      unfolding inner_result_def by auto
    have n'_le: "key (entry_at s n') \<le> key ni" "key (entry_at s n') \<le> key i2" using IH(5) rk le order_trans by metis+
    have "x \<in> set (ri2 # xs) \<and> alive (entry_at s x) \<and> key (entry_at s n') \<le> key (entry_at s x)"
      if "checked s' x" "\<not> checked s x" for x
    proof (cases "x = ri2")
      case True
      then show ?thesis using n'_le(2) i2(2) False by simp
    next
      case xs: False
      then show ?thesis using IH(9) that c rk ra by simp
    qed
    then show ?thesis
      using run IH(1,3,4,6-8) reflagged_trans[OF r IH(2)] n'_le(1) ni(2) w c ra[of n']
      by (intro exI[of _ "(n', s')"]) (auto simp: inner_result_def n1_def split: if_splits)
  qed
qed

lemma covered_mono:
  assumes "covered key s L x" "reflagged {6, 7} s t" "\<forall>x. winner s x \<longrightarrow> winner t x"
  shows "covered key t L x"
  using assms(1,3) reflagged_key[OF assms(2)] reflagged_alive[OF assms(2)] by (auto simp: covered_def)

lemma dmed_outer_spec:
  assumes "set xs \<subseteq> L" "distinct xs" "\<forall>x\<in>L. infos s x \<noteq> None \<and> valid (entry_at s x)" "outer_inv key L s"
  shows "\<exists>s'. dmed_outer b peers xs s = Inr s' \<and> reflagged {6, 7} s s' \<and> outer_inv key L s' \<and>
     (\<forall>x. winner s x \<longrightarrow> winner s' x) \<and> (\<forall>x\<in>set xs. alive (entry_at s x) \<longrightarrow> covered key s' L x)"
  using assms
proof (induction xs arbitrary: s)
  case Nil
  then show ?case by (simp add: reflagged_refl)
next
  case (Cons ri1 xs)
  have L: "ri1 \<in> L" "set xs \<subseteq> L" using Cons.prems(1) by auto
  obtain i1 where i1: "infos s ri1 = Some i1" "entry_at s ri1 = i1" "valid i1" using Cons.prems(3) L(1) by (auto simp: entry_at_def)
  show ?case
  proof (cases "checked s ri1 \<or> \<not> alive i1")
    case True
    obtain s' where IH: "dmed_outer b peers xs s = Inr s'" "reflagged {6, 7} s s'" "outer_inv key L s'"
      "\<forall>x. winner s x \<longrightarrow> winner s' x" "\<forall>x\<in>set xs. alive (entry_at s x) \<longrightarrow> covered key s' L x"
      using Cons.IH[OF L(2) _ Cons.prems(3,4)] Cons.prems(2) by auto
    have "covered key s' L ri1" if "alive (entry_at s ri1)"
      using True that i1(2) L(1) Cons.prems(4) covered_mono[OF _ IH(2,4), of L ri1] by (auto simp: outer_inv_def)
    moreover have "dmed_outer b peers (ri1 # xs) s = dmed_outer b peers xs s"
      using True i1(1,2) by (simp add: check_bits holddown_alive)
    ultimately show ?thesis using IH by auto
  next
    case False
    have "\<exists>r. dmed_inner b peers ri1 xs ri1 s = Inr r \<and> inner_result key s xs ri1 r"
      using Cons.prems L False i1 by (intro dmed_inner_spec) (auto simp: outer_inv_def)
    then obtain n s1 where inn: "dmed_inner b peers ri1 xs ri1 s = Inr (n, s1)" and r: "inner_result key s xs ri1 (n, s1)" by auto
    have nL: "n \<in> L" and rs1: "reflagged {6, 7} s s1" using r L by (auto simp: inner_result_def)
    obtain ni where ni: "infos s n = Some ni" using Cons.prems(3) nL by auto
    obtain ni1 where ni1: "infos s1 n = Some ni1" "entry_at s1 n = ni1" using reflaggedD[OF rs1 ni] by (auto simp: entry_at_def)
    define f where "f = SET_FLAG (SET_FLAG (bi_flags ni1) BGP_INFO_DMED_CHECK) BGP_INFO_DMED_SELECTED"
    define s2 where "s2 = set_info n (ni1\<lparr>bi_flags := f\<rparr>) s1"
    have run: "dmed_outer b peers (ri1 # xs) s = dmed_outer b peers xs s2"
      using False i1(1,2) inn ni1(1)
      by (simp add: check_bits holddown_alive set_plain set_bits_Some s2_def f_def) (simp add: set_info_def)
    have "reflagged {6, 7} s1 s2" unfolding s2_def f_def using ni1(1) by (intro reflagged_one) (auto simp: flag_bits)
    then have rs2: "reflagged {6, 7} s s2" using rs1 reflagged_trans by blast
    note rk = reflagged_key[OF rs2] and ra = reflagged_alive[OF rs2]
    have w: "winner s2 x \<longleftrightarrow> winner s x \<or> x = n" for x
      using r ni1(2) by (auto simp: s2_def f_def flag_bits inner_result_def)
    have c: "checked s2 x \<longleftrightarrow> checked s1 x \<or> x = n" for x
      using ni1(2) by (auto simp: s2_def f_def flag_bits)
    have by_n: "covered key s2 L x" if "key (entry_at s n) \<le> key (entry_at s x)" for x
      using that nL r w rk ra by (auto simp: covered_def inner_result_def)
    have inv2: "outer_inv key L s2"
      unfolding outer_inv_def
    proof (intro ballI conjI impI)
      fix x assume x: "x \<in> L"
      show "checked s2 x" if "winner s2 x"
        using that w c x Cons.prems(4) r by (auto simp: outer_inv_def inner_result_def)
      show "alive (entry_at s2 x)" if "winner s2 x"
        using that w ra x Cons.prems(4) r by (auto simp: outer_inv_def inner_result_def)
      assume cx: "checked s2 x"
      consider "x = n" | "checked s x" | "checked s1 x" "\<not> checked s x" using cx c by blast
      then have "alive (entry_at s x) \<and> covered key s2 L x"
      proof cases
        case 1
        then show ?thesis using by_n r by (auto simp: inner_result_def)
      next
        case 2
        then show ?thesis using Cons.prems(4) x covered_mono[OF _ rs2] w by (auto simp: outer_inv_def)
      next
        case 3
        then show ?thesis using by_n r by (auto simp: inner_result_def)
      qed
      then show "alive (entry_at s2 x)" "covered key s2 L x" using ra by auto
    qed
    have ok2: "\<forall>x\<in>L. infos s2 x \<noteq> None \<and> valid (entry_at s2 x)"
      using Cons.prems(3) rk reflaggedD[OF rs2] by (metis option.distinct(1) option.exhaust)
    obtain s' where IH: "dmed_outer b peers xs s2 = Inr s'" "reflagged {6, 7} s2 s'" "outer_inv key L s'"
      "\<forall>x. winner s2 x \<longrightarrow> winner s' x" "\<forall>x\<in>set xs. alive (entry_at s2 x) \<longrightarrow> covered key s' L x"
      using Cons.IH[OF L(2) _ ok2 inv2] Cons.prems(2) by auto
    have "covered key s' L ri1" using by_n[of ri1] covered_mono[OF _ IH(2,4)] r by (auto simp: inner_result_def)
    then show ?thesis using run IH reflagged_trans[OF rs2 IH(2)] w ra by auto
  qed
qed

end

subsection \<open>The selection\<close>

definition locks_ok :: "rib \<Rightarrow> bool" where
  "locks_ok s \<longleftrightarrow> length (bn_info s) \<le> bn_lock s \<and> (bn_info s \<noteq> [] \<longrightarrow> bn_live s) \<and>
     (\<forall>p. length (filter (\<lambda>a. bi_peer (entry_at s a) = p) (bn_info s)) \<le> peer_locks s p) \<and>
     (\<forall>a\<in>set (bn_info s). 0 < bi_lock (entry_at s a))"

definition rib_ok :: "(bgp_info \<Rightarrow> bool) \<Rightarrow> rib \<Rightarrow> bool" where
  "rib_ok valid s \<longleftrightarrow> distinct (bn_info s) \<and> (\<forall>a\<in>set (bn_info s). infos s a \<noteq> None \<and> valid (entry_at s a)) \<and> locks_ok s"

text \<open>A reference to the node beyond those of its entries, as the item of a work queue holds one.\<close>

definition held :: "rib \<Rightarrow> bool" where
  "held s \<longleftrightarrow> bn_live s \<and> length (bn_info s) < bn_lock s"

text \<open>As many references to the node are given back as entries go, and a node that is held stays live.\<close>

definition same_node :: "rib \<Rightarrow> rib \<Rightarrow> bool" where
  "same_node s s' \<longleftrightarrow> bn_both s' = bn_both s \<and> bgp_refs s' = bgp_refs s \<and> table_refs s' = table_refs s \<and>
     bn_lock s' + length (bn_info s) = bn_lock s + length (bn_info s') \<and> (held s \<longrightarrow> bn_live s')"

definition same_rest :: "rib \<Rightarrow> rib \<Rightarrow> bool" where
  "same_rest s s' \<longleftrightarrow> bn_scheduled s' = bn_scheduled s \<and> table_main s' = table_main s \<and> pcount s' = pcount s \<and> calls s' = calls s \<and>
     same_node s s'"

lemma same_node_trans: "same_node s t \<Longrightarrow> same_node t u \<Longrightarrow> same_node s u"
  by (auto simp: same_node_def held_def)

lemma same_node_refl [simp]: "same_node s s"
  by (simp add: same_node_def held_def)

lemma same_node_held: "same_node s s' \<Longrightarrow> held s \<Longrightarrow> held s'"
  by (auto simp: same_node_def held_def)

lemma same_node_fields:
  assumes "bn_info s' = bn_info s" "bn_lock s' = bn_lock s" "bn_both s' = bn_both s" "bn_live s' = bn_live s"
    "bgp_refs s' = bgp_refs s" "table_refs s' = table_refs s"
  shows "same_node s s'" "same_node s' u = same_node s u" "same_node u s' = same_node u s"
  using assms by (simp_all add: same_node_def held_def)

lemma same_node_set_info [simp]: "same_node s (set_info a bi u) = same_node s u"
  by (simp add: same_node_def)

lemma same_rest_trans: "same_rest s t \<Longrightarrow> same_rest t u \<Longrightarrow> same_rest s u"
  using same_node_trans by (auto simp: same_rest_def)

lemma length_filter_remove1:
  "a \<in> set xs \<Longrightarrow> length (filter P xs) = (if P a then 1 else 0) + length (filter P (remove1 a xs))"
  by (induction xs) auto

lemma rib_okD:
  assumes "rib_ok valid s" "a \<in> set (bn_info s)"
  shows "infos s a = Some (entry_at s a)" "valid (entry_at s a)" "0 < bi_lock (entry_at s a)"
  using assms by (auto simp: rib_ok_def locks_ok_def entry_at_def)

lemma reap_spec:
  assumes "rib_ok valid s" "a \<in> set (bn_info s)"
  shows "\<exists>s'. bgp_info_reap a s = Inr s' \<and> rib_ok valid s' \<and> bn_info s' = remove1 a (bn_info s) \<and>
     (\<forall>x. x \<noteq> a \<longrightarrow> infos s' x = infos s x) \<and> same_rest s s'"
proof -
  define bi where "bi = entry_at s a"
  define t where "t = s\<lparr>bn_info := remove1 a (bn_info s)\<rparr>"
  define u where "u = set_info a (bi\<lparr>bi_lock := bi_lock bi - 1\<rparr>) t"
  define p where "p = bi_peer bi"
  define v where "v = (if bi_lock bi - 1 = 0 then u\<lparr>peer_locks := (peer_locks u)(p := peer_locks u p - 1), infos := (infos u)(a := None)\<rparr> else u)"
  define w where "w = v\<lparr>bn_lock := bn_lock v - 1\<rparr>"
  define s' where "s' = (if bn_lock s - 1 = 0 \<and> \<not> bn_both s then w\<lparr>bn_live := False\<rparr> else w)"
  have bi: "infos s a = Some bi" "0 < bi_lock bi" using rib_okD[OF assms] by (simp_all add: bi_def)
  have dist: "distinct (bn_info s)" and live: "bn_live s" and locks: "length (bn_info s) \<le> bn_lock s"
    "\<And>p. length (filter (\<lambda>x. bi_peer (entry_at s x) = p) (bn_info s)) \<le> peer_locks s p"
    "\<And>x. x \<in> set (bn_info s) \<Longrightarrow> 0 < bi_lock (entry_at s x)"
    using assms by (auto simp: rib_ok_def locks_ok_def)
  have pos: "0 < bn_lock s" "0 < peer_locks s p"
    using locks(1) locks(2)[of p] length_filter_remove1[OF assms(2), of "\<lambda>x. bi_peer (entry_at s x) = p"] assms(2)
    by (auto simp: p_def bi_def intro: Nat.gr0I)
  have len: "Suc (length (remove1 a (bn_info s))) = length (bn_info s)"
    using assms(2) by (metis One_nat_def Suc_pred length_pos_if_in_set length_remove1)
  have last: "remove1 a (bn_info s) = []" if "bn_lock s - 1 = 0"
    using len locks(1) that by (simp flip: length_0_conv)
  have "same_node s s'"
    using len locks(1) live by (auto simp: same_node_def held_def s'_def w_def v_def u_def t_def)
  then have f: "bn_info s' = remove1 a (bn_info s)" "bn_lock s' = bn_lock s - 1" "same_rest s s'"
    "remove1 a (bn_info s) \<noteq> [] \<Longrightarrow> bn_live s'"
    "\<And>x. x \<noteq> a \<Longrightarrow> infos s' x = infos s x" "\<And>x. x \<noteq> a \<Longrightarrow> entry_at s' x = entry_at s x"
    "\<And>q. peer_locks s' q \<ge> peer_locks s q - (if q = p then 1 else 0)"
    using live last by (auto simp: s'_def w_def v_def u_def t_def same_rest_def entry_at_def)
  have "bgp_info_unlock a t = Inr v"
    using bi pos by (simp add: bgp_info_unlock_def bgp_info_free_def peer_unlock_def get_info_def Let_def v_def u_def t_def p_def
        set_info_def assertE_def)
  moreover have "bgp_unlock_node v = Inr s'"
  proof -
    have "bn_lock v = bn_lock s" "bn_live v" "bn_both v = bn_both s" "bn_info v = remove1 a (bn_info s)"
      using live by (simp_all add: v_def u_def t_def)
    then show ?thesis
      using pos last by (simp add: bgp_unlock_node_def bgp_node_delete_def node_access_def assertE_def s'_def w_def Let_def)
  qed
  ultimately have run: "bgp_info_reap a s = Inr s'" by (simp add: bgp_info_reap_def t_def)
  have flt: "filter (\<lambda>x. bi_peer (entry_at s' x) = q) (remove1 a (bn_info s)) =
      filter (\<lambda>x. bi_peer (entry_at s x) = q) (remove1 a (bn_info s))" for q
    using dist f(6) by (intro filter_cong) auto
  have "locks_ok s'"
    unfolding locks_ok_def f(1,2) flt
  proof (intro conjI allI ballI impI)
    show "length (remove1 a (bn_info s)) \<le> bn_lock s - 1" using locks(1) assms(2) by (simp add: length_remove1)
    show "bn_live s'" if "remove1 a (bn_info s) \<noteq> []" using f(4) that .
    show "length (filter (\<lambda>x. bi_peer (entry_at s x) = q) (remove1 a (bn_info s))) \<le> peer_locks s' q" for q
      using locks(2)[of q] length_filter_remove1[OF assms(2), of "\<lambda>x. bi_peer (entry_at s x) = q"] f(7)[of q]
      by (auto simp: p_def bi_def split: if_splits)
    show "0 < bi_lock (entry_at s' x)" if "x \<in> set (remove1 a (bn_info s))" for x
      using that dist f(6)[of x] locks(3) by auto
  qed
  then have "rib_ok valid s'" using assms(1) dist f(1,5,6) unfolding rib_ok_def by auto
  then show ?thesis using run f(1,3,5) by blast
qed

definition reaped :: "bgp_info \<Rightarrow> bool" where
  "reaped bi \<longleftrightarrow> bit (bi_flags bi) 9 \<and> \<not> bit (bi_flags bi) 3"

definition cleared :: "bgp_info \<Rightarrow> bgp_info" where
  "cleared bi = bi\<lparr>bi_flags := UNSET_FLAG (UNSET_FLAG (bi_flags bi) BGP_INFO_DMED_CHECK) BGP_INFO_DMED_SELECTED\<rparr>"

definition candidate_path :: "bgp \<Rightarrow> bgp_info \<Rightarrow> bool" where
  "candidate_path b bi \<longleftrightarrow> alive bi \<and> (bgp_flag_check b BGP_FLAG_DETERMINISTIC_MED \<longrightarrow> bit (bi_flags bi) 7)"

lemma reflag_cleared: "reflag {6, 7} bi (cleared bi)"
  by (auto simp: reflag_def cleared_def flag_bits)

lemma unset_clear: "\<not> bit v 7 \<Longrightarrow> UNSET_FLAG v BGP_INFO_DMED_CHECK = UNSET_FLAG (UNSET_FLAG v BGP_INFO_DMED_CHECK) BGP_INFO_DMED_SELECTED"
  by (rule bit_eqI) (auto simp: flag_bits)

lemma rib_ok_set:
  assumes "rib_ok valid s" "infos s a = Some bi" "valid bi'" "bi_peer bi' = bi_peer bi" "bi_lock bi' = bi_lock bi"
  shows "rib_ok valid (set_info a bi' s)"
proof -
  have "filter (\<lambda>x. bi_peer (entry_at (set_info a bi' s) x) = q) (bn_info s) = filter (\<lambda>x. bi_peer (entry_at s x) = q) (bn_info s)" for q
    using assms(2,4) by (intro filter_cong) (auto simp: entry_at_def)
  then show ?thesis using assms by (auto simp: rib_ok_def locks_ok_def entry_at_def)
qed

definition chosen :: "bgp \<Rightarrow> (bgp_info \<Rightarrow> 'k :: linorder) \<Rightarrow> rib \<Rightarrow> nat list \<Rightarrow> nat option \<Rightarrow> nat option \<Rightarrow> bool" where
  "chosen b key s xs new new' \<longleftrightarrow>
     (case new' of None \<Rightarrow> new = None \<and> (\<forall>x\<in>set xs. \<not> candidate_path b (entry_at s x))
      | Some n \<Rightarrow> (new = Some n \<or> n \<in> set xs \<and> candidate_path b (entry_at s n)) \<and>
          (\<forall>x. x \<in> set xs \<and> candidate_path b (entry_at s x) \<or> new = Some x \<longrightarrow> key (entry_at s n) \<le> key (entry_at s x)))"

definition swept :: "rib \<Rightarrow> nat list \<Rightarrow> rib \<Rightarrow> bool" where
  "swept s xs s' \<longleftrightarrow> same_rest s s' \<and>
     bn_info s' = filter (\<lambda>a. \<not> (a \<in> set xs \<and> reaped (entry_at s a))) (bn_info s) \<and>
     (\<forall>a. a \<notin> set xs \<longrightarrow> infos s' a = infos s a) \<and>
     (\<forall>a\<in>set xs. \<not> reaped (entry_at s a) \<longrightarrow>
        infos s' a = Some (if alive (entry_at s a) then cleared (entry_at s a) else entry_at s a))"

definition last_selected :: "rib \<Rightarrow> nat list \<Rightarrow> nat option \<Rightarrow> nat option" where
  "last_selected s xs old = fold (\<lambda>a old. if bit (bi_flags (entry_at s a)) 3 then Some a else old) xs old"

lemma reaped_dead: "reaped bi \<Longrightarrow> \<not> alive bi"
  by (simp add: reaped_def alive_bits)

lemma last_selected_cong: "\<forall>a\<in>set xs. entry_at t a = entry_at s a \<Longrightarrow> last_selected t xs old = last_selected s xs old"
  unfolding last_selected_def by (induction xs arbitrary: old) auto

context path_order
begin

lemma step_spec:
  assumes "rib_ok valid s" "ri \<in> set (bn_info s)" "\<forall>n. new = Some n \<longrightarrow> n \<in> set (bn_info s) \<and> n \<noteq> ri" "old \<noteq> Some ri"
  defines "i \<equiv> entry_at s ri" and "old1 \<equiv> (if bit (bi_flags (entry_at s ri)) 3 then Some ri else old)"
    and "new1 \<equiv> (if candidate_path b (entry_at s ri) \<and> (\<forall>n. new = Some n \<longrightarrow> key (entry_at s ri) \<le> key (entry_at s n)) then Some ri else new)"
  shows "\<exists>s'. select_step b peers (old, new, s) ri = Inr (old1, new1, s') \<and> rib_ok valid s' \<and> same_rest s s' \<and>
     bn_info s' = (if reaped i \<and> \<not> alive i then remove1 ri (bn_info s) else bn_info s) \<and>
     (\<forall>x. x \<noteq> ri \<longrightarrow> infos s' x = infos s x) \<and>
     (alive i \<longrightarrow> infos s' ri = Some (cleared i)) \<and> (\<not> alive i \<and> \<not> reaped i \<longrightarrow> infos s' ri = Some i)"
proof -
  have i: "infos s ri = Some i" "valid i" using rib_okD[OF assms(1,2)] by (simp_all add: i_def)
  show ?thesis
  proof (cases "alive i")
    case False
    then have new1: "new1 = new" by (simp add: new1_def i_def candidate_path_def)
    show ?thesis
    proof (cases "reaped i")
      case True
      obtain s' where s': "bgp_info_reap ri s = Inr s'" "rib_ok valid s'" "bn_info s' = remove1 ri (bn_info s)"
        "\<forall>x. x \<noteq> ri \<longrightarrow> infos s' x = infos s x" "same_rest s s'"
        using reap_spec[OF assms(1,2)] by blast
      have "select_step b peers (old, new, s) ri = Inr (old1, new1, s')"
        using i(1) False True assms(4) s'(1)
        by (simp add: select_step_def new1 old1_def i_def[symmetric] holddown_alive check_bits reaped_def)
      then show ?thesis using s'(2-5) True False by auto
    next
      case nr: False
      have "select_step b peers (old, new, s) ri = Inr (old1, new1, s)"
        using i(1) False nr assms(4)
        by (auto simp: select_step_def new1 old1_def i_def[symmetric] holddown_alive check_bits reaped_def Let_def)
      then show ?thesis using False nr assms(1) i(1) by (auto simp: same_rest_def)
    qed
  next
    case True
    define s' where "s' = set_info ri (cleared i) s"
    have ok: "rib_ok valid s'" unfolding s'_def using reflag_key[OF reflag_cleared, of i] i
      by (intro rib_ok_set[OF assms(1) i(1)]) (auto simp: cleared_def)
    have kc: "key (cleared i) = key i" "valid (cleared i)" using reflag_key[OF reflag_cleared, of i] i(2) by auto
    have "select_step b peers (old, new, s) ri = Inr (old1, new1, s')"
    proof (cases "candidate_path b i")
      case False
      then have d: "bgp_flag_check b BGP_FLAG_DETERMINISTIC_MED" "\<not> bit (bi_flags i) 7" "new1 = new"
        using True by (auto simp: candidate_path_def new1_def i_def)
      then show ?thesis
        using i(1) True unset_clear[OF d(2)]
        by (simp add: select_step_def old1_def i_def[symmetric] holddown_alive check_bits set_plain unset_bits_Some s'_def cleared_def)
    next
      case c: True
      have cmp: "\<exists>q. bindE (get_opt s' new) (bgp_info_cmp b peers (Some (cleared i))) = Inr (new1 = Some ri, q)"
      proof (cases new)
        case None
        then show ?thesis using c by (intro exI[of _ False]) (simp add: get_opt_def bgp_info_cmp_def new1_def i_def)
      next
        case (Some n)
        then have n: "infos s n = Some (entry_at s n)" "valid (entry_at s n)" "n \<noteq> ri" using rib_okD[OF assms(1)] assms(3) by auto
        then show ?thesis using cmp_pair[OF kc(2) n(2)] c Some kc(1)
          by (auto simp: get_opt_def get_info_def s'_def new1_def i_def)
      qed
      have "new1 = (if new1 = Some ri then Some ri else new)" by (simp add: new1_def)
      moreover have "\<not> (bgp_flag_check b BGP_FLAG_DETERMINISTIC_MED \<and> \<not> bit (bi_flags i) 7)" using c by (simp add: candidate_path_def)
      moreover have "set_info ri (cleared i) (set_info ri (i\<lparr>bi_flags := UNSET_FLAG (bi_flags i) BGP_INFO_DMED_CHECK\<rparr>) s) = s'"
        by (simp add: s'_def set_info_def)
      ultimately show ?thesis
        using i(1) True cmp
        by (auto simp: select_step_def old1_def i_def[symmetric] holddown_alive check_bits set_plain unset_bits_Some cleared_def
            get_info_def bindE_assoc[symmetric] Let_def)
    qed
    then show ?thesis using ok True by (auto simp: same_rest_def s'_def reaped_def alive_bits)
  qed
qed

lemma chosen_step:
  assumes "ri \<notin> set xs" "\<forall>n. new = Some n \<longrightarrow> n \<noteq> ri" and at: "\<And>x. x \<noteq> ri \<Longrightarrow> entry_at t x = entry_at s x"
    and "alive (entry_at s ri) \<Longrightarrow> key (entry_at t ri) = key (entry_at s ri)"
    and "chosen b key t xs (if candidate_path b (entry_at s ri) \<and> (\<forall>n. new = Some n \<longrightarrow> key (entry_at s ri) \<le> key (entry_at s n))
       then Some ri else new) new'"
  shows "chosen b key s (ri # xs) new new'"
proof -
  define i where "i = entry_at s ri"
  define new1 where "new1 = (if candidate_path b i \<and> (\<forall>n. new = Some n \<longrightarrow> key i \<le> key (entry_at s n)) then Some ri else new)"
  note a5 = assms(5)[folded i_def, folded new1_def]
  have cand: "alive i" if "candidate_path b i" using that by (simp add: candidate_path_def)
  have k: "key (entry_at t x) = key (entry_at s x)" if "x \<noteq> ri \<or> alive i" for x
    using at[of x] assms(4) that by (cases "x = ri") (auto simp: i_def)
  have c: "candidate_path b (entry_at t x) = candidate_path b (entry_at s x)" if "x \<in> set xs" for x
    using at[of x] that assms(1) by (metis)
  show ?thesis
  proof (cases new')
    case None
    then show ?thesis using a5 c by (auto simp: chosen_def new1_def i_def split: if_splits)
  next
    case (Some n)
    then have n: "new1 = Some n \<or> n \<in> set xs \<and> candidate_path b (entry_at s n)"
      and le: "\<And>x. x \<in> set xs \<and> candidate_path b (entry_at s x) \<or> new1 = Some x \<Longrightarrow> key (entry_at t n) \<le> key (entry_at t x)"
      using a5 c by (auto simp: chosen_def)
    have kn: "key (entry_at t n) = key (entry_at s n)"
      using n cand assms(1,2) by (intro k) (auto simp: new1_def split: if_splits)
    have "key (entry_at s n) \<le> key (entry_at s x)"
      if x: "x \<in> set (ri # xs) \<and> candidate_path b (entry_at s x) \<or> new = Some x" for x
    proof -
      consider "x \<in> set xs" "candidate_path b (entry_at s x)" | "x = ri" "candidate_path b i" | "new = Some x" using x by (auto simp: i_def)
      then show ?thesis
      proof cases
        case 1
        then have "x \<noteq> ri" using assms(1) by auto
        then show ?thesis using 1 le[of x] k[of x] kn by auto
      next
        case 2
        show ?thesis
        proof (cases "new1 = Some ri")
          case True
          then show ?thesis using le[of ri] k[of ri] cand 2 kn by auto
        next
          case False
          then obtain m where m: "new = Some m" "\<not> key i \<le> key (entry_at s m)" "new1 = Some m"
            using 2(2) by (cases new) (auto simp: new1_def split: if_splits)
          then have "m \<noteq> ri" using assms(2) by auto
          then show ?thesis using le[of m] m k[of m] kn 2(1) by (auto simp: i_def)
        qed
      next
        case 3
        then have x: "x \<noteq> ri" using assms(2) by auto
        show ?thesis
        proof (cases "new1 = Some ri")
          case True
          then have "key i \<le> key (entry_at s x)" "candidate_path b i" using 3 x by (auto simp: new1_def split: if_splits)
          then show ?thesis using le[of ri] True k[of ri] cand kn by (auto simp: i_def)
        next
          case False
          then have "new1 = Some x" using 3 by (auto simp: new1_def split: if_splits)
          then show ?thesis using le[of x] k[of x] x kn by auto
        qed
      qed
    qed
    moreover have "new = Some n \<or> n \<in> set (ri # xs) \<and> candidate_path b (entry_at s n)"
      using n by (auto simp: new1_def i_def split: if_splits)
    ultimately show ?thesis using Some by (simp add: chosen_def)
  qed
qed

lemma select_fold:
  assumes "rib_ok valid s" "set xs \<subseteq> set (bn_info s)" "distinct xs"
    "\<forall>n. new = Some n \<longrightarrow> n \<in> set (bn_info s) \<and> n \<notin> set xs \<and> alive (entry_at s n)" "\<forall>a\<in>set xs. old \<noteq> Some a"
  shows "\<exists>new' s'. foldE (select_step b peers) (old, new, s) xs = Inr (last_selected s xs old, new', s') \<and>
     rib_ok valid s' \<and> swept s xs s' \<and> chosen b key s xs new new'"
  using assms
proof (induction xs arbitrary: old new s)
  case Nil
  then show ?case by (auto simp: swept_def chosen_def same_rest_def last_selected_def split: option.split)
next
  case (Cons ri xs)
  define i where "i = entry_at s ri"
  define old1 where "old1 = (if bit (bi_flags i) 3 then Some ri else old)"
  define new1 where "new1 = (if candidate_path b i \<and> (\<forall>n. new = Some n \<longrightarrow> key i \<le> key (entry_at s n)) then Some ri else new)"
  have ri: "ri \<in> set (bn_info s)" "ri \<notin> set xs" using Cons.prems(2,3) by auto
  obtain t where t: "select_step b peers (old, new, s) ri = Inr (old1, new1, t)" "rib_ok valid t" "same_rest s t"
    "bn_info t = (if reaped i \<and> \<not> alive i then remove1 ri (bn_info s) else bn_info s)"
    "\<forall>x. x \<noteq> ri \<longrightarrow> infos t x = infos s x" "alive i \<longrightarrow> infos t ri = Some (cleared i)"
    "\<not> alive i \<and> \<not> reaped i \<longrightarrow> infos t ri = Some i"
    using step_spec[OF Cons.prems(1) ri(1), of new old] Cons.prems(4,5) unfolding i_def old1_def new1_def by auto
  have at: "entry_at t x = entry_at s x" if "x \<noteq> ri" for x using t(5) that by (simp add: entry_at_def)
  have at_xs: "\<forall>a\<in>set xs. entry_at t a = entry_at s a" using at ri(2) by metis
  have dist: "distinct (bn_info s)" using Cons.prems(1) by (simp add: rib_ok_def)
  have bn: "bn_info t = filter (\<lambda>a. \<not> (a = ri \<and> reaped i)) (bn_info s)"
    using t(4) dist reaped_dead[of i] by (auto simp: distinct_remove1_removeAll removeAll_filter_not_eq intro!: filter_cong)
  have sub: "set xs \<subseteq> set (bn_info t)" using Cons.prems(2) ri(2) unfolding bn by auto
  have cand: "alive i" if "candidate_path b i" using that by (simp add: candidate_path_def)
  have n1: "\<forall>n. new1 = Some n \<longrightarrow> n \<in> set (bn_info t) \<and> n \<notin> set xs \<and> alive (entry_at t n)"
  proof (intro allI impI)
    fix n assume n: "new1 = Some n"
    show "n \<in> set (bn_info t) \<and> n \<notin> set xs \<and> alive (entry_at t n)"
    proof (cases "n = ri")
      case True
      moreover from this have "candidate_path b i" using n Cons.prems(4) by (auto simp: new1_def split: if_splits)
      ultimately show ?thesis using ri cand t(6) reaped_dead[of i] reflag_alive[OF reflag_cleared, of i] unfolding bn
        by (auto simp: entry_at_def)
    next
      case False
      then show ?thesis using n Cons.prems(4) at unfolding bn by (auto simp: new1_def split: if_splits)
    qed
  qed
  have o1: "\<forall>a\<in>set xs. old1 \<noteq> Some a" using Cons.prems(5) ri(2) by (auto simp: old1_def)
  obtain new' s' where IH: "foldE (select_step b peers) (old1, new1, t) xs = Inr (last_selected t xs old1, new', s')"
    "rib_ok valid s'" "swept t xs s'" "chosen b key t xs new1 new'"
    using Cons.IH[OF t(2) sub _ n1 o1] Cons.prems(3) by auto
  have "last_selected t xs old1 = last_selected s (ri # xs) old"
    using last_selected_cong[OF at_xs, of old1] by (simp add: last_selected_def old1_def i_def)
  moreover have "swept s (ri # xs) s'"
    unfolding swept_def
  proof (intro conjI)
    show "same_rest s s'" using same_rest_trans[OF t(3)] IH(3) by (simp add: swept_def)
    show "bn_info s' = filter (\<lambda>a. \<not> (a \<in> set (ri # xs) \<and> reaped (entry_at s a))) (bn_info s)"
      using IH(3) at_xs ri(2) unfolding swept_def bn by (auto simp: i_def intro!: filter_cong)
    show "\<forall>a. a \<notin> set (ri # xs) \<longrightarrow> infos s' a = infos s a" using IH(3) t(5) by (auto simp: swept_def)
    show "\<forall>a\<in>set (ri # xs). \<not> reaped (entry_at s a) \<longrightarrow>
        infos s' a = Some (if alive (entry_at s a) then cleared (entry_at s a) else entry_at s a)"
    proof
      fix a assume "a \<in> set (ri # xs)"
      then show "\<not> reaped (entry_at s a) \<longrightarrow> infos s' a = Some (if alive (entry_at s a) then cleared (entry_at s a) else entry_at s a)"
        using IH(3) at[of a] ri(2) t(6,7) by (cases "a = ri") (auto simp: swept_def i_def)
    qed
  qed
  moreover have "chosen b key s (ri # xs) new new'"
    using IH(4) Cons.prems(4) ri(2) at t(6) reflag_key[OF reflag_cleared, of i]
    by (intro chosen_step[of ri xs new t s new']) (auto simp: new1_def i_def entry_at_def)
  ultimately show ?case using t(1) IH(1,2) by auto
qed

end

definition quiet :: "rib \<Rightarrow> bool" where
  "quiet s \<longleftrightarrow> (\<forall>a\<in>set (bn_info s). \<not> checked s a \<and> \<not> winner s a)"

definition best_path :: "(bgp_info \<Rightarrow> 'k :: linorder) \<Rightarrow> rib \<Rightarrow> nat option \<Rightarrow> bool" where
  "best_path key s new \<longleftrightarrow>
     (case new of None \<Rightarrow> \<forall>x\<in>set (bn_info s). \<not> alive (entry_at s x)
      | Some n \<Rightarrow> n \<in> set (bn_info s) \<and> alive (entry_at s n) \<and>
          (\<forall>x\<in>set (bn_info s). alive (entry_at s x) \<longrightarrow> key (entry_at s n) \<le> key (entry_at s x)))"

definition sweep_result :: "rib \<Rightarrow> rib \<Rightarrow> bool" where
  "sweep_result s s' \<longleftrightarrow> same_rest s s' \<and> bn_info s' = filter (\<lambda>a. \<not> reaped (entry_at s a)) (bn_info s) \<and>
     (\<forall>a\<in>set (bn_info s'). infos s' a = infos s a)"

lemma cleared_back:
  assumes "reflag {6, 7} x y" "\<not> bit (bi_flags x) 6" "\<not> bit (bi_flags x) 7"
  shows "cleared y = x"
proof -
  have "UNSET_FLAG (UNSET_FLAG (bi_flags y) BGP_INFO_DMED_CHECK) BGP_INFO_DMED_SELECTED = bi_flags x"
  proof (rule bit_eqI)
    fix n show "bit (UNSET_FLAG (UNSET_FLAG (bi_flags y) BGP_INFO_DMED_CHECK) BGP_INFO_DMED_SELECTED) n = bit (bi_flags x) n"
      using assms by (cases "n = 6 \<or> n = 7") (auto simp: reflag_def flag_bits)
  qed
  then show ?thesis using assms(1) by (cases x; cases y) (auto simp: cleared_def reflag_def)
qed

lemma cleared_same: "\<not> bit (bi_flags x) 6 \<Longrightarrow> \<not> bit (bi_flags x) 7 \<Longrightarrow> cleared x = x"
  by (rule cleared_back[OF reflag_refl])

lemma same_node_more [simp]:
  "same_node s (u\<lparr>calls := c\<rparr>) = same_node s u" "same_node s (u\<lparr>bn_scheduled := f\<rparr>) = same_node s u"
  "same_node (s\<lparr>calls := c\<rparr>) u = same_node s u"
  by (simp_all add: same_node_def held_def)

lemma reflagged_node: "reflagged K s s' \<Longrightarrow> same_node s s'"
  using reflagged_fields[of K s s'] by (intro same_node_fields(1)) simp_all

lemma swept_sweep:
  assumes "reflagged {6, 7} s t" "quiet s" "\<forall>x\<in>set (bn_info s). (checked t x \<or> winner t x) \<longrightarrow> alive (entry_at t x)"
    "\<forall>x\<in>set (bn_info s). infos s x \<noteq> None" "swept t (bn_info s) s'"
  shows "sweep_result s s'"
proof -
  note r = reflagged_entry[OF assms(1)]
  have bn: "bn_info t = bn_info s" using reflagged_fields[OF assms(1)] by simp
  have re: "reaped (entry_at t x) = reaped (entry_at s x)" for x using r[of x] by (simp add: reaped_def reflag_def)
  have bn': "bn_info s' = filter (\<lambda>a. \<not> reaped (entry_at s a)) (bn_info s)"
    using assms(5) by (auto simp: swept_def bn re intro!: filter_cong)
  have "infos s' a = infos s a" if "a \<in> set (bn_info s')" for a
  proof -
    have a: "a \<in> set (bn_info s)" "\<not> reaped (entry_at s a)" using that bn' by auto
    have q: "\<not> checked s a" "\<not> winner s a" using assms(2) a(1) by (auto simp: quiet_def)
    have "infos s' a = Some (cleared (entry_at t a))"
      using assms(3,5) a re[of a] cleared_same[of "entry_at t a"] by (auto simp: swept_def)
    then show ?thesis using cleared_back[OF r q] assms(4) a(1) by (auto simp: entry_at_def)
  qed
  moreover have "same_rest s s'"
    using assms(5) reflagged_fields[OF assms(1)] same_node_trans[OF reflagged_node[OF assms(1)]] by (simp add: swept_def same_rest_def)
  ultimately show ?thesis using bn' by (simp add: sweep_result_def)
qed

lemma reflag_rest: "reflag K x y \<Longrightarrow> bi_peer y = bi_peer x \<and> bi_lock y = bi_lock x"
  by (cases x; cases y) (auto simp: reflag_def)

context path_order
begin

lemma reflagged_rib_ok:
  assumes r: "reflagged K s t" and ok: "rib_ok valid s"
  shows "rib_ok valid t"
proof -
  note re = reflag_rest[OF reflagged_entry[OF r]]
  have "infos t x \<noteq> None" if "infos s x \<noteq> None" for x using that reflaggedD[OF r, of x] by (metis option.distinct(1) option.exhaust)
  then show ?thesis using ok re reflagged_fields[OF r] reflagged_key[OF r] by (simp add: rib_ok_def locks_ok_def)
qed

lemma best_from_chosen:
  assumes r: "reflagged {6, 7} s t" and c: "chosen b key t (bn_info s) None new"
    and cov: "bgp_flag_check b BGP_FLAG_DETERMINISTIC_MED \<longrightarrow>
      (\<forall>x\<in>set (bn_info s). alive (entry_at s x) \<longrightarrow> covered key t (set (bn_info s)) x)"
  shows "best_path key s new"
proof -
  note rk = reflagged_key[OF r] and ra = reflagged_alive[OF r]
  have w: "\<exists>w\<in>set (bn_info s). candidate_path b (entry_at t w) \<and> key (entry_at s w) \<le> key (entry_at s x)"
    if "x \<in> set (bn_info s)" "alive (entry_at s x)" for x
    using cov that rk ra by (cases "bgp_flag_check b BGP_FLAG_DETERMINISTIC_MED") (auto simp: candidate_path_def covered_def)
  show ?thesis
  proof (cases new)
    case None
    then show ?thesis using c w by (fastforce simp: chosen_def best_path_def)
  next
    case (Some n)
    then have n: "n \<in> set (bn_info s)" "alive (entry_at s n)"
      and le: "\<And>x. x \<in> set (bn_info s) \<Longrightarrow> candidate_path b (entry_at t x) \<Longrightarrow> key (entry_at s n) \<le> key (entry_at s x)"
      using c rk ra by (auto simp: chosen_def candidate_path_def)
    have "key (entry_at s n) \<le> key (entry_at s x)" if "x \<in> set (bn_info s)" "alive (entry_at s x)" for x
      using w[OF that] le order_trans by blast
    then show ?thesis using Some n by (simp add: best_path_def)
  qed
qed

lemma selection_spec:
  assumes ok: "rib_ok valid s" and q: "quiet s"
  shows "\<exists>new s'. bgp_best_selection b peers s = Inr (last_selected s (bn_info s) None, new, s') \<and>
     rib_ok valid s' \<and> sweep_result s s' \<and> best_path key s new"
proof -
  let ?L = "set (bn_info s)"
  have L: "\<forall>x\<in>?L. infos s x \<noteq> None \<and> valid (entry_at s x)" "distinct (bn_info s)" using ok by (auto simp: rib_ok_def)
  define det where "det = bgp_flag_check b BGP_FLAG_DETERMINISTIC_MED"
  have "\<exists>t. (if det then dmed_outer b peers (bn_info s) s else Inr s) = Inr t \<and> reflagged {6, 7} s t \<and>
     (\<forall>x\<in>?L. (checked t x \<or> winner t x) \<longrightarrow> alive (entry_at t x)) \<and>
     (det \<longrightarrow> (\<forall>x\<in>?L. alive (entry_at s x) \<longrightarrow> covered key t ?L x))"
  proof (cases det)
    case True
    have "outer_inv key ?L s" using q by (auto simp: quiet_def outer_inv_def)
    from dmed_outer_spec[OF subset_refl L(2,1) this] show ?thesis using True by (auto simp: outer_inv_def)
  next
    case False
    then show ?thesis using q by (auto simp: quiet_def reflagged_refl)
  qed
  then obtain t where t: "(if det then dmed_outer b peers (bn_info s) s else Inr s) = Inr t" "reflagged {6, 7} s t"
    "\<forall>x\<in>?L. (checked t x \<or> winner t x) \<longrightarrow> alive (entry_at t x)" "det \<longrightarrow> (\<forall>x\<in>?L. alive (entry_at s x) \<longrightarrow> covered key t ?L x)"
    by blast
  note rf = reflagged_fields[OF t(2)] and rk = reflagged_key[OF t(2)] and ra = reflagged_alive[OF t(2)] and re = reflagged_entry[OF t(2)]
  have okt: "rib_ok valid t" using reflagged_rib_ok[OF t(2) ok] .
  obtain new s' where f: "foldE (select_step b peers) (None, None, t) (bn_info s) = Inr (last_selected t (bn_info s) None, new, s')"
    "rib_ok valid s'" "swept t (bn_info s) s'" "chosen b key t (bn_info s) None new"
    using select_fold[OF okt, of "bn_info s" None None] L(2) rf by auto
  have "last_selected t (bn_info s) None = last_selected s (bn_info s) None"
    using re unfolding last_selected_def reflag_def by simp
  moreover have "best_path key s new"
    using best_from_chosen[OF t(2) f(4)] t(4) by (simp add: det_def)
  moreover have "sweep_result s s'" using swept_sweep[OF t(2) q t(3) _ f(3)] L(1) by blast
  ultimately show ?thesis using t(1) f(1,2) rf by (auto simp: bgp_best_selection_def det_def[symmetric])
qed

end

subsection \<open>Processing\<close>

abbreviation selected :: "rib \<Rightarrow> nat \<Rightarrow> bool" where
  "selected s a \<equiv> bit (bi_flags (entry_at s a)) 3"

abbreviation removed :: "rib \<Rightarrow> nat \<Rightarrow> bool" where
  "removed s a \<equiv> bit (bi_flags (entry_at s a)) 9"

definition one_selected :: "rib \<Rightarrow> bool" where
  "one_selected s \<longleftrightarrow> (\<forall>x\<in>set (bn_info s). \<forall>y\<in>set (bn_info s). selected s x \<longrightarrow> selected s y \<longrightarrow> x = y)"

lemma last_selected_in:
  "last_selected s xs old = Some a \<Longrightarrow> old = Some a \<or> (a \<in> set xs \<and> selected s a)"
  unfolding last_selected_def by (induction xs arbitrary: old) (auto split: if_splits)

lemma last_selected_None: "last_selected s xs old = None \<longleftrightarrow> old = None \<and> (\<forall>a\<in>set xs. \<not> selected s a)"
  unfolding last_selected_def by (induction xs arbitrary: old) auto

lemma last_selected_iff:
  assumes "one_selected s" "a \<in> set (bn_info s)"
  shows "last_selected s (bn_info s) None = Some a \<longleftrightarrow> selected s a"
proof
  show "last_selected s (bn_info s) None = Some a \<Longrightarrow> selected s a" using last_selected_in by fastforce
  assume a: "selected s a"
  then obtain x where x: "last_selected s (bn_info s) None = Some x"
    using assms(2) last_selected_None[of s "bn_info s" None] by fastforce
  then have "x \<in> set (bn_info s)" "selected s x" using last_selected_in by fastforce+
  then show "last_selected s (bn_info s) None = Some a" using assms a x by (auto simp: one_selected_def)
qed

lemma set_bits_step:
  assumes "infos s a \<noteq> None" "\<And>v k. k \<notin> K \<Longrightarrow> bit (SET_FLAG v f) k = bit v k"
  shows "\<exists>s'. set_bits a f s = Inr s' \<and> reflagged K s s' \<and> infos s' a \<noteq> None \<and> (\<forall>x. x \<noteq> a \<longrightarrow> entry_at s' x = entry_at s x) \<and>
     bi_flags (entry_at s' a) = SET_FLAG (bi_flags (entry_at s a)) f"
proof -
  obtain bi where bi: "infos s a = Some bi" using assms(1) by auto
  then show ?thesis using reflagged_one[OF bi, of K "SET_FLAG (bi_flags bi) f"] assms(2)
    by (auto simp: set_bits_Some entry_at_def)
qed

lemma unset_bits_step:
  assumes "infos s a \<noteq> None" "\<And>v k. k \<notin> K \<Longrightarrow> bit (UNSET_FLAG v f) k = bit v k"
  shows "\<exists>s'. unset_bits a f s = Inr s' \<and> reflagged K s s' \<and> infos s' a \<noteq> None \<and> (\<forall>x. x \<noteq> a \<longrightarrow> entry_at s' x = entry_at s x) \<and>
     bi_flags (entry_at s' a) = UNSET_FLAG (bi_flags (entry_at s a)) f"
proof -
  obtain bi where bi: "infos s a = Some bi" using assms(1) by auto
  then show ?thesis using reflagged_one[OF bi, of K "UNSET_FLAG (bi_flags bi) f"] assms(2)
    by (auto simp: unset_bits_Some entry_at_def)
qed

lemma reflagged_dom: "reflagged K s t \<Longrightarrow> infos s x \<noteq> None \<Longrightarrow> infos t x \<noteq> None"
  using reflaggedD[of K s t x] by (metis option.distinct(1) option.exhaust)

lemma mark_spec:
  assumes "\<forall>a. old = Some a \<or> new = Some a \<longrightarrow> infos s a \<noteq> None"
  shows "\<exists>s'. mark_selected b old new s = Inr s' \<and> reflagged {3, 5, 12} s s' \<and>
     (\<forall>x. selected s' x \<longleftrightarrow> new = Some x \<or> (selected s x \<and> old \<noteq> Some x))"
proof -
  have "\<exists>t. (case old of None \<Rightarrow> Inr s | Some a \<Rightarrow> unset_bits a BGP_INFO_SELECTED s) = Inr t \<and> reflagged {3, 5, 12} s t \<and>
     (\<forall>x. selected t x \<longleftrightarrow> selected s x \<and> old \<noteq> Some x)"
  proof (cases old)
    case None
    then show ?thesis by (simp add: reflagged_refl)
  next
    case (Some a)
    obtain t where t: "unset_bits a BGP_INFO_SELECTED s = Inr t" "reflagged {3, 5, 12} s t" "\<forall>x. x \<noteq> a \<longrightarrow> entry_at t x = entry_at s x"
      "bi_flags (entry_at t a) = UNSET_FLAG (bi_flags (entry_at s a)) BGP_INFO_SELECTED"
      using unset_bits_step[of s a "{3, 5, 12}" BGP_INFO_SELECTED] assms Some by (auto simp: flag_bits)
    have "selected t x \<longleftrightarrow> selected s x \<and> a \<noteq> x" for x using t(3,4) by (cases "x = a") (auto simp: flag_bits)
    then show ?thesis using Some t(1,2) by auto
  qed
  then obtain t where t: "(case old of None \<Rightarrow> Inr s | Some a \<Rightarrow> unset_bits a BGP_INFO_SELECTED s) = Inr t" "reflagged {3, 5, 12} s t"
    "\<forall>x. selected t x \<longleftrightarrow> selected s x \<and> old \<noteq> Some x" by blast
  show ?thesis
  proof (cases new)
    case None
    then show ?thesis unfolding mark_selected_def set_plain using t by auto
  next
    case (Some a)
    have "infos t a \<noteq> None" using reflagged_dom[OF t(2)] assms Some by auto
    then obtain u where u: "set_bits a BGP_INFO_SELECTED t = Inr u" "reflagged {3, 5, 12} t u" "infos u a \<noteq> None"
      "\<forall>x. x \<noteq> a \<longrightarrow> entry_at u x = entry_at t x" "bi_flags (entry_at u a) = SET_FLAG (bi_flags (entry_at t a)) BGP_INFO_SELECTED"
      using set_bits_step[of t a "{3, 5, 12}" BGP_INFO_SELECTED] by (auto simp: flag_bits)
    then obtain v where v: "unset_bits a BGP_INFO_ATTR_CHANGED u = Inr v" "reflagged {3, 5, 12} u v" "infos v a \<noteq> None"
      "\<forall>x. x \<noteq> a \<longrightarrow> entry_at v x = entry_at u x" "bi_flags (entry_at v a) = UNSET_FLAG (bi_flags (entry_at u a)) BGP_INFO_ATTR_CHANGED"
      using unset_bits_step[of u a "{3, 5, 12}" BGP_INFO_ATTR_CHANGED] by (auto simp: flag_bits)
    then obtain w where w: "unset_bits a BGP_INFO_MULTIPATH_CHG v = Inr w" "reflagged {3, 5, 12} v w"
      "\<forall>x. x \<noteq> a \<longrightarrow> entry_at w x = entry_at v x" "bi_flags (entry_at w a) = UNSET_FLAG (bi_flags (entry_at v a)) BGP_INFO_MULTIPATH_CHG"
      using unset_bits_step[of v a "{3, 5, 12}" BGP_INFO_MULTIPATH_CHG] by (auto simp: flag_bits)
    have "mark_selected b old new s = Inr w" unfolding mark_selected_def set_plain using t(1) Some u(1) v(1) w(1) by simp
    moreover have "reflagged {3, 5, 12} s w" using t(2) u(2) v(2) w(2) reflagged_trans by blast
    moreover have "selected w x \<longleftrightarrow> a = x \<or> (selected s x \<and> old \<noteq> Some x)" for x
      using t(3) u(4,5) v(4,5) w(3,4) by (cases "x = a") (auto simp: flag_bits)
    ultimately show ?thesis using Some by auto
  qed
qed

definition kernel_calls :: "nat option \<Rightarrow> nat option \<Rightarrow> announcement list \<Rightarrow> bool" where
  "kernel_calls old new cs \<longleftrightarrow> cs = [] \<or> (\<exists>n. new = Some n \<and> cs = [ZebraAnnounce n]) \<or> (\<exists>o'. old = Some o' \<and> cs = [ZebraWithdraw o'])"

lemma get_opt_some: "infos s a \<noteq> None \<Longrightarrow> get_opt s (Some a) = Inr (Some (entry_at s a))"
  by (auto simp: get_opt_def get_info_def entry_at_def)

lemma fib_update_spec:
  assumes "\<forall>a. old = Some a \<or> new = Some a \<longrightarrow> infos s a \<noteq> None"
  shows "\<exists>cs. fib_update b no_fib safi old new s = Inr (s\<lparr>calls := calls s @ cs\<rparr>) \<and> kernel_calls old new cs"
proof -
  have "\<exists>r. is_bgp_normal s x = Inr r \<and> (r \<longrightarrow> x \<noteq> None)" if "\<forall>a. x = Some a \<longrightarrow> infos s a \<noteq> None" for x
    using that get_opt_some[of s] by (cases x) (auto simp: is_bgp_normal_def get_opt_def)
  then obtain n m where "is_bgp_normal s new = Inr n" "n \<longrightarrow> new \<noteq> None" "is_bgp_normal s old = Inr m" "m \<longrightarrow> old \<noteq> None"
    using assms by metis
  then show ?thesis
    by (cases n; cases m) (auto simp: fib_update_def record_call_def kernel_calls_def intro: exI[of _ "[]"])
qed

lemma announce_all:
  "fold (\<lambda>p. record_call (AnnounceSelected p new)) ps s = s\<lparr>calls := calls s @ map (\<lambda>p. AnnounceSelected p new) ps\<rparr>"
  by (induction ps arbitrary: s) (simp_all add: record_call_def)

lemma entry_at_more [simp]:
  "entry_at (s\<lparr>calls := c\<rparr>) = entry_at s" "entry_at (s\<lparr>bn_scheduled := f\<rparr>) = entry_at s"
  by (simp_all add: entry_at_def fun_eq_iff)

lemma rib_ok_more [simp]:
  "rib_ok valid (s\<lparr>calls := c\<rparr>) = rib_ok valid s" "rib_ok valid (s\<lparr>bn_scheduled := f\<rparr>) = rib_ok valid s"
  by (simp_all add: rib_ok_def locks_ok_def)

lemma holds_some: "infos s a \<noteq> None \<Longrightarrow> holds s a f = Inr (CHECK_FLAG (bi_flags (entry_at s a)) f)"
  by (auto simp: holds_def get_info_def entry_at_def)

text \<open>What processing a node establishes, given the entry it chose: the removed entries are gone, the chosen
  entry alone is marked as selected, and every peer is told unless nothing changed.\<close>

definition processed :: "bgp \<Rightarrow> rib \<Rightarrow> nat option \<Rightarrow> rib \<Rightarrow> bool" where
  "processed b s new s' \<longleftrightarrow> \<not> bn_scheduled s' \<and> pcount s' = pcount s \<and>
     bn_info s' = filter (\<lambda>a. \<not> removed s a) (bn_info s) \<and>
     (\<forall>a\<in>set (bn_info s'). selected s' a \<longleftrightarrow> new = Some a) \<and>
     (\<exists>old cs. kernel_calls old new cs \<and>
        calls s' = calls s @ (if new \<noteq> None \<and> selected s (the new) \<and> \<not> bit (bi_flags (entry_at s (the new))) 5 then []
          else map (\<lambda>p. AnnounceSelected p new) (bgp_peers b)) @ cs)"

context path_order
begin

lemma process_unchanged:
  assumes "rib_ok valid s1" "quiet s1" "n \<in> set (bn_info s1)" "bgp_best_selection b peers s = Inr (Some n, Some n, s1)"
    "\<not> bit (bi_flags (entry_at s1 n)) 5" "held s1"
  shows "\<exists>s' cs. bgp_process_main b peers no_fib safi s = Inr s' \<and> rib_ok valid s' \<and> quiet s' \<and> \<not> bn_scheduled s' \<and> same_node s1 s' \<and>
     pcount s' = pcount s1 \<and> bn_info s' = bn_info s1 \<and> (\<forall>x. selected s' x = selected s1 x) \<and>
     kernel_calls None (Some n) cs \<and> calls s' = calls s1 @ cs"
proof -
  define ch where "ch = CHECK_FLAG (bi_flags (entry_at s1 n)) (BGP_INFO_IGP_CHANGED OR BGP_INFO_MULTIPATH_CHG)"
  define cs where "cs = (if ch then [ZebraAnnounce n] else [])"
  define s2 where "s2 = s1\<lparr>calls := calls s1 @ cs\<rparr>"
  have n: "infos s1 n \<noteq> None" using rib_okD[OF assms(1,3)] by simp
  then obtain t where t: "unset_bits n BGP_INFO_MULTIPATH_CHG s2 = Inr t" "reflagged {12} s2 t"
    using unset_bits_step[of s2 n "{12}" BGP_INFO_MULTIPATH_CHG] by (auto simp: flag_bits s2_def)
  have nd: "same_node s1 t" using reflagged_node[OF t(2)] by (simp add: s2_def)
  have "bn_live t" using same_node_held[OF nd assms(6)] by (simp add: held_def)
  then have "bgp_process_main b peers no_fib safi s = Inr (t\<lparr>bn_scheduled := False\<rparr>)"
    using assms(4,5) n t(1)
    by (simp add: clear_scheduled_def node_access_def bgp_process_main_def holds_some check_bits record_call_def s2_def cs_def ch_def[symmetric] split: if_splits)
  moreover have "rib_ok valid t" using reflagged_rib_ok[OF t(2)] assms(1) by (simp add: s2_def)
  moreover have "selected t x = selected s1 x" "checked t x = checked s1 x" "winner t x = winner s1 x" for x
    using reflagged_entry[OF t(2), of x] by (simp_all add: reflag_def s2_def)
  ultimately show ?thesis
    using reflagged_fields[OF t(2)] assms(2) nd
    by (intro exI[of _ "t\<lparr>bn_scheduled := False\<rparr>"] exI[of _ cs]) (auto simp: s2_def cs_def quiet_def kernel_calls_def)
qed

lemma process_changed:
  assumes "rib_ok valid s1" "quiet s1" "bgp_best_selection b peers s = Inr (old, new, s1)"
    "\<forall>a. old = Some a \<or> new = Some a \<longrightarrow> a \<in> set (bn_info s1)"
    "\<not> (old = new \<and> old \<noteq> None \<and> \<not> bit (bi_flags (entry_at s1 (the old))) 5)"
    "\<forall>a\<in>set (bn_info s1). removed s1 a \<longrightarrow> old = Some a" "\<forall>a\<in>set (bn_info s1). selected s1 a \<longrightarrow> old = Some a"
    "held s1"
  shows "\<exists>s' cs. bgp_process_main b peers no_fib safi s = Inr s' \<and> rib_ok valid s' \<and> quiet s' \<and> \<not> bn_scheduled s' \<and> same_node s1 s' \<and>
     pcount s' = pcount s1 \<and> bn_info s' = filter (\<lambda>a. \<not> removed s1 a) (bn_info s1) \<and>
     (\<forall>a\<in>set (bn_info s'). selected s' a \<longleftrightarrow> new = Some a) \<and>
     kernel_calls old new cs \<and> calls s' = calls s1 @ map (\<lambda>p. AnnounceSelected p new) (bgp_peers b) @ cs"
proof -
  have dom: "\<forall>a. old = Some a \<or> new = Some a \<longrightarrow> infos s1 a \<noteq> None" using rib_okD[OF assms(1)] assms(4) by fastforce
  obtain s2 where s2: "mark_selected b old new s1 = Inr s2" "reflagged {3, 5, 12} s1 s2"
    "\<forall>x. selected s2 x \<longleftrightarrow> new = Some x \<or> (selected s1 x \<and> old \<noteq> Some x)" using mark_spec[OF dom] by blast
  define s3 where "s3 = fold (\<lambda>p. record_call (AnnounceSelected p new)) (bgp_peers b) s2"
  have s3: "s3 = s2\<lparr>calls := calls s2 @ map (\<lambda>p. AnnounceSelected p new) (bgp_peers b)\<rparr>" by (simp add: s3_def announce_all)
  have dom2: "\<forall>a. old = Some a \<or> new = Some a \<longrightarrow> infos s2 a \<noteq> None" using dom reflagged_dom[OF s2(2)] by blast
  then have dom3: "\<forall>a. old = Some a \<or> new = Some a \<longrightarrow> infos s3 a \<noteq> None" by (simp add: s3)
  obtain cs where cs: "fib_update b no_fib safi old new s3 = Inr (s3\<lparr>calls := calls s3 @ cs\<rparr>)" "kernel_calls old new cs"
    using fib_update_spec[OF dom3] by blast
  define s4 where "s4 = s3\<lparr>calls := calls s3 @ cs\<rparr>"
  note rf = reflagged_fields[OF s2(2)]
  have f4: "bn_info s4 = bn_info s1" "pcount s4 = pcount s1" "entry_at s4 = entry_at s2"
    "calls s4 = calls s1 @ map (\<lambda>p. AnnounceSelected p new) (bgp_peers b) @ cs" using rf by (simp_all add: s4_def s3)
  have ok4: "rib_ok valid s4" using reflagged_rib_ok[OF s2(2) assms(1)] by (simp add: s4_def s3)
  have bits: "removed s2 x = removed s1 x" "checked s2 x = checked s1 x" "winner s2 x = winner s1 x" for x
    using reflagged_entry[OF s2(2), of x] by (simp_all add: reflag_def)
  have sel: "selected s2 a \<longleftrightarrow> new = Some a" if "a \<in> set (bn_info s1)" for a using s2(3) assms(7) that by auto
  have "\<exists>s5. (case old of None \<Rightarrow> Inr s4 | Some a \<Rightarrow> bindE (holds s4 a BGP_INFO_REMOVED) (\<lambda>r. if r then bgp_info_reap a s4 else Inr s4)) = Inr s5 \<and>
     rib_ok valid s5 \<and> bn_info s5 = filter (\<lambda>a. \<not> removed s1 a) (bn_info s1) \<and> same_rest s4 s5 \<and>
     (\<forall>x\<in>set (bn_info s5). entry_at s5 x = entry_at s4 x)"
  proof (cases "\<exists>a. old = Some a \<and> removed s1 a")
    case True
    then obtain a where a: "old = Some a" "removed s1 a" by blast
    have al: "a \<in> set (bn_info s4)" using assms(4) a(1) f4(1) by simp
    obtain s5 where s5: "bgp_info_reap a s4 = Inr s5" "rib_ok valid s5" "bn_info s5 = remove1 a (bn_info s4)"
      "\<forall>x. x \<noteq> a \<longrightarrow> infos s5 x = infos s4 x" "same_rest s4 s5" using reap_spec[OF ok4 al] by blast
    have d: "distinct (bn_info s1)" using assms(1) by (simp add: rib_ok_def)
    have "bn_info s5 = filter (\<lambda>a. \<not> removed s1 a) (bn_info s1)"
      using s5(3) f4(1) d assms(6) a by (auto simp: distinct_remove1_removeAll removeAll_filter_not_eq intro!: filter_cong)
    moreover have "holds s4 a BGP_INFO_REMOVED = Inr True"
      using holds_some[of s4 a] rib_okD(1)[OF ok4 al] a(2) bits(1) f4(3) by (simp add: check_bits)
    moreover have "entry_at s5 x = entry_at s4 x" if "x \<in> set (bn_info s5)" for x
      using that s5(3,4) d f4(1) by (auto simp: entry_at_def)
    ultimately show ?thesis using s5(1,2,5) a(1) by auto
  next
    case False
    have "(case old of None \<Rightarrow> Inr s4 | Some a \<Rightarrow> bindE (holds s4 a BGP_INFO_REMOVED) (\<lambda>r. if r then bgp_info_reap a s4 else Inr s4)) = Inr s4"
    proof (cases old)
      case (Some a)
      then have "infos s4 a \<noteq> None" using dom2 by (simp add: s4_def s3)
      then show ?thesis using Some False holds_some[of s4 a] bits(1) f4(3) by (simp add: check_bits)
    qed simp
    moreover have "filter (\<lambda>a. \<not> removed s1 a) (bn_info s1) = bn_info s1" using assms(6) False by (intro filter_True ballI) blast
    ultimately show ?thesis using ok4 f4(1) by (auto simp: same_rest_def)
  qed
  then obtain s5 where s5: "(case old of None \<Rightarrow> Inr s4 | Some a \<Rightarrow> bindE (holds s4 a BGP_INFO_REMOVED) (\<lambda>r. if r then bgp_info_reap a s4 else Inr s4)) = Inr s5"
    "rib_ok valid s5" "bn_info s5 = filter (\<lambda>a. \<not> removed s1 a) (bn_info s1)" "same_rest s4 s5" "\<forall>x\<in>set (bn_info s5). entry_at s5 x = entry_at s4 x"
    by blast
  have nd: "same_node s1 s5"
    using reflagged_node[OF s2(2)] s5(4) same_node_trans[of s1 s2 s5] by (simp add: same_rest_def s4_def s3)
  have live: "bn_live s5" using same_node_held[OF nd assms(8)] by (simp add: held_def)
  have rest: "bindE (mark_selected b old new s1) (\<lambda>s.
        bindE (fib_update b no_fib safi old new (fold (\<lambda>p. record_call (AnnounceSelected p new)) (bgp_peers b) s)) (\<lambda>s.
        bindE (case old of None \<Rightarrow> Inr s
               | Some a \<Rightarrow> bindE (holds s a BGP_INFO_REMOVED) (\<lambda>removed. if removed then bgp_info_reap a s else Inr s)) (\<lambda>s.
          clear_scheduled s))) = Inr (s5\<lparr>bn_scheduled := False\<rparr>)"
    unfolding s2(1) bindE.simps cs(1)[folded s4_def, unfolded s3_def] s5(1) using live by (simp add: clear_scheduled_def node_access_def)
  have "bgp_process_main b peers no_fib safi s = Inr (s5\<lparr>bn_scheduled := False\<rparr>)"
  proof (cases old)
    case None
    then show ?thesis using assms(3) rest by (simp add: bgp_process_main_def)
  next
    case (Some a)
    then show ?thesis using assms(3,5) rest dom holds_some[of s1 a BGP_INFO_ATTR_CHANGED]
      by (cases "old = new") (simp_all add: bgp_process_main_def check_bits)
  qed
  then show ?thesis
    using s5(2-5) cs(2) f4 bits sel assms(2) nd
    by (intro exI[of _ "s5\<lparr>bn_scheduled := False\<rparr>"] exI[of _ cs]) (auto simp: same_rest_def quiet_def)
qed

end

context path_order
begin

lemma process_spec:
  assumes ok: "rib_ok valid s" and q: "quiet s" and one: "one_selected s" and held: "held s"
  shows "\<exists>new s'. bgp_process_main b peers no_fib safi s = Inr s' \<and> rib_ok valid s' \<and> quiet s' \<and> one_selected s' \<and> same_node s s' \<and>
     best_path key s new \<and> processed b s new s'"
proof -
  define old where "old = last_selected s (bn_info s) None"
  obtain new s1 where sel: "bgp_best_selection b peers s = Inr (old, new, s1)" "rib_ok valid s1" "sweep_result s s1" "best_path key s new"
    using selection_spec[OF ok q] unfolding old_def by blast
  have bn: "bn_info s1 = filter (\<lambda>a. \<not> reaped (entry_at s a)) (bn_info s)" and same: "same_rest s s1"
    and at: "\<And>a. a \<in> set (bn_info s1) \<Longrightarrow> entry_at s1 a = entry_at s a"
    using sel(3) by (auto simp: sweep_result_def entry_at_def)
  have nd: "same_node s s1" using same by (simp add: same_rest_def)
  note held1 = same_node_held[OF nd held] and nd' = same_node_trans[OF nd]
  have q1: "quiet s1" using q at by (auto simp: quiet_def bn)
  have old: "old = Some a \<longleftrightarrow> selected s a" if "a \<in> set (bn_info s)" for a using last_selected_iff[OF one that] by (simp add: old_def)
  have old_in: "a \<in> set (bn_info s1)" if "old = Some a" for a
    using last_selected_in[of s "bn_info s" None a] that by (auto simp: old_def bn reaped_def)
  have new_in: "a \<in> set (bn_info s1)" "alive (entry_at s a)" if "new = Some a" for a
    using sel(4) that reaped_dead[of "entry_at s a"] by (auto simp: best_path_def bn)
  have rem: "removed s a \<longrightarrow> old = Some a" if "a \<in> set (bn_info s1)" for a using that old by (auto simp: bn reaped_def)
  have flt: "filter (\<lambda>a. \<not> removed s1 a) (bn_info s1) = filter (\<lambda>a. \<not> removed s a) (bn_info s)"
  proof -
    have "filter (\<lambda>a. \<not> removed s1 a) (bn_info s1) = filter (\<lambda>a. \<not> removed s a) (bn_info s1)" using at by (intro filter_cong) auto
    then show ?thesis by (auto simp: bn reaped_def intro!: filter_cong)
  qed
  show ?thesis
  proof (cases "old = new \<and> old \<noteq> None \<and> \<not> bit (bi_flags (entry_at s1 (the old))) 5")
    case True
    then obtain n where n: "old = Some n" "new = Some n" "\<not> bit (bi_flags (entry_at s1 n)) 5" by auto
    have nl: "n \<in> set (bn_info s1)" using old_in n by blast
    obtain s' cs where s': "bgp_process_main b peers no_fib safi s = Inr s'" "rib_ok valid s'" "quiet s'" "\<not> bn_scheduled s'"
      "pcount s' = pcount s1" "bn_info s' = bn_info s1" "\<forall>x. selected s' x = selected s1 x"
      "kernel_calls None (Some n) cs" "calls s' = calls s1 @ cs" "same_node s1 s'"
      using process_unchanged[OF sel(2) q1 nl sel(1)[unfolded n] n(3) held1] by blast
    have "\<not> removed s1 a" if "a \<in> set (bn_info s1)" for a
      using rem[OF that] n new_in(2) at[OF that] by (auto simp: alive_bits)
    then have "bn_info s' = filter (\<lambda>a. \<not> removed s a) (bn_info s)" using s'(6) by (simp add: flt[symmetric] filter_id_conv)
    moreover have "selected s' a \<longleftrightarrow> new = Some a" if "a \<in> set (bn_info s')" for a
      using that s'(6,7) at old[of a] n by (auto simp: bn)
    moreover have "selected s n" "\<not> bit (bi_flags (entry_at s n)) 5" using old[of n] n at[OF nl] nl by (auto simp: bn)
    ultimately show ?thesis
      using s' sel(4) same n(2) nd' by (intro exI[of _ new] exI[of _ s']) (auto simp: processed_def same_rest_def one_selected_def)
  next
    case False
    have in1: "\<forall>a. old = Some a \<or> new = Some a \<longrightarrow> a \<in> set (bn_info s1)" using old_in new_in by blast
    have o1: "\<forall>a\<in>set (bn_info s1). removed s1 a \<longrightarrow> old = Some a" "\<forall>a\<in>set (bn_info s1). selected s1 a \<longrightarrow> old = Some a"
      using rem at old by (auto simp: bn)
    obtain s' cs where s': "bgp_process_main b peers no_fib safi s = Inr s'" "rib_ok valid s'" "quiet s'" "\<not> bn_scheduled s'"
      "pcount s' = pcount s1" "bn_info s' = filter (\<lambda>a. \<not> removed s1 a) (bn_info s1)" "\<forall>a\<in>set (bn_info s'). selected s' a \<longleftrightarrow> new = Some a"
      "kernel_calls old new cs" "calls s' = calls s1 @ map (\<lambda>p. AnnounceSelected p new) (bgp_peers b) @ cs" "same_node s1 s'"
      using process_changed[OF sel(2) q1 sel(1) in1 False o1 held1] by blast
    have "\<not> (new \<noteq> None \<and> selected s (the new) \<and> \<not> bit (bi_flags (entry_at s (the new))) 5)"
    proof
      assume a: "new \<noteq> None \<and> selected s (the new) \<and> \<not> bit (bi_flags (entry_at s (the new))) 5"
      then obtain n where n: "new = Some n" by auto
      have "n \<in> set (bn_info s1)" using new_in n by blast
      then show False using False a n old[of n] at[of n] by (auto simp: bn)
    qed
    then show ?thesis
      using s' sel(4) same flt nd' by (intro exI[of _ new] exI[of _ s']) (auto simp: processed_def same_rest_def one_selected_def)
  qed
qed

end

subsection \<open>The decision process\<close>

definition always_med :: "bgp \<Rightarrow> bgp" where
  "always_med b = b\<lparr>bgp_flags := bgp_flags b OR (BGP_FLAG_ALWAYS_COMPARE_MED OR BGP_FLAG_COMPARE_ROUTER_ID)\<rparr>"

lemma always_med_flags:
  "bgp_flag_check (always_med b) BGP_FLAG_ALWAYS_COMPARE_MED" "bgp_flag_check (always_med b) BGP_FLAG_COMPARE_ROUTER_ID"
  using bit_or_iff[of "bgp_flags b" "BGP_FLAG_ALWAYS_COMPARE_MED OR BGP_FLAG_COMPARE_ROUTER_ID" 0]
    bit_or_iff[of "bgp_flags b" "BGP_FLAG_ALWAYS_COMPARE_MED OR BGP_FLAG_COMPARE_ROUTER_ID" 7]
    CHECK_FLAG_exp[of "bgp_flags (always_med b)" 0] CHECK_FLAG_exp[of "bgp_flags (always_med b)" 7]
  by (simp_all add: always_med_def bgp_flag_check_def BGP_FLAG_ALWAYS_COMPARE_MED_def BGP_FLAG_COMPARE_ROUTER_ID_def bit_or_iff)

lemma reflag_attr: "reflag K x y \<Longrightarrow> \<exists>f. y = x\<lparr>bi_flags := f\<rparr>"
  by (auto simp: reflag_def)

lemma info_key_flags: "info_key b peers (x\<lparr>bi_flags := f\<rparr>) = info_key b peers x"
  by (simp add: info_key_def learnt_key_def final_key_def info_weight_def info_pref_def sub_rank_def info_hops_def info_metric_def
      info_id_def info_cluster_def)

lemma info_ok_flags: "info_ok b peers (x\<lparr>bi_flags := f\<rparr>) = info_ok b peers x"
  by (simp add: info_ok_def sub_rank_def)

lemma same_neighbour_total:
  assumes "info_ok b peers x" "info_ok b peers y"
  shows "\<exists>r. same_neighbour x y = Inr r"
proof -
  have ne: "seg \<in> set (segments (attr_aspath (bi_attr x))) \<or> seg \<in> set (segments (attr_aspath (bi_attr y))) \<Longrightarrow> 0 < length (seg_as seg)" for seg
    using assms by (auto simp: info_ok_def)
  have first: "first_nonconfed segs = Some seg \<Longrightarrow> seg \<in> set segs" for segs seg
    by (auto simp: first_nonconfed_def find_Some_iff)
  have head: "\<exists>v. aget (seg_as seg) 0 = Inr v"
    if "seg \<in> set (segments (attr_aspath (bi_attr x))) \<or> seg \<in> set (segments (attr_aspath (bi_attr y)))" for seg
    using ne[OF that] by (simp add: aget_def)
  have "\<exists>r. aspath_cmp_left (Some (attr_aspath (bi_attr x))) (Some (attr_aspath (bi_attr y))) = Inr r"
  proof (cases "\<exists>seg1 seg2. first_nonconfed (segments (attr_aspath (bi_attr x))) = Some seg1 \<and>
      first_nonconfed (segments (attr_aspath (bi_attr y))) = Some seg2")
    case True
    then obtain seg1 seg2 where seg: "first_nonconfed (segments (attr_aspath (bi_attr x))) = Some seg1"
      "first_nonconfed (segments (attr_aspath (bi_attr y))) = Some seg2" by blast
    obtain u v where "aget (seg_as seg1) 0 = Inr u" "aget (seg_as seg2) 0 = Inr v" using head first seg by meson
    then show ?thesis using seg by (auto simp: aspath_cmp_left_def)
  next
    case False
    then show ?thesis by (auto simp: aspath_cmp_left_def split: option.splits)
  qed
  moreover have "\<exists>r. aspath_cmp_left_confed (Some (attr_aspath (bi_attr x))) (Some (attr_aspath (bi_attr y))) = Inr r"
  proof (cases "\<exists>seg1 xs seg2 ys. segments (attr_aspath (bi_attr x)) = seg1 # xs \<and> segments (attr_aspath (bi_attr y)) = seg2 # ys")
    case True
    then obtain seg1 xs seg2 ys where seg: "segments (attr_aspath (bi_attr x)) = seg1 # xs" "segments (attr_aspath (bi_attr y)) = seg2 # ys" by blast
    then obtain u v where "aget (seg_as seg1) 0 = Inr u" "aget (seg_as seg2) 0 = Inr v" using head[of seg1] head[of seg2] by auto
    then show ?thesis using seg by (auto simp: aspath_cmp_left_confed_def)
  next
    case False
    then show ?thesis by (auto simp: aspath_cmp_left_confed_def split: list.splits)
  qed
  ultimately show ?thesis by (auto simp: same_neighbour_def)
qed

lemma path_order_key:
  assumes "bgp_flag_check b BGP_FLAG_ALWAYS_COMPARE_MED" "bgp_flag_check b BGP_FLAG_COMPARE_ROUTER_ID"
  shows "path_order b peers (info_key b peers) (info_ok b peers)"
proof
  show "info_ok b peers n \<Longrightarrow> info_ok b peers e \<Longrightarrow> prefers b peers n e = Inr (info_key b peers n \<le> info_key b peers e)" for n e
    by (rule cmp_key[OF assms])
  show "reflag K x y \<Longrightarrow> info_key b peers y = info_key b peers x \<and> info_ok b peers y = info_ok b peers x" for K x y
    using reflag_attr[of K x y] info_key_flags info_ok_flags by metis
  show "info_ok b peers x \<Longrightarrow> info_ok b peers y \<Longrightarrow> \<exists>r. same_neighbour x y = Inr r" for x y
    by (rule same_neighbour_total)
qed

interpretation lex: path_order "always_med b" peers "info_key (always_med b) peers" "info_ok (always_med b) peers"
  by (rule path_order_key[OF always_med_flags])

lemma always_med_same:
  assumes "bgp_flag_check b BGP_FLAG_ALWAYS_COMPARE_MED" "bgp_flag_check b BGP_FLAG_COMPARE_ROUTER_ID"
  shows "always_med b = b"
proof -
  have "bit (bgp_flags b) 0" "bit (bgp_flags b) 7"
    using assms CHECK_FLAG_exp[of "bgp_flags b" 0] CHECK_FLAG_exp[of "bgp_flags b" 7]
    by (simp_all add: bgp_flag_check_def BGP_FLAG_ALWAYS_COMPARE_MED_def BGP_FLAG_COMPARE_ROUTER_ID_def)
  then have "bit (bgp_flags b OR (2 ^ 0 OR 2 ^ 7)) n = bit (bgp_flags b) n" for n
    unfolding bit_or_iff bit_exp_iff by auto
  then have "bgp_flags b OR (2 ^ 0 OR 2 ^ 7) = bgp_flags b" by (intro bit_eqI) blast
  then show ?thesis by (simp add: always_med_def BGP_FLAG_ALWAYS_COMPARE_MED_def BGP_FLAG_COMPARE_ROUTER_ID_def)
qed

definition sample_bgp :: "u16 \<Rightarrow> bgp" where
  "sample_bgp flags = \<lparr>bgp_as = 65000, bgp_config = 0, router_id = 1, confed_id = 0, confed_peers = [], bgp_flags = flags,
     default_local_pref = 100, default_holdtime = 180, default_keepalive = 60, stalepath_time = 360, bgp_name = None, bgp_peers = [1, 2], peer_self = 0\<rparr>"

definition sample_peers :: "nat \<Rightarrow> peer" where
  "sample_peers n = \<lparr>peer_as = of_nat (100 * n), local_as = 65000, sflags = 0, group_head = None, remote_id = of_nat n,
     su_remote = Some \<lparr>sa_family = AF_INET, sin_addr = [10, 0, 0, of_nat n], sin6_addr = []\<rparr>\<rparr>"

definition sample_info :: "nat \<Rightarrow> as_t \<Rightarrow> u32 \<Rightarrow> u32 \<Rightarrow> bgp_info" where
  "sample_info p asn m metric = \<lparr>bi_peer = p,
     bi_attr = \<lparr>attr_aspath = \<lparr>refcnt = 1, segments = [\<lparr>seg_type = AS_SEQUENCE, seg_as = [asn]\<rparr>], str = None\<rparr>,
       extra = None, attr_flag = ATTR_FLAG_BIT BGP_ATTR_MULTI_EXIT_DISC, med = m, local_pref = 0, origin = 0\<rparr>,
     igpmetric = Some metric, bi_lock = 1, bi_flags = BGP_INFO_VALID, bi_type = ZEBRA_ROUTE_BGP, sub_type = BGP_ROUTE_NORMAL\<rparr>"

definition sample_rib :: "nat list \<Rightarrow> rib" where
  "sample_rib order =
     \<lparr>infos = [1 \<mapsto> sample_info 1 100 10 10, 2 \<mapsto> sample_info 2 200 0 20, 3 \<mapsto> sample_info 3 100 5 30],
      bn_info = order, bn_lock = 3, bn_both = False, bn_live = True, bn_scheduled = False, table_main = True,
      bgp_refs = 1, table_refs = 1, peer_locks = (\<lambda>_. 3), pcount = (\<lambda>_. 0), calls = []\<rparr>"

lemma sample_ok: "n \<in> {1, 2, 3} \<Longrightarrow> info_ok (sample_bgp f) sample_peers (sample_info n a m x)"
  by (auto simp: info_ok_def sample_bgp_def sample_peers_def sample_info_def peer_sort_def su_ok_def AF_INET_def AF_INET6_def
      CHECK_FLAG_def ATTR_FLAG_BIT_def BGP_ATTR_MULTI_EXIT_DISC_def BGP_ATTR_ORIGINATOR_ID_def BGP_ATTR_CLUSTER_LIST_def push_bit_eq_mult)

lemma sample_rib_ok: "rib_ok (info_ok (sample_bgp f) sample_peers) (sample_rib [1, 2, 3])"
  using sample_ok[of 1 f] sample_ok[of 2 f] sample_ok[of 3 f]
  by (auto simp: rib_ok_def locks_ok_def sample_rib_def entry_at_def sample_info_def)

lemma sample_quiet: "quiet (sample_rib [1, 2, 3])" "one_selected (sample_rib [1, 2, 3])"
  using check_bits(4,7,8)[of BGP_INFO_VALID]
  by (auto simp: quiet_def one_selected_def sample_rib_def entry_at_def sample_info_def CHECK_FLAG_def info_flag_defs)

lemma sample_flags:
  "bgp_flag_check (sample_bgp 131) BGP_FLAG_ALWAYS_COMPARE_MED" "bgp_flag_check (sample_bgp 131) BGP_FLAG_COMPARE_ROUTER_ID"
  by (simp_all add: bgp_flag_check_def sample_bgp_def CHECK_FLAG_def BGP_FLAG_ALWAYS_COMPARE_MED_def BGP_FLAG_COMPARE_ROUTER_ID_def)

text \<open>C7: When the configuration compares the exit discriminators of all paths and the router identifiers of
  external ones, the thirteen steps of \<^verbatim>\<open>bgp_info_cmp\<close> are one lexicographic order: the new path is preferred
  exactly when its key is at most that of the existing one, and the comparison never dereferences a missing
  attribute. In particular the preference is total and transitive.\<close>

theorem bgp_info_cmp_lexicographic:
  assumes "bgp_flag_check b BGP_FLAG_ALWAYS_COMPARE_MED" "bgp_flag_check b BGP_FLAG_COMPARE_ROUTER_ID"
    "info_ok b peers new" "info_ok b peers exist"
  shows "\<exists>paths_eq. bgp_info_cmp b peers (Some new) (Some exist) = Inr (info_key b peers new \<le> info_key b peers exist, paths_eq)"
  using path_order.cmp_pair[OF path_order_key[OF assms(1,2)] assms(3,4)] .

theorem bgp_info_cmp_lexicographic_witness:
  "\<exists>q. bgp_info_cmp (sample_bgp 131) sample_peers (Some (sample_info 1 100 10 10)) (Some (sample_info 2 200 0 20)) =
     Inr (info_key (sample_bgp 131) sample_peers (sample_info 1 100 10 10) \<le>
       info_key (sample_bgp 131) sample_peers (sample_info 2 200 0 20), q)"
  using bgp_info_cmp_lexicographic[OF sample_flags sample_ok sample_ok] by simp

text \<open>C6: In that configuration, with or without deterministic comparison, the selection ends without a
  fault, returns an entry that is usable and least in the order among all usable entries of the node, or none
  exactly when none is usable; it drops exactly the removed entries that are not selected, and every other
  entry, its flags included, is as before.\<close>

theorem bgp_best_selection_least:
  assumes "bgp_flag_check b BGP_FLAG_ALWAYS_COMPARE_MED" "bgp_flag_check b BGP_FLAG_COMPARE_ROUTER_ID"
    "rib_ok (info_ok b peers) s" "quiet s"
  shows "\<exists>old new s'. bgp_best_selection b peers s = Inr (old, new, s') \<and> best_path (info_key b peers) s new \<and>
     rib_ok (info_ok b peers) s' \<and> sweep_result s s'"
  using lex.selection_spec[of b peers s] assms unfolding always_med_same[OF assms(1,2)] by blast

theorem bgp_best_selection_least_witness:
  "\<exists>old new s'. bgp_best_selection (sample_bgp 131) sample_peers (sample_rib [1, 2, 3]) = Inr (old, new, s') \<and>
     best_path (info_key (sample_bgp 131) sample_peers) (sample_rib [1, 2, 3]) new"
  using bgp_best_selection_least[OF sample_flags sample_rib_ok sample_quiet(1)] by blast

text \<open>Scheduling a live node that is not scheduled takes the references of the item; removing the item gives
  them back.\<close>

lemma process_holds:
  assumes "bn_live s" "\<not> bn_scheduled s"
  shows "bgp_process s = Inr (Some (if table_main s then ProcessMain else ProcessRsclient),
     s\<lparr>bn_lock := bn_lock s + 1, bgp_refs := bgp_refs s + 1, table_refs := table_refs s + 1\<rparr>)"
  using assms by (simp add: bgp_process_def bgp_lock_node_def node_access_def)

lemma processq_del_ok:
  assumes "held s" "0 < bgp_refs s" "0 < table_refs s"
  shows "\<exists>s'. bgp_processq_del s = Inr s' \<and> bn_info s' = bn_info s \<and> bn_lock s' + 1 = bn_lock s \<and> bgp_refs s' + 1 = bgp_refs s \<and>
     table_refs s' + 1 = table_refs s \<and> (bn_live s' \<longleftrightarrow> bn_lock s' \<noteq> 0 \<or> bn_both s)"
proof -
  have "bn_info s = []" if "bn_lock s = 1" using assms(1) that by (simp add: held_def)
  then show ?thesis using assms
    by (cases "bn_lock s = 1") (auto simp: bgp_processq_del_def bgp_unlock_def bgp_unlock_node_def bgp_node_delete_def bgp_table_unlock_def
        node_access_def held_def Let_def)
qed

lemma item_refs:
  assumes "rib_ok valid s" "quiet s" "one_selected s"
  defines "s' \<equiv> s\<lparr>bn_lock := bn_lock s + 1, bgp_refs := bgp_refs s + 1, table_refs := table_refs s + 1\<rparr>"
  shows "rib_ok valid s'" "quiet s'" "one_selected s'"
proof -
  have "entry_at s' = entry_at s" by (simp add: s'_def entry_at_def fun_eq_iff)
  moreover have "bn_info s' = bn_info s" "infos s' = infos s" "peer_locks s' = peer_locks s" "bn_live s' = bn_live s" "bn_lock s' = bn_lock s + 1"
    by (simp_all add: s'_def)
  ultimately show "rib_ok valid s'" "quiet s'" "one_selected s'"
    using assms(1-3) unfolding rib_ok_def locks_ok_def quiet_def one_selected_def by simp_all
qed

text \<open>C15: Processing a node, in the configuration that compares the exit discriminators of all paths and the
  router identifiers of external ones, while the item of the work queue holds its references to the node, the
  instance and the table. It ends without a fault and keeps the node consistent: afterwards no removed
  entry is left, the least usable entry and no other is marked as selected, the prefix counts are unchanged,
  and every peer of the instance has been told of the chosen entry unless it was selected before with the same
  attributes; the kernel is told at most once. As many references to the node are given back as entries were dropped, so the
  node is still live, and removing the item from the queue afterwards gives back its own reference and frees the
  node exactly when that was the last one and the node does not join two subtrees.\<close>

theorem bgp_process_main_selects:
  assumes "bgp_flag_check b BGP_FLAG_ALWAYS_COMPARE_MED" "bgp_flag_check b BGP_FLAG_COMPARE_ROUTER_ID"
    "rib_ok (info_ok b peers) s" "quiet s" "one_selected s" "held s" "0 < bgp_refs s" "0 < table_refs s"
  shows "\<exists>new s' s''. bgp_process_main b peers no_fib safi s = Inr s' \<and> rib_ok (info_ok b peers) s' \<and> quiet s' \<and>
     one_selected s' \<and> best_path (info_key b peers) s new \<and> processed b s new s' \<and> held s' \<and>
     bn_lock s' + length (bn_info s) = bn_lock s + length (bn_info s') \<and>
     bgp_processq_del s' = Inr s'' \<and> bn_info s'' = bn_info s' \<and> bn_lock s'' + 1 = bn_lock s' \<and>
     (bn_live s'' \<longleftrightarrow> bn_lock s'' \<noteq> 0 \<or> bn_both s)"
proof -
  obtain new s' where s': "bgp_process_main b peers no_fib safi s = Inr s'" "rib_ok (info_ok b peers) s'" "quiet s'" "one_selected s'"
    "same_node s s'" "best_path (info_key b peers) s new" "processed b s new s'"
    using lex.process_spec[of b peers s no_fib safi] assms unfolding always_med_same[OF assms(1,2)] by blast
  have n: "bgp_refs s' = bgp_refs s" "table_refs s' = table_refs s" "bn_both s' = bn_both s"
    "bn_lock s' + length (bn_info s) = bn_lock s + length (bn_info s')"
    using s'(5) by (simp_all add: same_node_def)
  show ?thesis
    using s' n processq_del_ok[OF same_node_held[OF s'(5) assms(6)]] assms(7,8) same_node_held[OF s'(5) assms(6)] by metis
qed

theorem bgp_process_main_selects_witness:
  "\<exists>s new s' s''. bgp_process (sample_rib [1, 2, 3]) = Inr (Some ProcessMain, s) \<and>
     bgp_process_main (sample_bgp 131) sample_peers False 1 s = Inr s' \<and> processed (sample_bgp 131) s new s' \<and>
     bgp_processq_del s' = Inr s'' \<and> length (bn_info s'') = bn_lock s''"
proof -
  let ?r = "sample_rib [1, 2, 3]"
  let ?s = "?r\<lparr>bn_lock := bn_lock ?r + 1, bgp_refs := bgp_refs ?r + 1, table_refs := table_refs ?r + 1\<rparr>"
  have run: "bgp_process ?r = Inr (Some ProcessMain, ?s)" using process_holds[of ?r] by (simp add: sample_rib_def)
  have s: "held ?s" "0 < bgp_refs ?s" "0 < table_refs ?s" "bn_lock ?s = 4" "length (bn_info ?s) = 3"
    by (simp_all add: held_def sample_rib_def)
  obtain new s' s'' where p: "bgp_process_main (sample_bgp 131) sample_peers False 1 ?s = Inr s'" "processed (sample_bgp 131) ?s new s'"
    "bgp_processq_del s' = Inr s''" "bn_info s'' = bn_info s'" "bn_lock s'' + 1 = bn_lock s'"
    "bn_lock s' + length (bn_info ?s) = bn_lock ?s + length (bn_info s')"
    using bgp_process_main_selects[OF sample_flags item_refs[OF sample_rib_ok sample_quiet] s(1-3), of False 1] by blast
  have "length (bn_info s'') = length (bn_info s')" using p(4) by simp
  then have "length (bn_info s'') = bn_lock s''" using p(5,6) s(4,5) by linarith
  then show ?thesis using run p(1-3) by blast
qed

subsection \<open>Prefix counts\<close>

definition counted :: "bgp_info \<Rightarrow> bool" where
  "counted bi \<longleftrightarrow> CHECK_FLAG (bi_flags bi) BGP_INFO_COUNTED"

definition counted_of :: "rib \<Rightarrow> nat \<Rightarrow> nat list" where
  "counted_of s p = filter (\<lambda>a. bi_peer (entry_at s a) = p \<and> counted (entry_at s a)) (bn_info s)"

text \<open>The life of the entries of a node, among peers that have \<open>base\<close> prefixes counted at other nodes.\<close>

inductive rib_reach :: "bgp \<Rightarrow> (nat \<Rightarrow> nat) \<Rightarrow> rib \<Rightarrow> bool" for b base where
  empty: "rib_reach b base s" if "bn_info s = []" "\<forall>p. unat (pcount s p) = base p"
| add: "rib_reach b base s'"
    if "rib_reach b base s" "infos s a = Some bi" "a \<notin> set (bn_info s)" "\<not> counted bi"
      "\<forall>p. base p + length (bn_info s) + 1 < 2 ^ 64" "bgp_info_add a s = Inr s'"
| set_flag: "rib_reach b base s'"
    if "rib_reach b base s" "a \<in> set (bn_info s)" "\<not> CHECK_FLAG f BGP_INFO_COUNTED" "bgp_info_set_flag b a f s = Inr s'"
| unset_flag: "rib_reach b base s'"
    if "rib_reach b base s" "a \<in> set (bn_info s)" "\<not> CHECK_FLAG f BGP_INFO_COUNTED" "bgp_info_unset_flag b a f s = Inr s'"
| delete: "rib_reach b base s'" if "rib_reach b base s" "a \<in> set (bn_info s)" "bgp_info_delete b a s = Inr s'"
| restore: "rib_reach b base s'" if "rib_reach b base s" "a \<in> set (bn_info s)" "bgp_info_restore b a s = Inr s'"
| reap: "rib_reach b base s'"
    if "rib_reach b base s" "a \<in> set (bn_info s)" "\<not> alive (entry_at s a)" "bgp_info_reap a s = Inr s'"

definition count_inv :: "bgp \<Rightarrow> (nat \<Rightarrow> nat) \<Rightarrow> rib \<Rightarrow> bool" where
  "count_inv b base s \<longleftrightarrow> distinct (bn_info s) \<and> (\<forall>a\<in>set (bn_info s). infos s a \<noteq> None) \<and>
     (\<forall>a\<in>set (bn_info s). counted (entry_at s a) \<longrightarrow> table_main s \<and> bi_peer (entry_at s a) \<noteq> peer_self b) \<and>
     (bn_info s \<noteq> [] \<longrightarrow> (\<forall>p. base p + length (bn_info s) < 2 ^ 64)) \<and>
     (\<forall>p. unat (pcount s p) = base p + length (counted_of s p))"

definition count_only_alive :: "rib \<Rightarrow> bool" where
  "count_only_alive s \<longleftrightarrow> (\<forall>a\<in>set (bn_info s). counted (entry_at s a) \<longrightarrow> alive (entry_at s a))"

lemma counted_bit: "counted bi \<longleftrightarrow> bit (bi_flags bi) 10"
  by (simp add: counted_def check_bits)

lemma counted_of_cong:
  assumes "bn_info s' = bn_info s" "\<And>x. x \<in> set (bn_info s) \<Longrightarrow> bi_peer (entry_at s' x) = bi_peer (entry_at s x) \<and> counted (entry_at s' x) = counted (entry_at s x)"
  shows "counted_of s' p = counted_of s p"
  using assms by (auto simp: counted_of_def intro!: filter_cong)

text \<open>A change of flags other than the count keeps the counting part of the invariant.\<close>

lemma count_inv_flags:
  assumes "count_inv b base s" "infos s a = Some bi" "bit f 10 = bit (bi_flags bi) 10"
  shows "count_inv b base (set_info a (bi\<lparr>bi_flags := f\<rparr>) s)"
proof -
  have "counted_of (set_info a (bi\<lparr>bi_flags := f\<rparr>) s) p = counted_of s p" for p
    using assms(2,3) by (intro counted_of_cong) (auto simp: counted_bit entry_at_def)
  then show ?thesis using assms by (auto simp: count_inv_def counted_bit entry_at_def)
qed

lemma length_counted_update:
  assumes "distinct xs" "a \<in> set xs" "\<And>x. x \<noteq> a \<Longrightarrow> P' x = P x"
  shows "length (filter P' xs) + (if P a then 1 else 0) = length (filter P xs) + (if P' a then 1 else 0)"
  using assms
proof (induction xs)
  case (Cons x xs)
  then show ?case
  proof (cases "x = a")
    case True
    then have "\<forall>y\<in>set xs. P' y = P y" using Cons.prems by (metis distinct.simps(2))
    then have "filter P' xs = filter P xs" by (intro filter_cong) auto
    then show ?thesis using True by simp
  qed auto
qed simp

lemma counted_of_update:
  assumes "distinct (bn_info s)" "a \<in> set (bn_info s)" "infos s a = Some bi"
  shows "length (counted_of (set_info a (bi\<lparr>bi_flags := f\<rparr>) s) p) + (if bi_peer bi = p \<and> counted bi then 1 else 0) =
     length (counted_of s p) + (if bi_peer bi = p \<and> bit f 10 then 1 else 0)"
  using length_counted_update[OF assms(1,2),
      of "\<lambda>x. bi_peer (entry_at (set_info a (bi\<lparr>bi_flags := f\<rparr>) s) x) = p \<and> counted (entry_at (set_info a (bi\<lparr>bi_flags := f\<rparr>) s) x)"
        "\<lambda>x. bi_peer (entry_at s x) = p \<and> counted (entry_at s x)"] assms(3)
  by (simp add: counted_of_def counted_bit entry_at_def)

lemma counted_of_more [simp]: "counted_of (s\<lparr>pcount := c\<rparr>) p = counted_of s p"
  by (simp add: counted_of_def entry_at_def)

lemma adjust_spec:
  assumes "count_inv b base s" "a \<in> set (bn_info s)"
  shows "\<exists>s'. bgp_pcount_adjust b a s = Inr s' \<and> count_inv b base s' \<and> bn_info s' = bn_info s \<and> table_main s' = table_main s \<and>
     (\<forall>x. x \<noteq> a \<longrightarrow> entry_at s' x = entry_at s x) \<and> reflag {10} (entry_at s a) (entry_at s' a) \<and>
     (counted (entry_at s' a) \<longleftrightarrow> alive (entry_at s a) \<and> table_main s \<and> bi_peer (entry_at s a) \<noteq> peer_self b)"
proof -
  define bi where "bi = entry_at s a"
  define p where "p = bi_peer bi"
  have bi: "infos s a = Some bi" using assms by (auto simp: count_inv_def bi_def entry_at_def)
  have dist: "distinct (bn_info s)" using assms(1) by (simp add: count_inv_def)
  have pc: "unat (pcount s q) = base q + length (counted_of s q)" for q using assms(1) by (simp add: count_inv_def)
  have bnd: "base p + length (bn_info s) < 2 ^ 64" using assms by (auto simp: count_inv_def)
  have self: "counted bi \<longrightarrow> table_main s \<and> p \<noteq> peer_self b" using assms by (auto simp: count_inv_def p_def bi_def)
  consider (skip) "\<not> table_main s \<or> p = peer_self b" | (same) "table_main s" "p \<noteq> peer_self b" "counted bi = alive bi"
    | (down) "table_main s" "p \<noteq> peer_self b" "counted bi" "\<not> alive bi"
    | (up) "table_main s" "p \<noteq> peer_self b" "\<not> counted bi" "alive bi" by blast
  then show ?thesis
  proof cases
    case skip
    then have "bgp_pcount_adjust b a s = Inr s" using bi by (auto simp: bgp_pcount_adjust_def p_def)
    then show ?thesis using assms(1) self skip by (auto simp: reflag_refl bi_def[symmetric] p_def)
  next
    case same
    then have "bgp_pcount_adjust b a s = Inr s"
      using bi by (auto simp: bgp_pcount_adjust_def p_def holddown_alive counted_def)
    then show ?thesis using assms(1) same by (auto simp: reflag_refl bi_def[symmetric] p_def)
  next
    case down
    define f where "f = UNSET_FLAG (bi_flags bi) BGP_INFO_COUNTED"
    define t where "t = set_info a (bi\<lparr>bi_flags := f\<rparr>) s"
    have cnt: "length (counted_of t q) + (if p = q then 1 else 0) = length (counted_of s q)" for q
      using counted_of_update[OF dist assms(2) bi, of f q] down(3) by (auto simp: t_def f_def p_def unset_info_bit counted_bit)
    have nz: "pcount s p \<noteq> 0" using pc[of p] cnt[of p] by auto
    define s' where "s' = t\<lparr>pcount := (pcount s)(p := pcount s p - 1)\<rparr>"
    have run: "bgp_pcount_adjust b a s = Inr s'"
      using bi down nz by (simp add: bgp_pcount_adjust_def p_def[symmetric] holddown_alive counted_def[symmetric] unset_bits_Some s'_def t_def f_def)
    have "unat (pcount s' q) = base q + length (counted_of s' q)" for q
      using pc[of q] cnt[of q] nz by (auto simp: s'_def unat_minus_one t_def)
    then have "count_inv b base s'" using assms(1) bi by (auto simp: count_inv_def s'_def t_def f_def counted_bit unset_info_bit entry_at_def)
    moreover have "entry_at s' x = (if x = a then bi\<lparr>bi_flags := f\<rparr> else entry_at s x)" for x by (simp add: s'_def t_def entry_at_def)
    moreover have "reflag {10} bi (bi\<lparr>bi_flags := f\<rparr>)" "\<not> bit f 10" by (simp_all add: reflag_def f_def unset_info_bit)
    ultimately show ?thesis using run down(4) by (intro exI[of _ s']) (simp add: bi_def[symmetric] counted_bit s'_def t_def)
  next
    case up
    define f where "f = SET_FLAG (bi_flags bi) BGP_INFO_COUNTED"
    define t where "t = set_info a (bi\<lparr>bi_flags := f\<rparr>) s"
    have cnt: "length (counted_of t q) = length (counted_of s q) + (if p = q then 1 else 0)" for q
      using counted_of_update[OF dist assms(2) bi, of f q] up(3) by (auto simp: t_def f_def p_def set_info_bit counted_bit)
    have "length (counted_of t p) \<le> length (bn_info s)" by (simp add: counted_of_def t_def)
    then have lt: "unat (pcount s p) + 1 < 2 ^ 64" using pc[of p] cnt[of p] bnd by simp
    define s' where "s' = t\<lparr>pcount := (pcount s)(p := pcount s p + 1)\<rparr>"
    have run: "bgp_pcount_adjust b a s = Inr s'"
      using bi up by (simp add: bgp_pcount_adjust_def p_def[symmetric] holddown_alive counted_def[symmetric] set_bits_Some s'_def t_def f_def)
    have "unat (pcount s p + 1) = unat (pcount s p) + 1" using lt by (simp add: unat_word_ariths)
    then have "unat (pcount s' q) = base q + length (counted_of s' q)" for q
      using pc[of q] cnt[of q] by (auto simp: s'_def t_def)
    then have "count_inv b base s'" using assms(1) bi up(1,2) p_def by (auto simp: count_inv_def s'_def t_def f_def counted_bit set_info_bit entry_at_def)
    moreover have "entry_at s' x = (if x = a then bi\<lparr>bi_flags := f\<rparr> else entry_at s x)" for x by (simp add: s'_def t_def entry_at_def)
    moreover have "reflag {10} bi (bi\<lparr>bi_flags := f\<rparr>)" "bit f 10" by (simp_all add: reflag_def f_def set_info_bit)
    ultimately show ?thesis using run up(1,2,4) by (intro exI[of _ s']) (simp add: bi_def[symmetric] p_def[symmetric] counted_bit s'_def t_def)
  qed
qed

lemma set_flag_bit: "bit (SET_FLAG v f) k \<longleftrightarrow> bit v k \<or> bit f k" "bit (UNSET_FLAG v f) k \<longleftrightarrow> bit v k \<and> \<not> bit f k" for v :: u16
  by (auto simp: SET_FLAG_def UNSET_FLAG_def bit_or_iff bit_and_iff bit_not_iff dest: bit_imp_le_length)

lemma uncounted_flag: "\<not> CHECK_FLAG f BGP_INFO_COUNTED \<Longrightarrow> \<not> bit f 10"
  by (simp add: check_bits)

lemma harmless_flag:
  "\<not> CHECK_FLAG f (BGP_INFO_VALID OR BGP_INFO_UNUSEABLE) \<Longrightarrow> \<not> bit f 1 \<and> \<not> bit f 2 \<and> \<not> bit f 4 \<and> \<not> bit f 9"
  by (simp add: CHECK_FLAG_or BGP_INFO_UNUSEABLE_def check_bits)

text \<open>Both flag operations: the flags become \<open>g\<close>, which leaves the count flag, and the count is adjusted
  unless the change is one that cannot affect the use of the entry.\<close>

lemma flag_change_keeps:
  assumes inv: "count_inv b base s" "count_only_alive s" and a: "a \<in> set (bn_info s)" "infos s a = Some bi"
    and g: "bit g 10 = bit (bi_flags bi) 10" "\<not> adj \<Longrightarrow> alive (bi\<lparr>bi_flags := g\<rparr>) = alive bi"
    and run: "(if \<not> adj then Inr (set_info a (bi\<lparr>bi_flags := g\<rparr>) s) else bgp_pcount_adjust b a (set_info a (bi\<lparr>bi_flags := g\<rparr>) s)) = Inr s'"
  shows "count_inv b base s' \<and> count_only_alive s' \<and> bn_info s' = bn_info s \<and> infos s' a \<noteq> None \<and>
     reflag {10} (bi\<lparr>bi_flags := g\<rparr>) (entry_at s' a)"
proof -
  define t where "t = set_info a (bi\<lparr>bi_flags := g\<rparr>) s"
  have t: "count_inv b base t" "a \<in> set (bn_info t)" "bn_info t = bn_info s" "entry_at t a = bi\<lparr>bi_flags := g\<rparr>"
    "\<And>x. x \<noteq> a \<Longrightarrow> entry_at t x = entry_at s x" "infos t a \<noteq> None"
    using count_inv_flags[OF inv(1) a(2) g(1)] a(1) by (simp_all add: t_def)
  show ?thesis
  proof (cases adj)
    case True
    then obtain s'' where s'': "bgp_pcount_adjust b a t = Inr s''" "count_inv b base s''" "bn_info s'' = bn_info t"
      "\<forall>x. x \<noteq> a \<longrightarrow> entry_at s'' x = entry_at t x" "reflag {10} (entry_at t a) (entry_at s'' a)"
      "counted (entry_at s'' a) \<longrightarrow> alive (entry_at t a)" using adjust_spec[OF t(1,2)] by blast
    have eq: "s'' = s'" using s''(1) run True by (simp add: t_def)
    have al: "alive (entry_at s' a) = alive (entry_at t a)" using s''(5) by (simp add: eq reflag_def alive_bits)
    have "count_only_alive s'"
      unfolding count_only_alive_def
    proof
      fix x assume "x \<in> set (bn_info s')"
      then show "counted (entry_at s' x) \<longrightarrow> alive (entry_at s' x)"
        using s''(3,4,6) t(3,5) inv(2) al by (cases "x = a") (auto simp: eq count_only_alive_def)
    qed
    moreover have "infos s' a \<noteq> None" using s''(2,3) t(2) by (simp add: eq count_inv_def)
    ultimately show ?thesis using s'' t(3,4) by (simp add: eq)
  next
    case False
    then have eq: "s' = t" using run by (simp add: t_def)
    have "counted (entry_at t x) = counted (entry_at s x) \<and> alive (entry_at t x) = alive (entry_at s x)" for x
      using t(4,5) g False a(2) by (cases "x = a") (auto simp: counted_bit entry_at_def)
    then show ?thesis using inv(2) t by (auto simp: eq count_only_alive_def reflag_refl)
  qed
qed

lemma set_flag_keeps:
  assumes inv: "count_inv b base s" "count_only_alive s" and a: "a \<in> set (bn_info s)"
    and f: "\<not> CHECK_FLAG f BGP_INFO_COUNTED" "bgp_info_set_flag b a f s = Inr s'"
  shows "count_inv b base s' \<and> count_only_alive s' \<and> bn_info s' = bn_info s \<and> infos s' a \<noteq> None \<and>
     reflag {10} (entry_at s a\<lparr>bi_flags := SET_FLAG (bi_flags (entry_at s a)) f\<rparr>) (entry_at s' a)"
proof -
  obtain bi where bi: "infos s a = Some bi" "entry_at s a = bi" using inv(1) a by (auto simp: count_inv_def entry_at_def)
  show ?thesis
    unfolding bi(2)
    using flag_change_keeps[OF inv a bi(1), where g = "SET_FLAG (bi_flags bi) f" and adj = "CHECK_FLAG f (BGP_INFO_VALID OR BGP_INFO_UNUSEABLE)" and s' = s']
      uncounted_flag[OF f(1)] harmless_flag[of f] f(2) bi(1)
    by (simp add: set_flag_bit alive_bits bgp_info_set_flag_def set_bits_Some)
qed

lemma unset_flag_keeps:
  assumes inv: "count_inv b base s" "count_only_alive s" and a: "a \<in> set (bn_info s)"
    and f: "\<not> CHECK_FLAG f BGP_INFO_COUNTED" "bgp_info_unset_flag b a f s = Inr s'"
  shows "count_inv b base s' \<and> count_only_alive s' \<and> bn_info s' = bn_info s \<and> infos s' a \<noteq> None \<and>
     reflag {10} (entry_at s a\<lparr>bi_flags := UNSET_FLAG (bi_flags (entry_at s a)) f\<rparr>) (entry_at s' a)"
proof -
  obtain bi where bi: "infos s a = Some bi" "entry_at s a = bi" using inv(1) a by (auto simp: count_inv_def entry_at_def)
  show ?thesis
    unfolding bi(2)
    using flag_change_keeps[OF inv a bi(1), where g = "UNSET_FLAG (bi_flags bi) f" and adj = "CHECK_FLAG f (BGP_INFO_VALID OR BGP_INFO_UNUSEABLE)" and s' = s']
      uncounted_flag[OF f(1)] harmless_flag[of f] f(2) bi(1)
    by (simp add: set_flag_bit alive_bits bgp_info_unset_flag_def unset_bits_Some)
qed

lemma removed_uncounted: "\<not> CHECK_FLAG BGP_INFO_REMOVED BGP_INFO_COUNTED"
  by (simp add: CHECK_FLAG_def info_flag_defs)

text \<open>The direct change of the validity flag in \<^verbatim>\<open>bgp_info_delete\<close> and \<^verbatim>\<open>bgp_info_restore\<close>.\<close>

lemma valid_bit_keeps:
  assumes "count_inv b base s" "count_only_alive s" "infos s a = Some bi" "bit g 10 = bit (bi_flags bi) 10"
    "counted bi \<longrightarrow> alive (bi\<lparr>bi_flags := g\<rparr>)"
  shows "count_inv b base (set_info a (bi\<lparr>bi_flags := g\<rparr>) s) \<and> count_only_alive (set_info a (bi\<lparr>bi_flags := g\<rparr>) s)"
  using count_inv_flags[OF assms(1,3,4)] assms(2,4,5) by (auto simp: count_only_alive_def counted_bit)

lemma delete_keeps:
  assumes "count_inv b base s" "count_only_alive s" "a \<in> set (bn_info s)" "bgp_info_delete b a s = Inr s'"
  shows "count_inv b base s' \<and> count_only_alive s'"
proof -
  obtain t where t: "bgp_info_set_flag b a BGP_INFO_REMOVED s = Inr t" "unset_bits a BGP_INFO_VALID t = Inr s'"
    using assms(4) by (auto simp: bgp_info_delete_def bindE_eq_Inr)
  note k = set_flag_keeps[OF assms(1-3) removed_uncounted t(1)]
  then obtain bi where bi: "infos t a = Some bi" "entry_at t a = bi" by (auto simp: entry_at_def)
  have "bit (bi_flags bi) 9" using k bi(2) by (simp add: reflag_def set_info_bit)
  then have "\<not> alive bi" by (simp add: alive_bits)
  then have "\<not> counted bi" using k bi(2) assms(3) unfolding count_only_alive_def by metis
  then show ?thesis
    using valid_bit_keeps[of b base t a bi "UNSET_FLAG (bi_flags bi) BGP_INFO_VALID"] k bi(1) t(2)
    by (simp add: unset_bits_Some unset_info_bit)
qed

lemma restore_keeps:
  assumes "count_inv b base s" "count_only_alive s" "a \<in> set (bn_info s)" "bgp_info_restore b a s = Inr s'"
  shows "count_inv b base s' \<and> count_only_alive s'"
proof -
  obtain t where t: "bgp_info_unset_flag b a BGP_INFO_REMOVED s = Inr t" "set_bits a BGP_INFO_VALID t = Inr s'"
    using assms(4) by (auto simp: bgp_info_restore_def bindE_eq_Inr)
  note k = unset_flag_keeps[OF assms(1-3) removed_uncounted t(1)]
  then obtain bi where bi: "infos t a = Some bi" "entry_at t a = bi" by (auto simp: entry_at_def)
  have "counted bi \<longrightarrow> alive bi" using k bi(2) assms(3) unfolding count_only_alive_def by metis
  then show ?thesis
    using valid_bit_keeps[of b base t a bi "SET_FLAG (bi_flags bi) BGP_INFO_VALID"] k bi(1) t(2)
    by (simp add: set_bits_Some set_info_bit alive_bits)
qed

lemma add_keeps:
  assumes "count_inv b base s" "count_only_alive s" "infos s a = Some bi" "a \<notin> set (bn_info s)" "\<not> counted bi"
    "\<forall>p. base p + length (bn_info s) + 1 < 2 ^ 64" "bgp_info_add a s = Inr s'"
  shows "count_inv b base s' \<and> count_only_alive s'"
proof -
  have s': "bn_info s' = a # bn_info s" "pcount s' = pcount s" "table_main s' = table_main s"
    "infos s' = (infos s)(a \<mapsto> bi\<lparr>bi_lock := bi_lock bi + 1\<rparr>)"
    using assms(3,7) by (auto simp: bgp_info_add_def bgp_info_lock_def bgp_lock_node_def node_access_def get_info_def peer_lock_def set_info_def split: if_splits)
  have at: "entry_at s' x = (if x = a then bi\<lparr>bi_lock := bi_lock bi + 1\<rparr> else entry_at s x)" for x by (simp add: entry_at_def s'(4))
  have nc: "\<not> counted (bi\<lparr>bi_lock := bi_lock bi + 1\<rparr>)" using assms(5) by (simp add: counted_def)
  have "counted_of s' p = counted_of s p" for p
    using nc assms(4) at by (auto simp: counted_of_def s'(1) intro!: filter_cong)
  moreover have "infos s' x \<noteq> None" if "x \<in> set (bn_info s')" for x using that s'(1,4) assms(1) by (auto simp: count_inv_def)
  ultimately show ?thesis
    using assms(1,2,4,6) nc at by (auto simp: count_inv_def count_only_alive_def s'(1-3) add.assoc)
qed

lemma reap_keeps:
  assumes "count_inv b base s" "count_only_alive s" "a \<in> set (bn_info s)" "\<not> alive (entry_at s a)" "bgp_info_reap a s = Inr s'"
  shows "count_inv b base s' \<and> count_only_alive s'"
proof -
  have d: "distinct (bn_info s)" using assms(1) by (simp add: count_inv_def)
  have s': "bn_info s' = remove1 a (bn_info s)" "pcount s' = pcount s" "table_main s' = table_main s" "\<forall>x. x \<noteq> a \<longrightarrow> infos s' x = infos s x"
    using assms(5) by (auto simp: bgp_info_reap_def bgp_info_unlock_def bgp_info_free_def peer_unlock_def bgp_unlock_node_def
        bgp_node_delete_def node_access_def bindE_eq_Inr Let_def set_info_def split: if_splits)
  have at: "entry_at s' x = entry_at s x" if "x \<noteq> a" for x using s'(4) that by (simp add: entry_at_def)
  have nc: "\<not> counted (entry_at s a)" using assms(2-4) by (auto simp: count_only_alive_def)
  have "counted_of s' p = filter (\<lambda>x. bi_peer (entry_at s x) = p \<and> counted (entry_at s x)) (remove1 a (bn_info s))" for p
    using at d unfolding counted_of_def s'(1) by (intro filter_cong) auto
  then have "counted_of s' p = counted_of s p" for p
    using nc d by (simp add: counted_of_def filter_remove1 remove1_idem)
  moreover have "base p + length (bn_info s') < 2 ^ 64" if "bn_info s' \<noteq> []" for p
    using that assms(1) s'(1) length_remove1[of a "bn_info s"]
    by (auto simp: count_inv_def intro: le_less_trans[of _ "base p + length (bn_info s)"] split: if_splits)
  ultimately show ?thesis
    using assms(1,2) at d by (auto simp: count_inv_def count_only_alive_def s'(1-3) s'(4))
qed

lemma reach_count: "rib_reach b base s \<Longrightarrow> count_inv b base s \<and> count_only_alive s"
proof (induction rule: rib_reach.induct)
  case (empty s)
  then show ?case by (simp add: count_inv_def count_only_alive_def counted_of_def)
next
  case (add s a bi s')
  then show ?case using add_keeps by blast
next
  case (set_flag s a f s')
  then show ?case using set_flag_keeps by blast
next
  case (unset_flag s a f s')
  then show ?case using unset_flag_keeps by blast
next
  case (delete s a s')
  then show ?case using delete_keeps by blast
next
  case (restore s a s')
  then show ?case using restore_keeps by blast
next
  case (reap s a s')
  then show ?case using reap_keeps by blast
qed

text \<open>C16: Through every sequence of additions, changes of flags, deletions, restorations and removals of
  entries, the prefix count of each peer is exact: it is the number of the peer's entries that carry the
  count flag, here and at the other nodes, and only usable entries of the main table carry it.\<close>

theorem bgp_pcount_exact:
  assumes "rib_reach b base s"
  shows "unat (pcount s p) = base p + length (counted_of s p) \<and>
     (\<forall>a\<in>set (bn_info s). counted (entry_at s a) \<longrightarrow> alive (entry_at s a) \<and> table_main s)"
  using reach_count[OF assms] by (auto simp: count_inv_def count_only_alive_def)

definition count_example :: "rib res" where
  "count_example = bindE (bgp_info_add 1 (sample_rib [])) (bgp_info_set_flag (sample_bgp 0) 1 BGP_INFO_VALID)"

lemma count_example_runs:
  "\<exists>t s. bgp_info_add 1 (sample_rib []) = Inr t \<and> bn_info t = [1] \<and>
     bgp_info_set_flag (sample_bgp 0) 1 BGP_INFO_VALID t = Inr s \<and> count_example = Inr s \<and> pcount s 1 = 1"
  by (simp add: count_example_def sample_rib_def sample_info_def bgp_info_add_def bgp_info_lock_def bgp_lock_node_def node_access_def get_info_def set_info_def peer_lock_def
      bgp_info_set_flag_def set_bits_def bgp_pcount_adjust_def CHECK_FLAG_def SET_FLAG_def BGP_INFO_UNUSEABLE_def info_flag_defs
      BGP_INFO_HOLDDOWN_def Let_def sample_bgp_def)

theorem bgp_pcount_exact_witness: "\<exists>s. count_example = Inr s \<and> length (counted_of s 1) = 1"
proof -
  let ?b = "sample_bgp 0"
  obtain t s where ts: "bgp_info_add 1 (sample_rib []) = Inr t" "bn_info t = [1]"
    "bgp_info_set_flag ?b 1 BGP_INFO_VALID t = Inr s" "count_example = Inr s" "pcount s 1 = 1"
    using count_example_runs by blast
  have "rib_reach ?b (\<lambda>_. 0) (sample_rib [])" by (rule rib_reach.empty) (simp_all add: sample_rib_def)
  moreover have "infos (sample_rib []) 1 = Some (sample_info 1 100 10 10)" "bn_info (sample_rib []) = []"
    "\<not> counted (sample_info 1 100 10 10)"
    by (simp_all add: sample_rib_def counted_bit sample_info_def) (simp add: BGP_INFO_VALID_def)
  ultimately have "rib_reach ?b (\<lambda>_. 0) t" using rib_reach.add[OF _ _ _ _ _ ts(1), of ?b "\<lambda>_. 0"] by simp
  then have "rib_reach ?b (\<lambda>_. 0) s"
    using rib_reach.set_flag[OF _ _ _ ts(3), of "\<lambda>_. 0"] ts(2) by (simp add: CHECK_FLAG_def info_flag_defs)
  then show ?thesis using bgp_pcount_exact[of ?b "\<lambda>_. 0" s 1] ts(4,5) by auto
qed

text \<open>C40: Restoring an entry that was deleted makes it usable without counting it: \<^verbatim>\<open>bgp_info_restore\<close> clears
  the removal flag, and adjusts the count, while the validity flag is still clear, so the comment that this
  already took care of the count does not hold. The entry is counted by the next operation that sets the
  validity flag.\<close>

theorem bgp_info_restore_uncounted:
  assumes "infos s a = Some bi" "table_main s" "bi_peer bi \<noteq> peer_self b" "\<not> counted bi"
    "\<not> CHECK_FLAG (bi_flags bi) (BGP_INFO_VALID OR BGP_INFO_HISTORY OR BGP_INFO_DAMPED)"
  shows "\<exists>s' s''. bgp_info_restore b a s = Inr s' \<and> alive (entry_at s' a) \<and> \<not> counted (entry_at s' a) \<and> pcount s' = pcount s \<and>
     bgp_info_set_flag b a BGP_INFO_VALID s' = Inr s'' \<and> counted (entry_at s'' a) \<and>
     pcount s'' = (pcount s)(bi_peer bi := pcount s (bi_peer bi) + 1)"
proof -
  have bits: "\<not> bit (bi_flags bi) 4" "\<not> bit (bi_flags bi) 2" "\<not> bit (bi_flags bi) 1" "\<not> bit (bi_flags bi) 10"
    using assms(4,5) by (simp_all add: CHECK_FLAG_or check_bits counted_bit)
  define f where "f = UNSET_FLAG (bi_flags bi) BGP_INFO_REMOVED"
  define g where "g = SET_FLAG f BGP_INFO_VALID"
  define s' where "s' = set_info a (bi\<lparr>bi_flags := g\<rparr>) s"
  define s'' where "s'' = (set_info a (bi\<lparr>bi_flags := SET_FLAG g BGP_INFO_COUNTED\<rparr>) s)
    \<lparr>pcount := (pcount s)(bi_peer bi := pcount s (bi_peer bi) + 1)\<rparr>"
  have adj: "CHECK_FLAG BGP_INFO_REMOVED (BGP_INFO_VALID OR BGP_INFO_UNUSEABLE)" "CHECK_FLAG BGP_INFO_VALID (BGP_INFO_VALID OR BGP_INFO_UNUSEABLE)"
    by (simp_all add: CHECK_FLAG_def BGP_INFO_UNUSEABLE_def info_flag_defs)
  have f_bits: "\<not> bit f 4" "\<not> bit f 10" "\<not> bit f 9" "\<not> bit f 2" "\<not> bit f 1" using bits by (simp_all add: f_def unset_info_bit)
  have twice: "set_info a x (set_info a y s) = set_info a x s" for x y by (simp add: set_info_def)
  have "bgp_info_restore b a s = Inr s'"
    using assms(1-3) f_bits adj(1)
    by (simp add: bgp_info_restore_def bgp_info_unset_flag_def unset_bits_Some bgp_pcount_adjust_def holddown_alive alive_bits check_bits
        f_def[symmetric] set_bits_Some s'_def g_def twice)
  moreover have g_bits: "bit g 4" "\<not> bit g 10" "\<not> bit g 9" "\<not> bit g 2" "\<not> bit g 1" using f_bits by (simp_all add: g_def set_info_bit)
  moreover have "SET_FLAG g BGP_INFO_VALID = g" using g_bits(1) by (intro bit_eqI) (auto simp: set_info_bit)
  then have "bgp_info_set_flag b a BGP_INFO_VALID s' = Inr s''"
    using assms(2,3) g_bits adj(2)
    by (simp add: bgp_info_set_flag_def set_bits_Some s'_def bgp_pcount_adjust_def holddown_alive alive_bits check_bits twice s''_def Let_def)
  ultimately show ?thesis
    by (intro exI[of _ s'] exI[of _ s'']) (simp add: s'_def s''_def entry_at_def alive_bits counted_bit set_info_bit)
qed

definition withdrawn_rib :: rib where
  "withdrawn_rib = (sample_rib [1])\<lparr>infos := [1 \<mapsto> sample_info 1 100 10 10\<lparr>bi_flags := BGP_INFO_REMOVED\<rparr>]\<rparr>"

theorem bgp_info_restore_uncounted_witness:
  "\<exists>s'. bgp_info_restore (sample_bgp 0) 1 withdrawn_rib = Inr s' \<and> alive (entry_at s' 1) \<and> \<not> counted (entry_at s' 1)"
  using bgp_info_restore_uncounted[of withdrawn_rib 1 "sample_info 1 100 10 10\<lparr>bi_flags := BGP_INFO_REMOVED\<rparr>" "sample_bgp 0"]
  by (auto simp: withdrawn_rib_def sample_rib_def sample_bgp_def sample_info_def counted_def CHECK_FLAG_def info_flag_defs)

end
