(* ===== verification/Bgp_Fsm.thy ===== *)
theory Bgp_Fsm
  imports Bgp_Peer "HOL-Library.Sublist"
begin

text \<open>
  The finite state machine of a BGP session (\<^verbatim>\<open>bgpd/bgp_fsm.c\<close>), with the operations of \<^verbatim>\<open>bgp_packet.c\<close>,
  \<^verbatim>\<open>bgp_network.c\<close> and \<^verbatim>\<open>bgpd.c\<close> that its transitions call.

  A session is the part of \<^verbatim>\<open>struct peer\<close> the machine works on. A timer or socket thread is the value it was
  armed with, or \<open>None\<close> when it is not armed. The event queue of the peer is a list, the output queue the list
  of its messages, and the descriptors the process holds for the peer are recorded. What the system returns
  during an event is an argument, \<open>fsm_env\<close>. Calls that change routes only are recorded in order.

  Left out are the fields that are only printed or configured (\<^verbatim>\<open>last_reset\<close>, the last notification, the host name), the
  next hop addresses and the contents of the input buffers. The theory shows that every event returns and follows the
  transition table with the timers of the new state, which events must precede Established, that the handshake
  establishes a session, the bounds of the start timer, which events keep the sockets of a session in order, and that
  a session that is cleared reaches Idle again.
\<close>

datatype status = Idle | Connect | Active | OpenSent | OpenConfirm | Established | Clearing | Deleted

datatype fsm_event = BGP_Start | BGP_Stop | TCP_connection_open | TCP_connection_closed | TCP_connection_open_failed
  | TCP_fatal_error | ConnectRetry_timer_expired | Hold_Timer_expired | KeepAlive_timer_expired | Receive_OPEN_message
  | Receive_KEEPALIVE_message | Receive_UPDATE_message | Receive_NOTIFICATION_message | Clearing_Completed

datatype connect_result = connect_error | connect_success | connect_in_progress

text \<open>The OPEN message carries the AS number, the hold time and the identifier.\<close>

datatype message = OpenMessage u16 u16 u32 | KeepaliveMessage | NotifyMessage u8 u8

datatype route_call = ClearRouteAll | ClearStaleRoute nat nat | OrfRemoveAll nat nat | RouteRefreshSend nat nat bool
  | AnnounceRouteAll | PeerRelease

definition PEER_FLAG_PASSIVE :: u32 where "PEER_FLAG_PASSIVE = 1"
definition PEER_FLAG_SHUTDOWN :: u32 where "PEER_FLAG_SHUTDOWN = 2"
definition PEER_CONFIG_TIMER :: u32 where "PEER_CONFIG_TIMER = 2"
definition PEER_CAP_RESTART_ADV :: u16 where "PEER_CAP_RESTART_ADV = 32"
definition PEER_CAP_ORF_PREFIX_SM_ADV :: u16 where "PEER_CAP_ORF_PREFIX_SM_ADV = 1"
definition PEER_CAP_ORF_PREFIX_RM_ADV :: u16 where "PEER_CAP_ORF_PREFIX_RM_ADV = 2"
definition PEER_CAP_ORF_PREFIX_SM_RCV :: u16 where "PEER_CAP_ORF_PREFIX_SM_RCV = 4"
definition PEER_CAP_ORF_PREFIX_RM_RCV :: u16 where "PEER_CAP_ORF_PREFIX_RM_RCV = 8"
definition PEER_CAP_ORF_PREFIX_SM_OLD_RCV :: u16 where "PEER_CAP_ORF_PREFIX_SM_OLD_RCV = 16"
definition PEER_CAP_ORF_PREFIX_RM_OLD_RCV :: u16 where "PEER_CAP_ORF_PREFIX_RM_OLD_RCV = 32"
definition PEER_CAP_RESTART_AF_RCV :: u16 where "PEER_CAP_RESTART_AF_RCV = 64"
definition PEER_CAP_RESTART_AF_PRESERVE_RCV :: u16 where "PEER_CAP_RESTART_AF_PRESERVE_RCV = 128"
definition PEER_STATUS_ORF_WAIT_REFRESH :: u16 where "PEER_STATUS_ORF_WAIT_REFRESH = 2"
definition BGP_INIT_START_TIMER :: u32 where "BGP_INIT_START_TIMER = 5"
definition BGP_DEFAULT_CONNECT_RETRY :: u32 where "BGP_DEFAULT_CONNECT_RETRY = 120"
definition BGP_DEFAULT_IBGP_ROUTEADV :: u32 where "BGP_DEFAULT_IBGP_ROUTEADV = 5"
definition BGP_DEFAULT_EBGP_ROUTEADV :: u32 where "BGP_DEFAULT_EBGP_ROUTEADV = 30"
definition BGP_NOTIFY_HOLD_ERR :: u8 where "BGP_NOTIFY_HOLD_ERR = 4"

record af_state =
  afc :: bool
  afc_nego :: bool
  afc_adv :: bool
  afc_recv :: bool
  af_cap :: u16
  af_sflags :: u16
  orf_plist :: bool
  nsf :: bool

text \<open>The address families of the loops: all of them, and those below \<^verbatim>\<open>SAFI_RESERVED_3\<close>.\<close>

definition all_afs :: "(nat \<times> nat) list" where
  "all_afs = List.product [1, 2] [1, 2, 3, 4]"

definition nsf_afs :: "(nat \<times> nat) list" where
  "nsf_afs = List.product [1, 2] [1, 2]"

record session = peer +
  change_local_as :: as_t
  local_id :: u32
  su_local :: "sockunion option"
  peer_flags :: u32
  peer_config :: u32
  cap :: u16
  af :: "nat \<times> nat \<Rightarrow> af_state"
  status :: status
  ostatus :: status
  fd :: int
  open_fds :: "int list"
  t_read :: "int option"
  t_write :: "int option"
  t_start :: "u32 option"
  t_connect :: "u32 option"
  t_holdtime :: "u32 option"
  t_keepalive :: "u32 option"
  t_asorig :: "u32 option"
  t_routeadv :: "u32 option"
  t_pmax_restart :: "u32 option"
  t_gr_restart :: "u32 option"
  t_gr_stale :: "u32 option"
  v_start :: u32
  v_connect :: u32
  v_holdtime :: u32
  v_keepalive :: u32
  v_routeadv :: u32
  v_gr_restart :: u32
  holdtime :: u32
  keepalive :: u32
  events :: "fsm_event list"
  obuf :: "message list"
  keepalive_in :: u32
  notify_out :: u32
  established :: u32
  dropped :: u32
  uptime :: nat
  resettime :: nat
  synctime :: nat
  update_time :: nat
  packet_size :: nat
  route_calls :: "route_call list"

text \<open>
  What the system returns during an event: a random number, the clock, the new socket, the result of connecting,
  the error of a socket (negative when \<^verbatim>\<open>getsockopt\<close> fails), the bytes written, the two addresses of a connection, and
  for each address family whether the queue of nodes to clear has no thread once the tables of the family have been walked.
\<close>

record fsm_env =
  env_rand :: nat
  env_clock :: nat
  env_socket :: int
  env_connect :: connect_result
  env_sockopt :: int
  env_written :: int
  env_addrs :: "sockunion option \<times> sockunion option"
  env_clear_idle :: "nat \<times> nat \<Rightarrow> bool"

definition call :: "route_call \<Rightarrow> session \<Rightarrow> session" where
  "call c s = s\<lparr>route_calls := route_calls s @ [c]\<rparr>"

subsection \<open>Threads, timers and events\<close>

definition BGP_TIMER_ON :: "session \<Rightarrow> u32 option \<Rightarrow> u32 \<Rightarrow> u32 option" where
  "BGP_TIMER_ON s t v = (if t = None \<and> status s \<noteq> Deleted then Some v else t)"

definition BGP_READ_ON :: "session \<Rightarrow> session" where
  "BGP_READ_ON s = (if t_read s = None \<and> status s \<noteq> Deleted then s\<lparr>t_read := Some (fd s)\<rparr> else s)"

definition BGP_WRITE_ON :: "session \<Rightarrow> session" where
  "BGP_WRITE_ON s = (if t_write s = None \<and> status s \<noteq> Deleted then s\<lparr>t_write := Some (fd s)\<rparr> else s)"

definition BGP_EVENT_ADD :: "fsm_event \<Rightarrow> session \<Rightarrow> session" where
  "BGP_EVENT_ADD e s = (if status s \<noteq> Deleted then s\<lparr>events := events s @ [e]\<rparr> else s)"

definition BGP_EVENT_FLUSH :: "session \<Rightarrow> session" where
  "BGP_EVENT_FLUSH s = s\<lparr>events := []\<rparr>"

definition peer_active :: "session \<Rightarrow> bool" where
  "peer_active s \<longleftrightarrow> afc (af s (1, 1)) \<or> afc (af s (1, 2)) \<or> afc (af s (1, 4)) \<or> afc (af s (2, 1)) \<or> afc (af s (2, 2))"

definition BGP_PEER_START_SUPPRESSED :: "session \<Rightarrow> bool" where
  "BGP_PEER_START_SUPPRESSED s \<longleftrightarrow>
     CHECK_FLAG (peer_flags s) PEER_FLAG_SHUTDOWN \<or> CHECK_FLAG (sflags s) PEER_STATUS_PREFIX_OVERFLOW"

text \<open>The argument is the start time, which never exceeds 120, so the C division is that of the integers.\<close>

definition bgp_start_jitter :: "fsm_env \<Rightarrow> int \<Rightarrow> int" where
  "bgp_start_jitter env time = int (env_rand env) mod (time + 1) - time div 2"

text \<open>The timers that are off in every state but their own.\<close>

definition session_timers_off :: "session \<Rightarrow> session" where
  "session_timers_off s = s\<lparr>t_holdtime := None, t_keepalive := None, t_asorig := None, t_routeadv := None\<rparr>"

definition hold_timers :: "session \<Rightarrow> session" where
  "hold_timers s =
     (if v_holdtime s = 0 then s\<lparr>t_holdtime := None, t_keepalive := None\<rparr>
      else s\<lparr>t_holdtime := BGP_TIMER_ON s (t_holdtime s) (v_holdtime s),
             t_keepalive := BGP_TIMER_ON s (t_keepalive s) (v_keepalive s)\<rparr>)"

definition bgp_timer_set :: "fsm_env \<Rightarrow> session \<Rightarrow> session" where
  "bgp_timer_set env s =
     (case status s of
        Idle \<Rightarrow>
          session_timers_off
            ((if BGP_PEER_START_SUPPRESSED s \<or> \<not> peer_active s then s\<lparr>t_start := None\<rparr>
              else s\<lparr>t_start := BGP_TIMER_ON s (t_start s)
                       (v_start s + word_of_int (bgp_start_jitter env (sint (v_start s))))\<rparr>)\<lparr>t_connect := None\<rparr>)
      | Connect \<Rightarrow>
          session_timers_off (s\<lparr>t_start := None, t_connect := BGP_TIMER_ON s (t_connect s) (v_connect s)\<rparr>)
      | Active \<Rightarrow>
          session_timers_off
            (if CHECK_FLAG (peer_flags s) PEER_FLAG_PASSIVE \<or> CHECK_FLAG (sflags s) PEER_STATUS_NSF_WAIT
             then s\<lparr>t_start := None, t_connect := None\<rparr>
             else s\<lparr>t_start := None, t_connect := BGP_TIMER_ON s (t_connect s) (v_connect s)\<rparr>)
      | OpenSent \<Rightarrow>
          s\<lparr>t_start := None, t_connect := None,
            t_holdtime := (if v_holdtime s \<noteq> 0 then BGP_TIMER_ON s (t_holdtime s) (v_holdtime s) else None),
            t_keepalive := None, t_asorig := None, t_routeadv := None\<rparr>
      | OpenConfirm \<Rightarrow> (hold_timers (s\<lparr>t_start := None, t_connect := None\<rparr>))\<lparr>t_asorig := None, t_routeadv := None\<rparr>
      | Established \<Rightarrow> (hold_timers (s\<lparr>t_start := None, t_connect := None\<rparr>))\<lparr>t_asorig := None\<rparr>
      | Deleted \<Rightarrow>
          session_timers_off (s\<lparr>t_gr_restart := None, t_gr_stale := None, t_pmax_restart := None, t_start := None, t_connect := None\<rparr>)
      | Clearing \<Rightarrow> session_timers_off (s\<lparr>t_start := None, t_connect := None\<rparr>))"

subsection \<open>New sessions\<close>

text \<open>The structure is allocated cleared; the fields of the configuration and the buffers are outside the session.\<close>

definition peer_new :: session where
  "peer_new =
     \<lparr>peer_as = 0, local_as = 0, sflags = SET_FLAG 0 PEER_STATUS_CAPABILITY_OPEN, group_head = None, remote_id = 0, su_remote = None,
      change_local_as = 0, local_id = 0, su_local = None, peer_flags = 0, peer_config = 0, cap = 0,
      af = (\<lambda>_. \<lparr>afc = False, afc_nego = False, afc_adv = False, afc_recv = False, af_cap = 0, af_sflags = 0, orf_plist = False, nsf = False\<rparr>),
      status = Idle, ostatus = Idle, fd = - 1, open_fds = [], t_read = None, t_write = None, t_start = None, t_connect = None,
      t_holdtime = None, t_keepalive = None, t_asorig = None, t_routeadv = None, t_pmax_restart = None, t_gr_restart = None,
      t_gr_stale = None, v_start = BGP_INIT_START_TIMER, v_connect = BGP_DEFAULT_CONNECT_RETRY, v_holdtime = 0, v_keepalive = 0,
      v_routeadv = 0, v_gr_restart = 0, holdtime = 0, keepalive = 0, events = [], obuf = [], keepalive_in = 0, notify_out = 0,
      established = 0, dropped = 0, uptime = 0, resettime = 0, synctime = 0, update_time = 0, packet_size = 0, route_calls = []\<rparr>"

definition peer_create :: "bgp \<Rightarrow> fsm_env \<Rightarrow> as_t \<Rightarrow> as_t \<Rightarrow> nat \<Rightarrow> nat \<Rightarrow> session" where
  "peer_create b env las remote_as afi safi =
     (let s = peer_new\<lparr>local_as := las, peer_as := remote_as, local_id := router_id b,
                v_holdtime := default_holdtime b, v_keepalive := default_keepalive b\<rparr>;
          s = s\<lparr>v_routeadv := (if peer_sort b s = BGP_PEER_IBGP then BGP_DEFAULT_IBGP_ROUTEADV else BGP_DEFAULT_EBGP_ROUTEADV)\<rparr>;
          active = peer_active s;
          s = (if afi \<noteq> 0 \<and> safi \<noteq> 0 then s\<lparr>af := (af s)((afi, safi) := (af s (afi, safi))\<lparr>afc := True\<rparr>)\<rparr> else s);
          s = s\<lparr>resettime := env_clock env\<rparr>
      in if \<not> active \<and> peer_active s then bgp_timer_set env s else s)"

subsection \<open>Messages\<close>

definition bgp_packet_add :: "message \<Rightarrow> session \<Rightarrow> session" where
  "bgp_packet_add msg s = s\<lparr>obuf := obuf s @ [msg]\<rparr>"

definition bgp_keepalive_send :: "session \<Rightarrow> session" where
  "bgp_keepalive_send s = BGP_WRITE_ON (bgp_packet_add KeepaliveMessage s)"

definition bgp_open_send :: "bgp \<Rightarrow> session \<Rightarrow> session" where
  "bgp_open_send b s =
     (let send_holdtime = ucast (if CHECK_FLAG (peer_config s) PEER_CONFIG_TIMER then holdtime s else default_holdtime b);
          las = (if change_local_as s \<noteq> 0 then change_local_as s else local_as s)
      in BGP_WRITE_ON (bgp_packet_add (OpenMessage (if las \<le> BGP_AS_MAX then ucast las else BGP_AS_TRANS) send_holdtime (local_id s)) s))"

text \<open>The backoff of the start timer after an error.\<close>

definition double_start :: "session \<Rightarrow> session" where
  "double_start s = s\<lparr>v_start := (if v_start s * 2 \<ge> 120 then 120 else v_start s * 2)\<rparr>"

definition bgp_write_notify :: "fsm_env \<Rightarrow> session \<Rightarrow> session res" where
  "bgp_write_notify env s =
     (case obuf s of
        [] \<Rightarrow> Inr s
      | msg # _ \<Rightarrow>
          if env_written env \<le> 0 then Inr (BGP_EVENT_ADD TCP_fatal_error s)
          else bindE (assertE (case msg of NotifyMessage _ _ \<Rightarrow> True | _ \<Rightarrow> False)) (\<lambda>_.
                 Inr (BGP_EVENT_ADD BGP_Stop (double_start (s\<lparr>notify_out := notify_out s + 1\<rparr>)))))"

definition bgp_notify_send :: "fsm_env \<Rightarrow> u8 \<Rightarrow> u8 \<Rightarrow> session \<Rightarrow> session res" where
  "bgp_notify_send env code sub_code s =
     bgp_write_notify env ((bgp_packet_add (NotifyMessage code sub_code) (s\<lparr>obuf := []\<rparr>))\<lparr>t_write := None\<rparr>)"

subsection \<open>Changes of state\<close>

text \<open>Clearing the routes of a peer. The walk over the tables, which puts the nodes to clear on a queue, is the call
  that is recorded, and the reference to the peer that the queue holds is outside the session. The queue is completed at once
  when nothing was put on it; otherwise its thread adds the event later.\<close>

definition bgp_clear_node_complete :: "session \<Rightarrow> session" where
  "bgp_clear_node_complete s = BGP_EVENT_ADD Clearing_Completed s"

definition bgp_clear_route :: "fsm_env \<Rightarrow> nat \<times> nat \<Rightarrow> session \<Rightarrow> session" where
  "bgp_clear_route env k s = (if env_clear_idle env k then bgp_clear_node_complete s else s)"

definition bgp_clear_route_all :: "fsm_env \<Rightarrow> session \<Rightarrow> session" where
  "bgp_clear_route_all env s = fold (bgp_clear_route env) all_afs (call ClearRouteAll s)"

definition bgp_fsm_change_status :: "fsm_env \<Rightarrow> status \<Rightarrow> session \<Rightarrow> session" where
  "bgp_fsm_change_status env st s =
     (let s = (if st = Clearing \<or> st = Deleted then bgp_clear_route_all env s else s)
      in s\<lparr>ostatus := status s, status := st\<rparr>)"

definition close_fd :: "session \<Rightarrow> session" where
  "close_fd s = (if fd s \<ge> 0 then s\<lparr>open_fds := removeAll (fd s) (open_fds s), fd := - 1\<rparr> else s)"

definition clear_nsf :: "session \<Rightarrow> session" where
  "clear_nsf s = s\<lparr>af := (\<lambda>k. if k \<in> set nsf_afs then (af s k)\<lparr>nsf := False\<rparr> else af s k)\<rparr>"

definition stop_established :: "bgp \<Rightarrow> fsm_env \<Rightarrow> session \<Rightarrow> session" where
  "stop_established b env s =
     (let s1 = s\<lparr>dropped := dropped s + 1, t_gr_stale := None\<rparr>;
          s2 = (if CHECK_FLAG (sflags s1) PEER_STATUS_NSF_WAIT
                then s1\<lparr>t_gr_restart := BGP_TIMER_ON s1 (t_gr_restart s1) (v_gr_restart s1),
                        t_gr_stale := BGP_TIMER_ON s1 (t_gr_stale s1) (stalepath_time b)\<rparr>
                else clear_nsf (s1\<lparr>sflags := UNSET_FLAG (sflags s1) PEER_STATUS_NSF_MODE\<rparr>))
      in s2\<lparr>resettime := env_clock env, uptime := env_clock env, synctime := 0\<rparr>)"

definition reset_afs :: "session \<Rightarrow> session" where
  "reset_afs s =
     fold (\<lambda>(afi, safi). call (OrfRemoveAll afi safi)) all_afs
       (s\<lparr>af := (\<lambda>k. if k \<in> set all_afs
           then (af s k)\<lparr>afc_nego := False, afc_adv := False, afc_recv := False, af_cap := 0, af_sflags := 0, orf_plist := False\<rparr>
           else af s k)\<rparr>)"

definition bgp_stop :: "bgp \<Rightarrow> fsm_env \<Rightarrow> session \<Rightarrow> session" where
  "bgp_stop b env s =
     (let s = (if status s \<noteq> Clearing then BGP_EVENT_FLUSH s else s);
          s = (if status s = Established then stop_established b env s else s);
          s = s\<lparr>t_read := None, t_write := None, t_start := None, t_connect := None, t_holdtime := None, t_keepalive := None,
                t_asorig := None, t_routeadv := None, packet_size := 0, obuf := []\<rparr>;
          s = reset_afs (close_fd s);
          s = (if CHECK_FLAG (peer_config s) PEER_CONFIG_TIMER then s\<lparr>v_keepalive := keepalive s, v_holdtime := holdtime s\<rparr>
               else s\<lparr>v_keepalive := default_keepalive b, v_holdtime := default_holdtime b\<rparr>)
      in s\<lparr>update_time := 0\<rparr>)"

definition bgp_clearing_completed :: "bgp \<Rightarrow> fsm_env \<Rightarrow> session \<Rightarrow> session" where
  "bgp_clearing_completed b env s = BGP_EVENT_FLUSH (bgp_stop b env s)"

definition bgp_stop_with_error :: "bgp \<Rightarrow> fsm_env \<Rightarrow> session \<Rightarrow> session" where
  "bgp_stop_with_error b env s = bgp_stop b env (double_start s)"

definition bgp_getsockname :: "fsm_env \<Rightarrow> session \<Rightarrow> session" where
  "bgp_getsockname env s = s\<lparr>su_local := fst (env_addrs env), su_remote := snd (env_addrs env)\<rparr>"

definition bgp_connect_success :: "bgp \<Rightarrow> fsm_env \<Rightarrow> session \<Rightarrow> int \<times> session" where
  "bgp_connect_success b env s =
     (if fd s < 0 then (- 1, s)
      else let s = BGP_READ_ON s in
           (0, if \<not> CHECK_FLAG (sflags s) PEER_STATUS_ACCEPT_PEER then bgp_open_send b (bgp_getsockname env s) else s))"

text \<open>\<open>None\<close> is the value -1 returned when there is no socket, which is none of the results tested for.\<close>

definition bgp_connect :: "fsm_env \<Rightarrow> session \<Rightarrow> connect_result option \<times> session" where
  "bgp_connect env s =
     (let s = s\<lparr>fd := env_socket env\<rparr> in
      if fd s < 0 then (None, s) else (Some (env_connect env), s\<lparr>open_fds := fd s # open_fds s\<rparr>))"

definition bgp_start :: "fsm_env \<Rightarrow> session \<Rightarrow> int \<times> session" where
  "bgp_start env s =
     (if BGP_PEER_START_SUPPRESSED s then (- 1, s)
      else let s = s\<lparr>su_local := None, su_remote := None, remote_id := 0, cap := 0\<rparr> in
           if CHECK_FLAG (peer_flags s) PEER_FLAG_PASSIVE then (0, BGP_EVENT_ADD TCP_connection_open_failed s)
           else case bgp_connect env s of
                  (Some connect_error, s) \<Rightarrow> (0, BGP_EVENT_ADD TCP_connection_open_failed s)
                | (Some connect_success, s) \<Rightarrow> (0, BGP_EVENT_ADD TCP_connection_open s)
                | (Some connect_in_progress, s) \<Rightarrow>
                    if fd s < 0 then (- 1, s) else (0, BGP_WRITE_ON (BGP_READ_ON s))
                | (None, s) \<Rightarrow> (0, s))"

definition bgp_reconnect :: "bgp \<Rightarrow> fsm_env \<Rightarrow> session \<Rightarrow> session" where
  "bgp_reconnect b env s = snd (bgp_start env (bgp_stop b env s))"

definition bgp_fsm_open :: "session \<Rightarrow> session" where
  "bgp_fsm_open s = (bgp_keepalive_send s)\<lparr>t_holdtime := None\<rparr>"

definition peer_nsf_stop :: "fsm_env \<Rightarrow> session \<Rightarrow> session" where
  "peer_nsf_stop env s =
     bgp_clear_route_all env ((clear_nsf (s\<lparr>sflags := UNSET_FLAG (UNSET_FLAG (sflags s) PEER_STATUS_NSF_WAIT) PEER_STATUS_NSF_MODE\<rparr>))
       \<lparr>t_gr_restart := None, t_gr_stale := None\<rparr>)"

text \<open>The lists the peer is taken off, its tables and filters are outside the session: \<open>PeerRelease\<close>.\<close>

definition peer_delete :: "bgp \<Rightarrow> fsm_env \<Rightarrow> session \<Rightarrow> session res" where
  "peer_delete b env s =
     bindE (assertE (status s \<noteq> Deleted)) (\<lambda>_.
       let s = (if CHECK_FLAG (sflags s) PEER_STATUS_NSF_WAIT then peer_nsf_stop env s else s);
           s = bgp_timer_set env (bgp_fsm_change_status env Deleted (bgp_stop b env s))
       in Inr (call PeerRelease (s\<lparr>obuf := [], su_local := None, su_remote := None\<rparr>)))"

definition bgp_fsm_holdtime_expire :: "bgp \<Rightarrow> fsm_env \<Rightarrow> session \<Rightarrow> (int \<times> session) res" where
  "bgp_fsm_holdtime_expire b env s =
     bindE (bgp_notify_send env BGP_NOTIFY_HOLD_ERR 0 s) (\<lambda>s.
       if CHECK_FLAG (sflags s) PEER_STATUS_ACCEPT_PEER
       then bindE (peer_delete b env s) (\<lambda>s. Inr (- 1, s))
       else Inr (0, bgp_stop b env s))"

text \<open>Graceful restart: the routes of a family that is not preserved are cleared; the number of families kept
  is counted.\<close>

definition nsf_step :: "session \<Rightarrow> nat \<times> nat \<Rightarrow> session" where
  "nsf_step s = (\<lambda>(afi, safi).
     let a = af s (afi, safi);
         restart = (afc_nego a \<and> CHECK_FLAG (cap s) PEER_CAP_RESTART_ADV \<and> CHECK_FLAG (af_cap a) PEER_CAP_RESTART_AF_RCV);
         clear = (nsf a \<and> (restart \<longrightarrow> \<not> CHECK_FLAG (af_cap a) PEER_CAP_RESTART_AF_PRESERVE_RCV));
         s = (if clear then call (ClearStaleRoute afi safi) s else s)
     in s\<lparr>af := (af s)((afi, safi) := a\<lparr>nsf := restart\<rparr>)\<rparr>)"

definition refresh_step :: "session \<Rightarrow> nat \<times> nat \<Rightarrow> session" where
  "refresh_step s = (\<lambda>(afi, safi).
     let c = af_cap (af s (afi, safi)) in
     if CHECK_FLAG c PEER_CAP_ORF_PREFIX_SM_ADV
     then if CHECK_FLAG c PEER_CAP_ORF_PREFIX_RM_RCV then call (RouteRefreshSend afi safi True) s
          else if CHECK_FLAG c PEER_CAP_ORF_PREFIX_RM_OLD_RCV then call (RouteRefreshSend afi safi False) s else s
     else s)"

definition wait_step :: "session \<Rightarrow> nat \<times> nat \<Rightarrow> session" where
  "wait_step s k =
     (let a = af s k in
      if CHECK_FLAG (af_cap a) PEER_CAP_ORF_PREFIX_RM_ADV \<and>
         (CHECK_FLAG (af_cap a) PEER_CAP_ORF_PREFIX_SM_RCV \<or> CHECK_FLAG (af_cap a) PEER_CAP_ORF_PREFIX_SM_OLD_RCV)
      then s\<lparr>af := (af s)(k := a\<lparr>af_sflags := SET_FLAG (af_sflags a) PEER_STATUS_ORF_WAIT_REFRESH\<rparr>)\<rparr> else s)"

definition bgp_establish :: "fsm_env \<Rightarrow> session \<Rightarrow> session" where
  "bgp_establish env s =
     (let s = s\<lparr>sflags := SET_FLAG (sflags s) PEER_STATUS_CAPABILITY_OPEN, v_start := BGP_INIT_START_TIMER,
                established := established s + 1\<rparr>;
          s = bgp_fsm_change_status env Established s;
          s = foldl nsf_step (s\<lparr>sflags := UNSET_FLAG (sflags s) PEER_STATUS_NSF_WAIT\<rparr>) nsf_afs;
          s = (if list_ex (\<lambda>k. nsf (af s k)) nsf_afs then s\<lparr>sflags := SET_FLAG (sflags s) PEER_STATUS_NSF_MODE\<rparr>
               else s\<lparr>sflags := UNSET_FLAG (sflags s) PEER_STATUS_NSF_MODE, t_gr_stale := None\<rparr>);
          s = foldl refresh_step (s\<lparr>t_gr_restart := None, uptime := env_clock env\<rparr>) all_afs;
          s = (if v_keepalive s \<noteq> 0 then bgp_keepalive_send s else s);
          s = call AnnounceRouteAll (foldl wait_step s all_afs)
      in s\<lparr>t_routeadv := BGP_TIMER_ON s (t_routeadv s) 1\<rparr>)"

definition bgp_fsm_keepalive :: "session \<Rightarrow> session" where
  "bgp_fsm_keepalive s = s\<lparr>keepalive_in := keepalive_in s + 1, t_holdtime := None\<rparr>"

definition bgp_fsm_update :: "session \<Rightarrow> session" where
  "bgp_fsm_update s = s\<lparr>t_holdtime := None\<rparr>"

subsection \<open>The machine\<close>

datatype fsm_func = Fstart | Fstop | Fignore | Fconnect_success | Fconnect_fail | Freconnect | Fopen | Fkeepalive_expire
  | Fholdtime_expire | Festablish | Fkeepalive | Fupdate | Fstop_with_error | Fclearing_completed

fun run_func :: "bgp \<Rightarrow> fsm_env \<Rightarrow> fsm_func \<Rightarrow> session \<Rightarrow> (int \<times> session) res" where
  "run_func b env Fstart s = Inr (bgp_start env s)"
| "run_func b env Fstop s = Inr (0, bgp_stop b env s)"
| "run_func b env Fignore s = Inr (0, s)"
| "run_func b env Fconnect_success s = Inr (bgp_connect_success b env s)"
| "run_func b env Fconnect_fail s = Inr (0, bgp_stop b env s)"
| "run_func b env Freconnect s = Inr (0, bgp_reconnect b env s)"
| "run_func b env Fopen s = Inr (0, bgp_fsm_open s)"
| "run_func b env Fkeepalive_expire s = Inr (0, bgp_keepalive_send s)"
| "run_func b env Fholdtime_expire s = bgp_fsm_holdtime_expire b env s"
| "run_func b env Festablish s = Inr (0, bgp_establish env s)"
| "run_func b env Fkeepalive s = Inr (0, bgp_fsm_keepalive s)"
| "run_func b env Fupdate s = Inr (0, bgp_fsm_update s)"
| "run_func b env Fstop_with_error s = Inr (0, bgp_stop_with_error b env s)"
| "run_func b env Fclearing_completed s = Inr (0, bgp_clearing_completed b env s)"

fun FSM_row :: "status \<Rightarrow> (fsm_func \<times> status) list" where
  "FSM_row Idle =
     [(Fstart, Connect), (Fstop, Idle), (Fstop, Idle), (Fstop, Idle), (Fignore, Idle), (Fstop, Idle), (Fignore, Idle),
      (Fignore, Idle), (Fignore, Idle), (Fignore, Idle), (Fignore, Idle), (Fignore, Idle), (Fignore, Idle), (Fignore, Idle)]"
| "FSM_row Connect =
     [(Fignore, Connect), (Fstop, Idle), (Fconnect_success, OpenSent), (Fstop, Idle), (Fconnect_fail, Active),
      (Fconnect_fail, Idle), (Freconnect, Connect), (Fignore, Idle), (Fignore, Idle), (Fignore, Idle), (Fignore, Idle),
      (Fignore, Idle), (Fstop, Idle), (Fignore, Idle)]"
| "FSM_row Active =
     [(Fignore, Active), (Fstop, Idle), (Fconnect_success, OpenSent), (Fstop, Idle), (Fignore, Active), (Fignore, Idle),
      (Fstart, Connect), (Fignore, Idle), (Fignore, Idle), (Fignore, Idle), (Fignore, Idle), (Fignore, Idle),
      (Fstop_with_error, Idle), (Fignore, Idle)]"
| "FSM_row OpenSent =
     [(Fignore, OpenSent), (Fstop, Idle), (Fstop, Active), (Fstop, Active), (Fstop, Active), (Fstop, Active), (Fignore, Idle),
      (Fholdtime_expire, Idle), (Fignore, Idle), (Fopen, OpenConfirm), (Fignore, Idle), (Fignore, Idle),
      (Fstop_with_error, Idle), (Fignore, Idle)]"
| "FSM_row OpenConfirm =
     [(Fignore, OpenConfirm), (Fstop, Idle), (Fstop, Idle), (Fstop, Idle), (Fstop, Idle), (Fstop, Idle), (Fignore, Idle),
      (Fholdtime_expire, Idle), (Fignore, OpenConfirm), (Fignore, Idle), (Festablish, Established), (Fignore, Idle),
      (Fstop_with_error, Idle), (Fignore, Idle)]"
| "FSM_row Established =
     [(Fignore, Established), (Fstop, Clearing), (Fstop, Clearing), (Fstop, Clearing), (Fstop, Clearing), (Fstop, Clearing),
      (Fstop, Clearing), (Fholdtime_expire, Clearing), (Fkeepalive_expire, Established), (Fstop, Clearing),
      (Fkeepalive, Established), (Fupdate, Established), (Fstop_with_error, Clearing), (Fignore, Idle)]"
| "FSM_row Clearing =
     [(Fignore, Clearing), (Fstop, Clearing), (Fstop, Clearing), (Fstop, Clearing), (Fstop, Clearing), (Fstop, Clearing),
      (Fstop, Clearing), (Fstop, Clearing), (Fstop, Clearing), (Fstop, Clearing), (Fstop, Clearing), (Fstop, Clearing),
      (Fstop, Clearing), (Fclearing_completed, Idle)]"
| "FSM_row Deleted = replicate 14 (Fignore, Deleted)"

fun event_index :: "fsm_event \<Rightarrow> nat" where
  "event_index BGP_Start = 0"
| "event_index BGP_Stop = 1"
| "event_index TCP_connection_open = 2"
| "event_index TCP_connection_closed = 3"
| "event_index TCP_connection_open_failed = 4"
| "event_index TCP_fatal_error = 5"
| "event_index ConnectRetry_timer_expired = 6"
| "event_index Hold_Timer_expired = 7"
| "event_index KeepAlive_timer_expired = 8"
| "event_index Receive_OPEN_message = 9"
| "event_index Receive_KEEPALIVE_message = 10"
| "event_index Receive_UPDATE_message = 11"
| "event_index Receive_NOTIFICATION_message = 12"
| "event_index Clearing_Completed = 13"

definition FSM :: "status \<Rightarrow> fsm_event \<Rightarrow> fsm_func \<times> status" where
  "FSM st e = FSM_row st ! event_index e"

definition bgp_event :: "bgp \<Rightarrow> fsm_env \<Rightarrow> fsm_event \<Rightarrow> session \<Rightarrow> (int \<times> session) res" where
  "bgp_event b env event s =
     (let next_state = snd (FSM (status s) event) in
      bindE (run_func b env (fst (FSM (status s) event)) s) (\<lambda>(ret, s).
        if ret \<ge> 0
        then Inr (ret, bgp_timer_set env (if next_state \<noteq> status s then bgp_fsm_change_status env next_state s else s))
        else Inr (ret, s)))"

subsection \<open>Timer threads\<close>

definition bgp_start_timer :: "bgp \<Rightarrow> fsm_env \<Rightarrow> session \<Rightarrow> (int \<times> session) res" where
  "bgp_start_timer b env s = bgp_event b env BGP_Start (s\<lparr>t_start := None\<rparr>)"

definition bgp_connect_timer :: "bgp \<Rightarrow> fsm_env \<Rightarrow> session \<Rightarrow> (int \<times> session) res" where
  "bgp_connect_timer b env s = bgp_event b env ConnectRetry_timer_expired (s\<lparr>t_connect := None\<rparr>)"

definition bgp_holdtime_timer :: "bgp \<Rightarrow> fsm_env \<Rightarrow> session \<Rightarrow> (int \<times> session) res" where
  "bgp_holdtime_timer b env s = bgp_event b env Hold_Timer_expired (s\<lparr>t_holdtime := None\<rparr>)"

definition bgp_keepalive_timer :: "bgp \<Rightarrow> fsm_env \<Rightarrow> session \<Rightarrow> (int \<times> session) res" where
  "bgp_keepalive_timer b env s = bgp_event b env KeepAlive_timer_expired (s\<lparr>t_keepalive := None\<rparr>)"

definition bgp_routeadv_timer :: "fsm_env \<Rightarrow> session \<Rightarrow> session" where
  "bgp_routeadv_timer env s =
     (let s = BGP_WRITE_ON (s\<lparr>t_routeadv := None, synctime := env_clock env\<rparr>)
      in s\<lparr>t_routeadv := BGP_TIMER_ON s (t_routeadv s) (v_routeadv s)\<rparr>)"

definition clear_stale :: "session \<Rightarrow> session" where
  "clear_stale s = foldl (\<lambda>s (afi, safi). if nsf (af s (afi, safi)) then call (ClearStaleRoute afi safi) s else s) s nsf_afs"

definition bgp_graceful_restart_timer_expire :: "fsm_env \<Rightarrow> session \<Rightarrow> session" where
  "bgp_graceful_restart_timer_expire env s =
     (let s = clear_stale (s\<lparr>t_gr_restart := None\<rparr>)
      in bgp_timer_set env (s\<lparr>sflags := UNSET_FLAG (sflags s) PEER_STATUS_NSF_WAIT, t_gr_stale := None\<rparr>))"

definition bgp_graceful_stale_timer_expire :: "session \<Rightarrow> session" where
  "bgp_graceful_stale_timer_expire s = clear_stale (s\<lparr>t_gr_stale := None\<rparr>)"

definition bgp_connect_check :: "fsm_env \<Rightarrow> session \<Rightarrow> session" where
  "bgp_connect_check env s =
     (let s = s\<lparr>t_read := None, t_write := None\<rparr> in
      if env_sockopt env < 0 then BGP_EVENT_ADD TCP_fatal_error s
      else if env_sockopt env = 0 then BGP_EVENT_ADD TCP_connection_open s
      else BGP_EVENT_ADD TCP_connection_open_failed s)"

subsection \<open>What each function keeps\<close>

text \<open>Most functions keep the status; the fields outside their reach follow by computation.\<close>

named_theorems fsm_frame

lemma call_frame [fsm_frame]:
  "status (call c s) = status s" "fd (call c s) = fd s" "open_fds (call c s) = open_fds s" "v_start (call c s) = v_start s"
  "obuf (call c s) = obuf s" "sflags (call c s) = sflags s" "t_read (call c s) = t_read s" "events (call c s) = events s"
  "t_write (call c s) = t_write s" "v_keepalive (call c s) = v_keepalive s" "v_holdtime (call c s) = v_holdtime s"
  "peer_flags (call c s) = peer_flags s" "peer_config (call c s) = peer_config s" "t_holdtime (call c s) = t_holdtime s"
  by (simp_all add: call_def)

lemma clear_route_all_eq:
  "bgp_clear_route_all env s = (call ClearRouteAll s)\<lparr>events := events s @
     (if status s = Deleted then [] else replicate (length (filter (env_clear_idle env) all_afs)) Clearing_Completed)\<rparr>"
proof -
  have "fold (bgp_clear_route env) ks t = t\<lparr>events := events t @
      (if status t = Deleted then [] else replicate (length (filter (env_clear_idle env) ks)) Clearing_Completed)\<rparr>" for ks t
    by (induction ks arbitrary: t) (auto simp: bgp_clear_route_def bgp_clear_node_complete_def BGP_EVENT_ADD_def)
  then show ?thesis by (simp add: bgp_clear_route_all_def call_def)
qed

lemma clear_route_all_frame [fsm_frame]:
  "status (bgp_clear_route_all env s) = status s" "fd (bgp_clear_route_all env s) = fd s" "open_fds (bgp_clear_route_all env s) = open_fds s"
  "v_start (bgp_clear_route_all env s) = v_start s" "obuf (bgp_clear_route_all env s) = obuf s" "sflags (bgp_clear_route_all env s) = sflags s"
  "t_read (bgp_clear_route_all env s) = t_read s"
  by (simp_all add: clear_route_all_eq fsm_frame)

lemma fold_call_frame [fsm_frame]:
  "status (fold (\<lambda>(afi, safi). call (c afi safi)) ks s) = status s" "fd (fold (\<lambda>(afi, safi). call (c afi safi)) ks s) = fd s"
  "open_fds (fold (\<lambda>(afi, safi). call (c afi safi)) ks s) = open_fds s" "v_start (fold (\<lambda>(afi, safi). call (c afi safi)) ks s) = v_start s"
  "obuf (fold (\<lambda>(afi, safi). call (c afi safi)) ks s) = obuf s" "sflags (fold (\<lambda>(afi, safi). call (c afi safi)) ks s) = sflags s"
  "t_read (fold (\<lambda>(afi, safi). call (c afi safi)) ks s) = t_read s" "t_write (fold (\<lambda>(afi, safi). call (c afi safi)) ks s) = t_write s"
  "events (fold (\<lambda>(afi, safi). call (c afi safi)) ks s) = events s" "peer_flags (fold (\<lambda>(afi, safi). call (c afi safi)) ks s) = peer_flags s"
  "peer_config (fold (\<lambda>(afi, safi). call (c afi safi)) ks s) = peer_config s"
  by (induction ks arbitrary: s) (auto simp: fsm_frame)

lemma reset_afs_frame [fsm_frame]:
  "status (reset_afs s) = status s" "fd (reset_afs s) = fd s" "open_fds (reset_afs s) = open_fds s" "v_start (reset_afs s) = v_start s"
  "obuf (reset_afs s) = obuf s" "sflags (reset_afs s) = sflags s" "t_read (reset_afs s) = t_read s" "t_write (reset_afs s) = t_write s"
  "events (reset_afs s) = events s" "peer_flags (reset_afs s) = peer_flags s" "peer_config (reset_afs s) = peer_config s"
  by (simp_all add: reset_afs_def fsm_frame)

lemma close_fd_frame [fsm_frame]:
  "status (close_fd s) = status s" "v_start (close_fd s) = v_start s" "obuf (close_fd s) = obuf s" "sflags (close_fd s) = sflags s"
  "t_read (close_fd s) = t_read s" "t_write (close_fd s) = t_write s" "events (close_fd s) = events s" "fd (close_fd s) < 0"
  "peer_flags (close_fd s) = peer_flags s" "peer_config (close_fd s) = peer_config s"
  "set (open_fds (close_fd s)) = set (open_fds s) - (if fd s \<ge> 0 then {fd s} else {})"
  by (simp_all add: close_fd_def)

lemma stop_established_frame [fsm_frame]:
  "status (stop_established b env s) = status s" "v_start (stop_established b env s) = v_start s" "fd (stop_established b env s) = fd s"
  "open_fds (stop_established b env s) = open_fds s" "events (stop_established b env s) = events s"
  "peer_flags (stop_established b env s) = peer_flags s" "peer_config (stop_established b env s) = peer_config s"
  by (simp_all add: stop_established_def Let_def clear_nsf_def)

lemma stop_established_flags [fsm_frame]:
  "f \<in> {PEER_STATUS_ACCEPT_PEER, PEER_STATUS_PREFIX_OVERFLOW} \<Longrightarrow>
     CHECK_FLAG (sflags (stop_established b env s)) f = CHECK_FLAG (sflags s) f"
  by (auto simp: stop_established_def Let_def clear_nsf_def CHECK_FLAG_def UNSET_FLAG_def PEER_STATUS_NSF_MODE_def
      PEER_STATUS_ACCEPT_PEER_def PEER_STATUS_PREFIX_OVERFLOW_def and.assoc)

lemma bgp_stop_frame [fsm_frame]:
  "status (bgp_stop b env s) = status s" "v_start (bgp_stop b env s) = v_start s" "fd (bgp_stop b env s) < 0"
  "obuf (bgp_stop b env s) = []" "t_read (bgp_stop b env s) = None" "t_write (bgp_stop b env s) = None"
  "set (open_fds (bgp_stop b env s)) = set (open_fds s) - (if fd s \<ge> 0 then {fd s} else {})"
  "status s \<noteq> Clearing \<Longrightarrow> events (bgp_stop b env s) = []" "peer_flags (bgp_stop b env s) = peer_flags s"
  "f \<in> {PEER_STATUS_ACCEPT_PEER, PEER_STATUS_PREFIX_OVERFLOW} \<Longrightarrow> CHECK_FLAG (sflags (bgp_stop b env s)) f = CHECK_FLAG (sflags s) f"
  by (simp_all add: bgp_stop_def Let_def BGP_EVENT_FLUSH_def fsm_frame)

lemma on_frame [fsm_frame]:
  "status (BGP_READ_ON s) = status s" "v_start (BGP_READ_ON s) = v_start s" "fd (BGP_READ_ON s) = fd s" "open_fds (BGP_READ_ON s) = open_fds s"
  "sflags (BGP_READ_ON s) = sflags s" "obuf (BGP_READ_ON s) = obuf s"
  "status (BGP_WRITE_ON s) = status s" "v_start (BGP_WRITE_ON s) = v_start s" "fd (BGP_WRITE_ON s) = fd s" "open_fds (BGP_WRITE_ON s) = open_fds s"
  "sflags (BGP_WRITE_ON s) = sflags s" "obuf (BGP_WRITE_ON s) = obuf s" "t_holdtime (BGP_WRITE_ON s) = t_holdtime s"
  "status (BGP_EVENT_ADD e s) = status s" "v_start (BGP_EVENT_ADD e s) = v_start s" "fd (BGP_EVENT_ADD e s) = fd s"
  "open_fds (BGP_EVENT_ADD e s) = open_fds s" "sflags (BGP_EVENT_ADD e s) = sflags s"
  by (simp_all add: BGP_READ_ON_def BGP_WRITE_ON_def BGP_EVENT_ADD_def)

lemma send_frame [fsm_frame]:
  "status (bgp_keepalive_send s) = status s" "v_start (bgp_keepalive_send s) = v_start s" "fd (bgp_keepalive_send s) = fd s"
  "open_fds (bgp_keepalive_send s) = open_fds s" "sflags (bgp_keepalive_send s) = sflags s" "obuf (bgp_keepalive_send s) = obuf s @ [KeepaliveMessage]"
  "status (bgp_open_send b s) = status s" "v_start (bgp_open_send b s) = v_start s" "fd (bgp_open_send b s) = fd s"
  "open_fds (bgp_open_send b s) = open_fds s"
  by (simp_all add: bgp_keepalive_send_def bgp_open_send_def bgp_packet_add_def fsm_frame Let_def)

lemma connect_success_frame:
  "bgp_connect_success b env s = (ret, s') \<Longrightarrow> status s' = status s \<and> v_start s' = v_start s \<and> fd s' = fd s \<and>
     open_fds s' = open_fds s \<and> (ret = 0 \<and> fd s \<ge> 0 \<or> ret = - 1 \<and> fd s < 0 \<and> s' = s)"
  by (auto simp: bgp_connect_success_def Let_def fsm_frame bgp_getsockname_def split: if_splits)

lemma start_frame:
  assumes "bgp_start env s = (ret, s')"
  shows "status s' = status s \<and> v_start s' = v_start s \<and> peer_flags s' = peer_flags s \<and>
     (ret = 0 \<or> ret = - 1 \<and> BGP_PEER_START_SUPPRESSED s \<and> s' = s)"
  using assms by (auto simp: bgp_start_def bgp_connect_def Let_def fsm_frame BGP_WRITE_ON_def BGP_READ_ON_def BGP_EVENT_ADD_def
      split: if_splits connect_result.splits)

lemma start_flags_frame [fsm_frame]:
  "BGP_PEER_START_SUPPRESSED (bgp_stop b env s) = BGP_PEER_START_SUPPRESSED s"
  by (simp add: BGP_PEER_START_SUPPRESSED_def fsm_frame)

lemma foldl_keeps: "(\<And>s x. g (f s x) = g s) \<Longrightarrow> g (foldl f s xs) = g s"
  by (induction xs arbitrary: s) auto

lemma af_steps_frame [fsm_frame]:
  "status (foldl nsf_step s ks) = status s" "v_start (foldl nsf_step s ks) = v_start s" "fd (foldl nsf_step s ks) = fd s"
  "open_fds (foldl nsf_step s ks) = open_fds s" "obuf (foldl nsf_step s ks) = obuf s" "v_keepalive (foldl nsf_step s ks) = v_keepalive s"
  "status (foldl refresh_step s ks) = status s" "v_start (foldl refresh_step s ks) = v_start s" "fd (foldl refresh_step s ks) = fd s"
  "open_fds (foldl refresh_step s ks) = open_fds s" "obuf (foldl refresh_step s ks) = obuf s" "v_keepalive (foldl refresh_step s ks) = v_keepalive s"
  "status (foldl wait_step s ks) = status s" "v_start (foldl wait_step s ks) = v_start s" "fd (foldl wait_step s ks) = fd s"
  "open_fds (foldl wait_step s ks) = open_fds s" "obuf (foldl wait_step s ks) = obuf s"
  by (rule foldl_keeps; auto simp: nsf_step_def refresh_step_def wait_step_def Let_def fsm_frame split: prod.splits)+

lemma establish_frame [fsm_frame]:
  "status (bgp_establish env s) = Established" "v_start (bgp_establish env s) = 5" "fd (bgp_establish env s) = fd s"
  "open_fds (bgp_establish env s) = open_fds s"
  "obuf (bgp_establish env s) = obuf s @ (if v_keepalive s \<noteq> 0 then [KeepaliveMessage] else [])"
  by (simp_all add: bgp_establish_def Let_def fsm_frame bgp_fsm_change_status_def BGP_INIT_START_TIMER_def)

lemma establish_announces: "last (route_calls (bgp_establish env s)) = AnnounceRouteAll"
  by (simp add: bgp_establish_def Let_def call_def)

lemma double_start_le: "v_start (double_start s) \<le> 120"
  by (simp add: double_start_def not_le less_imp_le)

lemma double_start_frame [fsm_frame]:
  "status (double_start s) = status s" "fd (double_start s) = fd s" "open_fds (double_start s) = open_fds s" "sflags (double_start s) = sflags s"
  by (simp_all add: double_start_def)

lemma notify_frame:
  "\<exists>s'. bgp_notify_send env code sub s = Inr s' \<and> status s' = status s \<and> fd s' = fd s \<and> open_fds s' = open_fds s \<and> sflags s' = sflags s \<and>
     (v_start s \<le> 120 \<longrightarrow> v_start s' \<le> 120)"
  using double_start_le by (auto simp: bgp_notify_send_def bgp_write_notify_def bgp_packet_add_def fsm_frame)

lemma timer_set_frame [fsm_frame]:
  "status (bgp_timer_set env s) = status s" "v_start (bgp_timer_set env s) = v_start s" "fd (bgp_timer_set env s) = fd s"
  "open_fds (bgp_timer_set env s) = open_fds s" "obuf (bgp_timer_set env s) = obuf s" "sflags (bgp_timer_set env s) = sflags s"
  "v_holdtime (bgp_timer_set env s) = v_holdtime s" "v_keepalive (bgp_timer_set env s) = v_keepalive s"
  "peer_flags (bgp_timer_set env s) = peer_flags s" "t_read (bgp_timer_set env s) = t_read s" "route_calls (bgp_timer_set env s) = route_calls s"
  "events (bgp_timer_set env s) = events s"
  by (simp_all add: bgp_timer_set_def session_timers_off_def hold_timers_def Let_def split: status.split)

lemma change_status_frame [fsm_frame]:
  "status (bgp_fsm_change_status env st s) = st" "v_start (bgp_fsm_change_status env st s) = v_start s" "fd (bgp_fsm_change_status env st s) = fd s"
  "open_fds (bgp_fsm_change_status env st s) = open_fds s" "obuf (bgp_fsm_change_status env st s) = obuf s" "t_read (bgp_fsm_change_status env st s) = t_read s"
  by (simp_all add: bgp_fsm_change_status_def Let_def fsm_frame)

lemma nsf_stop_frame [fsm_frame]:
  "status (peer_nsf_stop env s) = status s" "v_start (peer_nsf_stop env s) = v_start s" "fd (peer_nsf_stop env s) = fd s" "open_fds (peer_nsf_stop env s) = open_fds s"
  by (simp_all add: peer_nsf_stop_def clear_nsf_def fsm_frame)

lemma peer_delete_frame:
  "status s \<noteq> Deleted \<Longrightarrow> \<exists>s'. peer_delete b env s = Inr s' \<and> status s' = Deleted \<and> v_start s' = v_start s \<and> fd s' < 0 \<and>
     set (open_fds s') = set (open_fds s) - (if fd s \<ge> 0 then {fd s} else {})"
  by (auto simp: peer_delete_def Let_def fsm_frame)

subsection \<open>Timers\<close>

definition timers_ok :: "session \<Rightarrow> bool" where
  "timers_ok s \<longleftrightarrow>
     (status s \<noteq> Idle \<longrightarrow> t_start s = None) \<and> (status s \<notin> {Connect, Active} \<longrightarrow> t_connect s = None) \<and>
     (status s \<notin> {OpenSent, OpenConfirm, Established} \<longrightarrow> t_holdtime s = None) \<and>
     (status s \<notin> {OpenConfirm, Established} \<longrightarrow> t_keepalive s = None) \<and> t_asorig s = None \<and>
     (status s \<noteq> Established \<longrightarrow> t_routeadv s = None) \<and>
     (status s = Idle \<longrightarrow> (t_start s \<noteq> None \<longleftrightarrow> \<not> BGP_PEER_START_SUPPRESSED s \<and> peer_active s)) \<and>
     (status s = Connect \<longrightarrow> t_connect s \<noteq> None) \<and>
     (status s = Active \<longrightarrow> (t_connect s \<noteq> None \<longleftrightarrow>
        \<not> CHECK_FLAG (peer_flags s) PEER_FLAG_PASSIVE \<and> \<not> CHECK_FLAG (sflags s) PEER_STATUS_NSF_WAIT)) \<and>
     (status s \<in> {OpenSent, OpenConfirm, Established} \<longrightarrow> (t_holdtime s \<noteq> None \<longleftrightarrow> v_holdtime s \<noteq> 0)) \<and>
     (status s \<in> {OpenConfirm, Established} \<longrightarrow> (t_keepalive s \<noteq> None \<longleftrightarrow> v_holdtime s \<noteq> 0))"

lemma timer_set_ok: "timers_ok (bgp_timer_set env s)"
  by (cases "status s")
    (simp_all add: timers_ok_def bgp_timer_set_def session_timers_off_def hold_timers_def Let_def BGP_TIMER_ON_def
      BGP_PEER_START_SUPPRESSED_def peer_active_def)

subsection \<open>Events\<close>

lemma holdtime_frame:
  assumes "status s \<noteq> Deleted"
  shows "\<exists>s'. bgp_fsm_holdtime_expire b env s = Inr (if CHECK_FLAG (sflags s) PEER_STATUS_ACCEPT_PEER then - 1 else 0, s') \<and>
     status s' = (if CHECK_FLAG (sflags s) PEER_STATUS_ACCEPT_PEER then Deleted else status s) \<and>
     (v_start s \<le> 120 \<longrightarrow> v_start s' \<le> 120) \<and> fd s' < 0 \<and> set (open_fds s') = set (open_fds s) - (if fd s \<ge> 0 then {fd s} else {})"
proof -
  obtain s1 where s1: "bgp_notify_send env BGP_NOTIFY_HOLD_ERR 0 s = Inr s1" "status s1 = status s" "fd s1 = fd s"
      "open_fds s1 = open_fds s" "sflags s1 = sflags s" "v_start s \<le> 120 \<longrightarrow> v_start s1 \<le> 120"
    using notify_frame[of env BGP_NOTIFY_HOLD_ERR 0 s] by blast
  obtain s2 where s2: "peer_delete b env s1 = Inr s2" "status s2 = Deleted" "v_start s2 = v_start s1" "fd s2 < 0"
      "set (open_fds s2) = set (open_fds s1) - (if fd s1 \<ge> 0 then {fd s1} else {})"
    using peer_delete_frame[of s1 b env] assms s1(2) by auto
  show ?thesis
  proof (cases "CHECK_FLAG (sflags s) PEER_STATUS_ACCEPT_PEER")
    case True
    then show ?thesis using s1 s2 by (simp add: bgp_fsm_holdtime_expire_def)
  next
    case False
    then show ?thesis using s1 by (simp add: bgp_fsm_holdtime_expire_def fsm_frame)
  qed
qed

lemma run_func_total: "(f = Fholdtime_expire \<longrightarrow> status s \<noteq> Deleted) \<Longrightarrow> \<exists>ret s'. run_func b env f s = Inr (ret, s')"
  using holdtime_frame[of s b env] by (cases f) (auto simp: prod_eq_iff)

lemmas small_funcs = bgp_stop_with_error_def bgp_fsm_open_def bgp_fsm_keepalive_def bgp_fsm_update_def
  bgp_clearing_completed_def BGP_EVENT_FLUSH_def bgp_reconnect_def

lemma run_func_status:
  assumes "run_func b env f s = Inr (ret, s')" "f = Fholdtime_expire \<longrightarrow> status s \<noteq> Deleted"
  shows "ret = 0 \<and> status s' = (if f = Festablish then Established else status s) \<or>
     ret = - 1 \<and> s' = s \<and> (f = Fstart \<and> BGP_PEER_START_SUPPRESSED s \<or> f = Fconnect_success \<and> fd s < 0) \<or>
     ret = - 1 \<and> status s' = Deleted \<and> f = Fholdtime_expire \<and> CHECK_FLAG (sflags s) PEER_STATUS_ACCEPT_PEER"
proof (cases f)
  case Fstart
  then show ?thesis using assms start_frame[of env s ret s'] by auto
next
  case Fconnect_success
  then have "bgp_connect_success b env s = (ret, s')" using assms by simp
  then show ?thesis using Fconnect_success connect_success_frame[of b env s ret s'] by auto
next
  case Freconnect
  then show ?thesis using assms start_frame[of env "bgp_stop b env s"]
    by (cases "bgp_start env (bgp_stop b env s)") (auto simp: bgp_reconnect_def fsm_frame)
next
  case Fholdtime_expire
  then show ?thesis using assms holdtime_frame[of s b env] by auto
qed (use assms in \<open>auto simp: fsm_frame small_funcs\<close>)

lemma run_func_v_start:
  assumes "run_func b env f s = Inr (ret, s')" "f = Fholdtime_expire \<longrightarrow> status s \<noteq> Deleted" "v_start s \<le> 120"
  shows "v_start s' \<le> 120"
proof (cases f)
  case Fstart
  then show ?thesis using assms start_frame[of env s ret s'] by auto
next
  case Fconnect_success
  then show ?thesis using assms connect_success_frame[of b env s ret s'] by auto
next
  case Freconnect
  then show ?thesis using assms start_frame[of env "bgp_stop b env s"]
    by (cases "bgp_start env (bgp_stop b env s)") (auto simp: bgp_reconnect_def fsm_frame)
next
  case Fholdtime_expire
  then show ?thesis using assms holdtime_frame[of s b env] by auto
qed (use assms double_start_le in \<open>auto simp: fsm_frame small_funcs\<close>)

text \<open>Descriptors: the functions that close the socket, those that leave it, and those that open one.\<close>

definition closes :: "fsm_func \<Rightarrow> bool" where
  "closes f \<longleftrightarrow> f \<in> {Fstop, Fconnect_fail, Fholdtime_expire, Fstop_with_error, Fclearing_completed}"

definition opens :: "fsm_func \<Rightarrow> bool" where
  "opens f \<longleftrightarrow> f \<in> {Fstart, Freconnect}"

lemma run_func_closes:
  assumes "run_func b env f s = Inr (ret, s')" "f = Fholdtime_expire \<longrightarrow> status s \<noteq> Deleted" "closes f"
  shows "fd s' < 0 \<and> set (open_fds s') = set (open_fds s) - (if fd s \<ge> 0 then {fd s} else {})"
proof (cases f)
  case Fholdtime_expire
  then show ?thesis using assms holdtime_frame[of s b env] by auto
qed (use assms in \<open>auto simp: fsm_frame small_funcs closes_def\<close>)

lemma run_func_keeps:
  assumes "run_func b env f s = Inr (ret, s')" "\<not> closes f" "\<not> opens f"
  shows "fd s' = fd s \<and> open_fds s' = open_fds s \<and> (f = Fconnect_success \<and> ret \<ge> 0 \<longrightarrow> fd s \<ge> 0)"
proof (cases f)
  case Fconnect_success
  then show ?thesis using assms connect_success_frame[of b env s ret s'] by auto
qed (use assms in \<open>auto simp: fsm_frame small_funcs closes_def opens_def\<close>)

lemma start_fds:
  assumes "bgp_start env s = (ret, s')" "set (open_fds s) = {}" "fd s < 0"
  shows "set (open_fds s') = (if fd s' \<ge> 0 then {fd s'} else {})"
  using assms by (auto simp: bgp_start_def bgp_connect_def Let_def fsm_frame BGP_WRITE_ON_def BGP_READ_ON_def BGP_EVENT_ADD_def
      split: if_splits connect_result.splits)

lemma run_func_opens:
  assumes "run_func b env f s = Inr (ret, s')" "set (open_fds s) = (if fd s \<ge> 0 then {fd s} else {})"
    "f = Freconnect \<or> f = Fstart \<and> fd s < 0"
  shows "set (open_fds s') = (if fd s' \<ge> 0 then {fd s'} else {})"
  using assms(3)
proof
  assume f: "f = Freconnect"
  obtain r where "bgp_start env (bgp_stop b env s) = (r, s')" using assms(1) f by (cases "bgp_start env (bgp_stop b env s)") (simp add: bgp_reconnect_def)
  moreover have "set (open_fds (bgp_stop b env s)) = {}" "fd (bgp_stop b env s) < 0" using assms(2) by (simp_all only: fsm_frame) auto
  ultimately show ?thesis by (rule start_fds)
next
  assume "f = Fstart \<and> fd s < 0"
  then show ?thesis using assms start_fds[of env s ret s'] by simp
qed

lemma FSM_establish: "fst (FSM st e) = Festablish \<longleftrightarrow> st = OpenConfirm \<and> e = Receive_KEEPALIVE_message"
  by (cases st; cases e) (simp_all add: FSM_def)

lemma FSM_holdtime: "fst (FSM st e) = Fholdtime_expire \<longrightarrow> st \<noteq> Deleted"
  by (cases st; cases e) (simp_all add: FSM_def)

lemma bgp_event_split:
  assumes "bgp_event b env e s = Inr (ret, s')"
  obtains s1 where "run_func b env (fst (FSM (status s) e)) s = Inr (ret, s1)"
    "ret \<ge> 0 \<Longrightarrow> s' = bgp_timer_set env (if snd (FSM (status s) e) \<noteq> status s1 then bgp_fsm_change_status env (snd (FSM (status s) e)) s1 else s1)"
    "ret < 0 \<Longrightarrow> s' = s1"
proof (cases "run_func b env (fst (FSM (status s) e)) s")
  case (Inl x)
  then show ?thesis using assms by (simp add: bgp_event_def)
next
  case (Inr p)
  then show ?thesis using assms that[of "snd p"] by (cases p) (auto simp: bgp_event_def Let_def split: if_splits)
qed

lemma bgp_event_total: "\<exists>ret s'. bgp_event b env e s = Inr (ret, s')"
proof -
  obtain ret s1 where "run_func b env (fst (FSM (status s) e)) s = Inr (ret, s1)"
    using run_func_total[of "fst (FSM (status s) e)" s b env] FSM_holdtime by blast
  then show ?thesis by (simp add: bgp_event_def Let_def)
qed

lemma FSM_failing:
  "fst (FSM st e) = Fstart \<longleftrightarrow> (st, e) \<in> {(Idle, BGP_Start), (Active, ConnectRetry_timer_expired)}"
  "fst (FSM st e) = Fconnect_success \<longleftrightarrow> st \<in> {Connect, Active} \<and> e = TCP_connection_open"
  "fst (FSM st e) = Fholdtime_expire \<longleftrightarrow> st \<in> {OpenSent, OpenConfirm, Established} \<and> e = Hold_Timer_expired"
  by (cases st; cases e; simp add: FSM_def)+

lemma bgp_event_next:
  assumes "bgp_event b env e s = Inr (ret, s')" "ret \<ge> 0"
  shows "status s' = snd (FSM (status s) e)" "timers_ok s'"
proof -
  obtain s1 where "s' = bgp_timer_set env (if snd (FSM (status s) e) \<noteq> status s1 then bgp_fsm_change_status env (snd (FSM (status s) e)) s1 else s1)"
    using assms by (auto elim: bgp_event_split)
  then show "status s' = snd (FSM (status s) e)" "timers_ok s'" by (simp_all add: fsm_frame timer_set_ok)
qed

lemma bgp_event_refused:
  assumes "bgp_event b env e s = Inr (ret, s')" "ret < 0"
  shows "s' = s \<and> (status s, e) \<in> {(Idle, BGP_Start), (Active, ConnectRetry_timer_expired)} \<and> BGP_PEER_START_SUPPRESSED s \<or>
     s' = s \<and> status s \<in> {Connect, Active} \<and> e = TCP_connection_open \<and> fd s < 0 \<or>
     status s' = Deleted \<and> status s \<in> {OpenSent, OpenConfirm, Established} \<and> e = Hold_Timer_expired \<and>
       CHECK_FLAG (sflags s) PEER_STATUS_ACCEPT_PEER"
proof -
  have r: "run_func b env (fst (FSM (status s) e)) s = Inr (ret, s')" using assms by (auto elim!: bgp_event_split)
  show ?thesis using run_func_status[OF r FSM_holdtime] assms(2) unfolding FSM_failing by auto
qed

subsection \<open>Runs of a session\<close>

text \<open>
  A run is a sequence of events. Between two events other parts of the daemon may change the session in any way
  that leaves the status and does not take an open descriptor away.
\<close>

inductive session_run :: "bgp \<Rightarrow> session \<Rightarrow> fsm_event list \<Rightarrow> session \<Rightarrow> bool" where
  run_start: "session_run b s [] s"
| run_event: "session_run b s es s1 \<Longrightarrow> bgp_event b env e s1 = Inr (ret, s2) \<Longrightarrow> session_run b s (es @ [e]) s2"
| run_other: "session_run b s es s1 \<Longrightarrow> status s2 = status s1 \<Longrightarrow> (fd s1 \<ge> 0 \<longrightarrow> fd s2 \<ge> 0) \<Longrightarrow> session_run b s es s2"

definition live :: "status \<Rightarrow> bool" where
  "live st \<longleftrightarrow> st \<in> {OpenSent, OpenConfirm, Established}"

fun handshake :: "status \<Rightarrow> fsm_event list" where
  "handshake Connect = [BGP_Start]"
| "handshake Active = [BGP_Start]"
| "handshake OpenSent = [BGP_Start, TCP_connection_open]"
| "handshake OpenConfirm = [BGP_Start, TCP_connection_open, Receive_OPEN_message]"
| "handshake Established = [BGP_Start, TCP_connection_open, Receive_OPEN_message, Receive_KEEPALIVE_message]"
| "handshake _ = []"

lemma handshake_step: "subseq (handshake (snd (FSM st e))) (handshake st @ [e])"
  by (cases st; cases e) (simp_all add: FSM_def)

lemma FSM_live:
  "live (snd (FSM st e)) \<longrightarrow> \<not> closes (fst (FSM st e)) \<and> \<not> opens (fst (FSM st e)) \<and> (live st \<or> fst (FSM st e) = Fconnect_success)"
  by (cases st; cases e) (simp_all add: FSM_def live_def closes_def opens_def)

lemma event_live_fd:
  assumes "bgp_event b env e s = Inr (ret, s')" "live (status s) \<longrightarrow> fd s \<ge> 0" "live (status s')"
  shows "fd s' \<ge> 0"
proof (cases "ret \<ge> 0")
  case True
  obtain s1 where r: "run_func b env (fst (FSM (status s) e)) s = Inr (ret, s1)"
    and s': "s' = bgp_timer_set env (if snd (FSM (status s) e) \<noteq> status s1 then bgp_fsm_change_status env (snd (FSM (status s) e)) s1 else s1)"
    using assms(1) True by (auto elim: bgp_event_split)
  have l: "live (snd (FSM (status s) e))" using assms(1,3) True bgp_event_next(1) by metis
  have "fd s1 \<ge> 0" using run_func_keeps[OF r] FSM_live[of "status s" e] l assms(2) True by auto
  then show ?thesis by (simp add: s' fsm_frame)
next
  case False
  then show ?thesis using bgp_event_refused[OF assms(1)] assms(2,3) by (auto simp: live_def)
qed

lemma session_run_inv:
  assumes "session_run b s es s'" "status s = Idle"
  shows "subseq (handshake (status s')) es \<and> (live (status s') \<longrightarrow> fd s' \<ge> 0)"
  using assms
proof (induction rule: session_run.induct)
  case (run_start b s)
  then show ?case by (simp add: live_def)
next
  case (run_event b s es s1 env e ret s2)
  then have IH: "subseq (handshake (status s1)) es" "live (status s1) \<longrightarrow> fd s1 \<ge> 0" by auto
  have "subseq (handshake (status s2)) (es @ [e])"
  proof (cases "ret \<ge> 0")
    case True
    have "subseq (handshake (status s2)) (handshake (status s1) @ [e])"
      using bgp_event_next(1)[OF run_event.hyps(2) True] handshake_step by metis
    also have "subseq (handshake (status s1) @ [e]) (es @ [e])" using IH(1) by simp
    finally show ?thesis .
  next
    case False
    then have "handshake (status s2) = handshake (status s1) \<or> handshake (status s2) = []"
      using bgp_event_refused[OF run_event.hyps(2)] by auto
    then show ?thesis using IH(1) by (auto intro: subseq_rev_drop_many)
  qed
  then show ?case using event_live_fd[OF run_event.hyps(2) IH(2)] by blast
next
  case (run_other b s es s1 s2)
  then show ?case by auto
qed

subsection \<open>Start timer\<close>

lemma jitter_bounds:
  assumes "0 \<le> v"
  shows "- (v div 2) \<le> bgp_start_jitter env v" "bgp_start_jitter env v \<le> v - v div 2"
proof -
  have "0 \<le> int (env_rand env) mod (v + 1)" "int (env_rand env) mod (v + 1) < v + 1"
    using assms pos_mod_bound[of "v + 1" "int (env_rand env)"] by simp_all
  then show "- (v div 2) \<le> bgp_start_jitter env v" "bgp_start_jitter env v \<le> v - v div 2"
    unfolding bgp_start_jitter_def by linarith+
qed

lemma start_time_bounds:
  fixes v :: u32
  assumes "v \<le> 120" and t: "t = v + word_of_int (bgp_start_jitter env (sint v))"
  shows "uint v - uint v div 2 \<le> uint t \<and> uint t \<le> 2 * uint v - uint v div 2"
proof -
  have u: "0 \<le> uint v" "uint v \<le> 120" using assms(1) by (simp_all add: word_le_def)
  have s: "sint v = uint v" using u by (simp add: sint_uint signed_take_bit_eq_if_positive bit_iff_odd take_bit_eq_mod)
  define k where "k = bgp_start_jitter env (uint v)"
  have k: "- (uint v div 2) \<le> k" "k \<le> uint v - uint v div 2" using jitter_bounds[OF u(1)] unfolding k_def by blast+
  have r: "0 \<le> uint v + k" "uint v + k \<le> 240" using u k by linarith+
  have "uint t = (uint v + k) mod 2 ^ 32"
    unfolding t s k_def[symmetric] by (simp add: uint_word_ariths uint_word_of_int take_bit_eq_mod mod_add_right_eq)
  then have "uint t = uint v + k" using r by simp
  then show ?thesis using k by linarith
qed

lemma call_t_start: "t_start (call c s) = t_start s"
  by (simp add: call_def)

lemma af_steps_t_start:
  "t_start (foldl nsf_step s ks) = t_start s" "t_start (foldl refresh_step s ks) = t_start s" "t_start (foldl wait_step s ks) = t_start s"
  by (rule foldl_keeps; auto simp: nsf_step_def refresh_step_def wait_step_def Let_def call_t_start split: prod.splits)+

lemma fold_call_t_start: "t_start (fold (\<lambda>(afi, safi). call (c afi safi)) ks s) = t_start s"
  by (induction ks arbitrary: s) (auto simp: call_t_start)

lemma on_t_start:
  "t_start (BGP_READ_ON s) = t_start s" "t_start (BGP_WRITE_ON s) = t_start s" "t_start (BGP_EVENT_ADD e s) = t_start s"
  "t_start (bgp_keepalive_send s) = t_start s" "t_start (bgp_open_send b s) = t_start s" "t_start (bgp_getsockname env s) = t_start s"
  by (simp_all add: BGP_READ_ON_def BGP_WRITE_ON_def BGP_EVENT_ADD_def bgp_keepalive_send_def bgp_packet_add_def bgp_open_send_def
      bgp_getsockname_def Let_def)

lemma stop_t_start: "t_start (bgp_stop b env s) = None"
  by (simp add: bgp_stop_def Let_def reset_afs_def fold_call_t_start close_fd_def)

lemma start_t_start: "bgp_start env s = (ret, s') \<Longrightarrow> t_start s' = t_start s"
  by (auto simp: bgp_start_def bgp_connect_def Let_def on_t_start split: if_splits connect_result.splits)

lemma establish_t_start: "t_start (bgp_establish env s) = t_start s"
  by (simp add: bgp_establish_def Let_def af_steps_t_start on_t_start call_t_start bgp_fsm_change_status_def)

lemma deleted_t_start: "peer_delete b env s = Inr s' \<Longrightarrow> t_start s' = None"
  by (auto simp: peer_delete_def Let_def bgp_timer_set_def session_timers_off_def fsm_frame call_t_start fault_simps)

lemma run_func_t_start:
  assumes "run_func b env f s = Inr (ret, s')" "t_start s = None"
  shows "t_start s' = None"
proof (cases f)
  case Fstart
  then show ?thesis using assms start_t_start[of env s ret s'] by simp
next
  case Fconnect_success
  then show ?thesis using assms by (auto simp: bgp_connect_success_def Let_def on_t_start split: if_splits)
next
  case Freconnect
  then show ?thesis using assms start_t_start[of env "bgp_stop b env s"]
    by (cases "bgp_start env (bgp_stop b env s)") (auto simp: bgp_reconnect_def stop_t_start)
next
  case Fholdtime_expire
  then show ?thesis using assms
    by (auto simp: bgp_fsm_holdtime_expire_def fault_simps stop_t_start dest: deleted_t_start split: if_splits)
qed (use assms in \<open>auto simp: small_funcs stop_t_start on_t_start establish_t_start\<close>)

lemma timer_set_start:
  assumes "t_start s = None" "t_start (bgp_timer_set env s) = Some t"
  shows "t = v_start s + word_of_int (bgp_start_jitter env (sint (v_start s)))"
  using assms by (cases "status s") (auto simp: bgp_timer_set_def session_timers_off_def hold_timers_def Let_def BGP_TIMER_ON_def split: if_splits)

lemma bgp_event_v_start: "bgp_event b env e s = Inr (ret, s') \<Longrightarrow> v_start s \<le> 120 \<Longrightarrow> v_start s' \<le> 120"
  using run_func_v_start[OF _ FSM_holdtime] by (cases "ret \<ge> 0") (auto elim!: bgp_event_split simp: fsm_frame)

lemma bgp_event_t_start:
  assumes "bgp_event b env e s = Inr (ret, s')" "t_start s = None" "t_start s' = Some t"
  shows "t = v_start s' + word_of_int (bgp_start_jitter env (sint (v_start s')))"
proof -
  obtain s1 where r: "run_func b env (fst (FSM (status s) e)) s = Inr (ret, s1)"
    and p: "ret \<ge> 0 \<Longrightarrow> s' = bgp_timer_set env (if snd (FSM (status s) e) \<noteq> status s1 then bgp_fsm_change_status env (snd (FSM (status s) e)) s1 else s1)"
    and n: "ret < 0 \<Longrightarrow> s' = s1"
    using assms(1) by (auto elim: bgp_event_split)
  have t1: "t_start s1 = None" using run_func_t_start[OF r assms(2)] .
  then have "ret \<ge> 0" using n assms(3) by force
  define s2 where "s2 = (if snd (FSM (status s) e) \<noteq> status s1 then bgp_fsm_change_status env (snd (FSM (status s) e)) s1 else s1)"
  have "t_start s2 = None" "s' = bgp_timer_set env s2" using t1 p \<open>ret \<ge> 0\<close> by (simp_all add: s2_def bgp_fsm_change_status_def clear_route_all_eq Let_def call_t_start)
  then show ?thesis using timer_set_start assms(3) by (simp add: fsm_frame)
qed

subsection \<open>Sockets\<close>

text \<open>The process holds the socket of the session and no other one, and only in the states that use it.\<close>

definition fds_ok :: "session \<Rightarrow> bool" where
  "fds_ok s \<longleftrightarrow> set (open_fds s) = (if fd s \<ge> 0 then {fd s} else {}) \<and>
     (fd s \<ge> 0 \<longrightarrow> status s \<in> {Connect, OpenSent, OpenConfirm, Established})"

lemma FSM_keeps_socket:
  "\<not> closes (fst (FSM st e)) \<and> \<not> opens (fst (FSM st e)) \<and> st \<in> {Connect, OpenSent, OpenConfirm, Established} \<longrightarrow>
     (snd (FSM st e) \<in> {Connect, OpenSent, OpenConfirm, Established}) = (FSM st e \<noteq> (Fignore, Idle))"
  by (cases st; cases e) (simp_all add: FSM_def closes_def opens_def)

lemma FSM_opens: "opens (fst (FSM st e)) \<longrightarrow> snd (FSM st e) = Connect \<and> (fst (FSM st e) = Fstart \<longrightarrow> st \<in> {Idle, Active})"
  by (cases st; cases e) (simp_all add: FSM_def opens_def)

lemma ignore_class: "\<not> closes Fignore" "\<not> opens Fignore"
  by (simp_all add: closes_def opens_def)

subsection \<open>The handshake\<close>

definition run_events :: "bgp \<Rightarrow> session \<Rightarrow> (fsm_env \<times> fsm_event) list \<Rightarrow> session res" where
  "run_events b = foldE (\<lambda>s (env, e). bindE (bgp_event b env e s) (\<lambda>(ret, s). Inr s))"

definition same_session :: "session \<Rightarrow> session \<Rightarrow> bool" where
  "same_session s s' \<longleftrightarrow> local_as s' = local_as s \<and> change_local_as s' = change_local_as s \<and> local_id s' = local_id s \<and>
     peer_config s' = peer_config s \<and> holdtime s' = holdtime s \<and> v_holdtime s' = v_holdtime s \<and> v_keepalive s' = v_keepalive s \<and>
     sflags s' = sflags s \<and> established s' = established s"

definition open_message :: "bgp \<Rightarrow> session \<Rightarrow> message" where
  "open_message b s =
     (let las = (if change_local_as s \<noteq> 0 then change_local_as s else local_as s) in
      OpenMessage (if las \<le> BGP_AS_MAX then ucast las else BGP_AS_TRANS)
        (ucast (if CHECK_FLAG (peer_config s) PEER_CONFIG_TIMER then holdtime s else default_holdtime b)) (local_id s))"

lemma open_message_same: "same_session s s' \<Longrightarrow> open_message b s' = open_message b s"
  by (simp add: open_message_def same_session_def)

lemma same_session_trans: "same_session s s1 \<Longrightarrow> same_session s1 s2 \<Longrightarrow> same_session s s2"
  by (simp add: same_session_def)

lemma timer_set_config: "same_session s (bgp_timer_set env s)"
  by (cases "status s") (simp_all add: same_session_def bgp_timer_set_def session_timers_off_def hold_timers_def)

lemma open_send_eq: "bgp_open_send b s = BGP_WRITE_ON (bgp_packet_add (open_message b s) s)"
  by (simp add: bgp_open_send_def open_message_def Let_def)

lemma change_status_config: "same_session s (bgp_fsm_change_status env st s)"
  by (simp add: same_session_def bgp_fsm_change_status_def clear_route_all_eq Let_def call_def)

lemma bgp_event_eqI:
  assumes "FSM (status s) e = (f, st)" "run_func b env f s = Inr (0, s1)" "status s1 \<noteq> st"
  shows "bgp_event b env e s = Inr (0, bgp_timer_set env (bgp_fsm_change_status env st s1))"
  using assms by (simp add: bgp_event_def)

lemma event_start:
  assumes "status s = Idle" "\<not> BGP_PEER_START_SUPPRESSED s" "\<not> CHECK_FLAG (peer_flags s) PEER_FLAG_PASSIVE"
    "env_socket env \<ge> 0" "env_connect env \<noteq> connect_error"
  shows "\<exists>s'. bgp_event b env BGP_Start s = Inr (0, s') \<and> status s' = Connect \<and> fd s' = env_socket env \<and>
     open_fds s' = env_socket env # open_fds s \<and> obuf s' = obuf s \<and> same_session s s'"
proof -
  obtain s1 where s1: "bgp_start env s = (0, s1)" "status s1 = Idle" "fd s1 = env_socket env"
      "open_fds s1 = env_socket env # open_fds s" "obuf s1 = obuf s" "same_session s s1"
    using assms by (cases "env_connect env")
      (auto simp: bgp_start_def bgp_connect_def Let_def BGP_WRITE_ON_def BGP_READ_ON_def BGP_EVENT_ADD_def same_session_def)
  let ?t = "bgp_timer_set env (bgp_fsm_change_status env Connect s1)"
  have "bgp_event b env BGP_Start s = Inr (0, ?t)"
    using assms(1) s1 by (intro bgp_event_eqI[where f = Fstart]) (simp_all add: FSM_def)
  moreover have "same_session s ?t" using s1(6) change_status_config timer_set_config same_session_trans by blast
  ultimately show ?thesis using s1 by (simp add: fsm_frame)
qed

lemma event_open:
  assumes "status s = Connect" "fd s \<ge> 0" "\<not> CHECK_FLAG (sflags s) PEER_STATUS_ACCEPT_PEER"
  shows "\<exists>s'. bgp_event b env TCP_connection_open s = Inr (0, s') \<and> status s' = OpenSent \<and> fd s' = fd s \<and>
     open_fds s' = open_fds s \<and> obuf s' = obuf s @ [open_message b s] \<and> same_session s s'"
proof -
  obtain s1 where s1: "bgp_connect_success b env s = (0, s1)" "status s1 = Connect" "fd s1 = fd s"
      "open_fds s1 = open_fds s" "obuf s1 = obuf s @ [open_message b s]" "same_session s s1"
    using assms by (auto simp: bgp_connect_success_def Let_def open_send_eq BGP_WRITE_ON_def BGP_READ_ON_def bgp_getsockname_def
        bgp_packet_add_def same_session_def open_message_def)
  let ?t = "bgp_timer_set env (bgp_fsm_change_status env OpenSent s1)"
  have "bgp_event b env TCP_connection_open s = Inr (0, ?t)"
    using assms(1) s1 by (intro bgp_event_eqI[where f = Fconnect_success]) (simp_all add: FSM_def)
  moreover have "same_session s ?t" using s1(6) change_status_config timer_set_config same_session_trans by blast
  ultimately show ?thesis using s1 by (simp add: fsm_frame)
qed

lemma event_receive_open:
  assumes "status s = OpenSent"
  shows "\<exists>s'. bgp_event b env Receive_OPEN_message s = Inr (0, s') \<and> status s' = OpenConfirm \<and> fd s' = fd s \<and>
     open_fds s' = open_fds s \<and> obuf s' = obuf s @ [KeepaliveMessage] \<and> same_session s s'"
proof -
  let ?s1 = "bgp_fsm_open s"
  let ?t = "bgp_timer_set env (bgp_fsm_change_status env OpenConfirm ?s1)"
  have s1: "status ?s1 = OpenSent" "fd ?s1 = fd s" "open_fds ?s1 = open_fds s" "obuf ?s1 = obuf s @ [KeepaliveMessage]"
    using assms by (simp_all add: bgp_fsm_open_def fsm_frame)
  have "same_session s ?s1"
    by (simp add: bgp_fsm_open_def same_session_def bgp_keepalive_send_def BGP_WRITE_ON_def bgp_packet_add_def)
  then have c: "same_session s ?t" using change_status_config timer_set_config same_session_trans by blast
  have "bgp_event b env Receive_OPEN_message s = Inr (0, ?t)"
    using assms s1 by (intro bgp_event_eqI[where f = Fopen]) (simp_all add: FSM_def)
  then show ?thesis using s1 c by (simp add: fsm_frame)
qed

lemma af_steps_established:
  "established (foldl nsf_step s ks) = established s" "established (foldl refresh_step s ks) = established s"
  "established (foldl wait_step s ks) = established s" "v_holdtime (foldl nsf_step s ks) = v_holdtime s"
  "v_holdtime (foldl refresh_step s ks) = v_holdtime s" "v_holdtime (foldl wait_step s ks) = v_holdtime s"
  by (rule foldl_keeps; auto simp: nsf_step_def refresh_step_def wait_step_def Let_def call_def split: prod.splits)+

lemma establish_counts:
  "established (bgp_establish env s) = established s + 1" "v_holdtime (bgp_establish env s) = v_holdtime s"
  by (simp_all add: bgp_establish_def Let_def af_steps_established bgp_keepalive_send_def BGP_WRITE_ON_def bgp_packet_add_def
      bgp_fsm_change_status_def call_def)

lemma event_receive_keepalive:
  assumes "status s = OpenConfirm"
  shows "\<exists>s'. bgp_event b env Receive_KEEPALIVE_message s = Inr (0, s') \<and> status s' = Established \<and> fd s' = fd s \<and>
     open_fds s' = open_fds s \<and> obuf s' = obuf s @ (if v_keepalive s \<noteq> 0 then [KeepaliveMessage] else []) \<and>
     last (route_calls s') = AnnounceRouteAll \<and> established s' = established s + 1 \<and>
     (t_holdtime s' \<noteq> None \<longleftrightarrow> v_holdtime s \<noteq> 0) \<and> (t_keepalive s' \<noteq> None \<longleftrightarrow> v_holdtime s \<noteq> 0)"
proof -
  let ?t = "bgp_timer_set env (bgp_establish env s)"
  have e: "bgp_event b env Receive_KEEPALIVE_message s = Inr (0, ?t)"
    using assms by (simp add: bgp_event_def FSM_def fsm_frame)
  have "timers_ok ?t" "status ?t = Established" "v_holdtime ?t = v_holdtime s"
    by (simp_all add: timer_set_ok fsm_frame establish_counts)
  then have "(t_holdtime ?t \<noteq> None \<longleftrightarrow> v_holdtime s \<noteq> 0) \<and> (t_keepalive ?t \<noteq> None \<longleftrightarrow> v_holdtime s \<noteq> 0)"
    by (simp add: timers_ok_def)
  moreover have "established ?t = established s + 1"
    using timer_set_config[of "bgp_establish env s" env] by (simp add: same_session_def establish_counts)
  ultimately show ?thesis using e by (simp add: fsm_frame establish_announces)
qed

subsection \<open>Properties of the machine\<close>

text \<open>An instance, an environment and a new session to evaluate the properties on.\<close>

definition sample_instance :: bgp where
  "sample_instance = \<lparr>bgp_as = 65000, bgp_config = 0, router_id = 1, confed_id = 0, confed_peers = [], bgp_flags = 0,
     default_local_pref = 100, default_holdtime = 180, default_keepalive = 60, stalepath_time = 360, bgp_name = None,
     bgp_peers = [], peer_self = 0\<rparr>"

definition sample_env :: fsm_env where
  "sample_env = \<lparr>env_rand = 4, env_clock = 100, env_socket = 7, env_connect = connect_in_progress, env_sockopt = 0,
     env_written = 21, env_addrs = (None, None), env_clear_idle = (\<lambda>k. k \<noteq> (1, 1))\<rparr>"

definition sample_session :: session where
  "sample_session = peer_create sample_instance sample_env 65000 65001 1 1"

lemma sample_session_fields:
  "status sample_session = Idle" "fd sample_session = - 1" "open_fds sample_session = []" "v_start sample_session = 5"
  "obuf sample_session = []" "sflags sample_session = 4" "peer_flags sample_session = 0" "peer_config sample_session = 0"
  "local_as sample_session = 65000" "change_local_as sample_session = 0" "local_id sample_session = 1"
  "v_holdtime sample_session = 180" "v_keepalive sample_session = 60" "established sample_session = 0"
  "t_start sample_session = Some 7"
  by (simp_all add: sample_session_def peer_create_def peer_new_def sample_instance_def sample_env_def Let_def peer_active_def
      bgp_timer_set_def session_timers_off_def BGP_PEER_START_SUPPRESSED_def BGP_TIMER_ON_def BGP_INIT_START_TIMER_def
      bgp_start_jitter_def CHECK_FLAG_def SET_FLAG_def PEER_STATUS_PREFIX_OVERFLOW_def PEER_STATUS_CAPABILITY_OPEN_def)

lemma sample_not_suppressed:
  "\<not> BGP_PEER_START_SUPPRESSED sample_session" "\<not> CHECK_FLAG (peer_flags sample_session) PEER_FLAG_PASSIVE"
  "\<not> CHECK_FLAG (sflags sample_session) PEER_STATUS_ACCEPT_PEER"
  by (simp_all add: BGP_PEER_START_SUPPRESSED_def CHECK_FLAG_def sample_session_fields PEER_STATUS_PREFIX_OVERFLOW_def
      PEER_STATUS_ACCEPT_PEER_def)

lemma sample_env_fields: "env_socket sample_env = 7"
  by (simp add: sample_env_def)

lemma sample_env_ok: "env_socket sample_env \<ge> 0" "env_connect sample_env \<noteq> connect_error"
  by (simp_all add: sample_env_def)

lemma run_events_session_run:
  assumes "run_events b s1 evs = Inr s2" "session_run b s es s1"
  shows "session_run b s (es @ map snd evs) s2"
  using assms
proof (induction evs arbitrary: s1 es)
  case Nil
  then show ?case by (simp add: run_events_def)
next
  case (Cons p evs)
  obtain env e where p: "p = (env, e)" by (cases p)
  obtain ret s3 where s3: "bgp_event b env e s1 = Inr (ret, s3)" using bgp_event_total by blast
  then have "run_events b s3 evs = Inr s2" using Cons.prems(1) by (simp add: run_events_def p)
  then have "session_run b s ((es @ [e]) @ map snd evs) s2" using Cons.IH Cons.prems(2) s3 run_event by blast
  then show ?case by (simp add: p)
qed

lemma handshake_run:
  assumes "status s = Idle" "\<not> BGP_PEER_START_SUPPRESSED s" "\<not> CHECK_FLAG (peer_flags s) PEER_FLAG_PASSIVE"
    "\<not> CHECK_FLAG (sflags s) PEER_STATUS_ACCEPT_PEER" "env_socket env0 \<ge> 0" "env_connect env0 \<noteq> connect_error"
  shows "\<exists>s'. run_events b s [(env0, BGP_Start), (env1, TCP_connection_open), (env2, Receive_OPEN_message), (env3, Receive_KEEPALIVE_message)]
       = Inr s' \<and> status s' = Established \<and> fd s' = env_socket env0 \<and> open_fds s' = env_socket env0 # open_fds s \<and>
     obuf s' = obuf s @ [open_message b s, KeepaliveMessage] @ (if v_keepalive s \<noteq> 0 then [KeepaliveMessage] else []) \<and>
     last (route_calls s') = AnnounceRouteAll \<and> established s' = established s + 1 \<and>
     (t_holdtime s' \<noteq> None \<longleftrightarrow> v_holdtime s \<noteq> 0) \<and> (t_keepalive s' \<noteq> None \<longleftrightarrow> v_holdtime s \<noteq> 0)"
proof -
  obtain s1 where s1: "bgp_event b env0 BGP_Start s = Inr (0, s1)" "status s1 = Connect" "fd s1 = env_socket env0"
      "open_fds s1 = env_socket env0 # open_fds s" "obuf s1 = obuf s" "same_session s s1"
    using event_start[OF assms(1-3,5,6)] by blast
  have f1: "fd s1 \<ge> 0" "\<not> CHECK_FLAG (sflags s1) PEER_STATUS_ACCEPT_PEER"
    using s1 assms(4,5) by (simp_all add: same_session_def)
  obtain s2 where s2: "bgp_event b env1 TCP_connection_open s1 = Inr (0, s2)" "status s2 = OpenSent" "fd s2 = fd s1"
      "open_fds s2 = open_fds s1" "obuf s2 = obuf s1 @ [open_message b s1]" "same_session s1 s2"
    using event_open[OF s1(2) f1] by blast
  obtain s3 where s3: "bgp_event b env2 Receive_OPEN_message s2 = Inr (0, s3)" "status s3 = OpenConfirm" "fd s3 = fd s2"
      "open_fds s3 = open_fds s2" "obuf s3 = obuf s2 @ [KeepaliveMessage]" "same_session s2 s3"
    using event_receive_open[OF s2(2)] by blast
  obtain s4 where s4: "bgp_event b env3 Receive_KEEPALIVE_message s3 = Inr (0, s4)" "status s4 = Established" "fd s4 = fd s3"
      "open_fds s4 = open_fds s3" "obuf s4 = obuf s3 @ (if v_keepalive s3 \<noteq> 0 then [KeepaliveMessage] else [])"
      "last (route_calls s4) = AnnounceRouteAll" "established s4 = established s3 + 1"
      "t_holdtime s4 \<noteq> None \<longleftrightarrow> v_holdtime s3 \<noteq> 0" "t_keepalive s4 \<noteq> None \<longleftrightarrow> v_holdtime s3 \<noteq> 0"
    using event_receive_keepalive[OF s3(2)] by metis
  have c: "same_session s s3" using s1(6) s2(6) s3(6) same_session_trans by blast
  have "run_events b s [(env0, BGP_Start), (env1, TCP_connection_open), (env2, Receive_OPEN_message), (env3, Receive_KEEPALIVE_message)] = Inr s4"
    using s1(1) s2(1) s3(1) s4(1) by (simp add: run_events_def)
  then show ?thesis
    using s1 s2 s3 s4 c open_message_same[OF s1(6)] by (simp add: same_session_def)
qed

text \<open>C14: every event is processed in every state without a failed assertion. When the event is accepted the
  session is in the state of the transition table with exactly the timers of that state armed. It is refused
  only for a start of a suppressed peer and an open connection without a socket, where nothing changes, and
  for the hold timer of an accepted connection, which is deleted.\<close>

theorem bgp_event_outcome:
  "\<exists>ret s'. bgp_event b env e s = Inr (ret, s') \<and>
     (ret \<ge> 0 \<longrightarrow> status s' = snd (FSM (status s) e) \<and> timers_ok s') \<and>
     (ret < 0 \<longrightarrow>
        s' = s \<and> (status s, e) \<in> {(Idle, BGP_Start), (Active, ConnectRetry_timer_expired)} \<and> BGP_PEER_START_SUPPRESSED s \<or>
        s' = s \<and> status s \<in> {Connect, Active} \<and> e = TCP_connection_open \<and> fd s < 0 \<or>
        status s' = Deleted \<and> status s \<in> {OpenSent, OpenConfirm, Established} \<and> e = Hold_Timer_expired \<and>
          CHECK_FLAG (sflags s) PEER_STATUS_ACCEPT_PEER)"
proof -
  obtain ret s' where e: "bgp_event b env e s = Inr (ret, s')" using bgp_event_total by blast
  then show ?thesis using bgp_event_next[OF e] bgp_event_refused[OF e] by blast
qed

theorem bgp_event_outcome_witness:
  "\<exists>ret s'. bgp_event sample_instance sample_env BGP_Start sample_session = Inr (ret, s') \<and> ret \<ge> 0 \<and> status s' = Connect"
  using bgp_event_outcome[of sample_instance sample_env BGP_Start sample_session]
  by (auto simp: sample_session_fields sample_not_suppressed FSM_def not_less)

text \<open>C13: a session that was idle and is established has been started, has had its connection opened, and has
  then received an OPEN and after it a KEEPALIVE message, in this order; it owns a socket. Between the events
  the rest of the daemon may change anything but the status and a socket in use.\<close>

theorem established_requires_handshake:
  assumes "session_run b s es s'" "status s = Idle" "status s' = Established"
  shows "subseq [BGP_Start, TCP_connection_open, Receive_OPEN_message, Receive_KEEPALIVE_message] es \<and> fd s' \<ge> 0"
  using session_run_inv[OF assms(1,2)] assms(3) by (simp add: live_def)

theorem established_requires_handshake_witness:
  "\<exists>es s'. session_run sample_instance sample_session es s' \<and> status s' = Established \<and>
     subseq [BGP_Start, TCP_connection_open, Receive_OPEN_message, Receive_KEEPALIVE_message] es \<and> fd s' \<ge> 0"
proof -
  obtain s' where s': "run_events sample_instance sample_session [(sample_env, BGP_Start), (sample_env, TCP_connection_open),
      (sample_env, Receive_OPEN_message), (sample_env, Receive_KEEPALIVE_message)] = Inr s'" "status s' = Established"
    using handshake_run[OF sample_session_fields(1) sample_not_suppressed sample_env_ok] by metis
  note run = run_events_session_run[OF s'(1) run_start]
  show ?thesis using run s'(2) established_requires_handshake[OF run sample_session_fields(1) s'(2)] by blast
qed

text \<open>C17: a peer that is not suppressed, passive or accepted and for which a socket is created and the
  connection does not fail reaches Established through the four events of the handshake. It has then sent its
  OPEN with its AS number, hold time and identifier, a KEEPALIVE in answer to the OPEN, and a further one unless the
  keepalive time is zero; routes are announced last; the hold and keepalive timers run unless the hold time is zero.\<close>

theorem handshake_establishes:
  assumes "status s = Idle" "\<not> BGP_PEER_START_SUPPRESSED s" "\<not> CHECK_FLAG (peer_flags s) PEER_FLAG_PASSIVE"
    "\<not> CHECK_FLAG (sflags s) PEER_STATUS_ACCEPT_PEER" "env_socket env0 \<ge> 0" "env_connect env0 \<noteq> connect_error"
  shows "\<exists>s'. run_events b s [(env0, BGP_Start), (env1, TCP_connection_open), (env2, Receive_OPEN_message), (env3, Receive_KEEPALIVE_message)]
       = Inr s' \<and> status s' = Established \<and> fd s' = env_socket env0 \<and> open_fds s' = env_socket env0 # open_fds s \<and>
     obuf s' = obuf s @ [open_message b s, KeepaliveMessage] @ (if v_keepalive s \<noteq> 0 then [KeepaliveMessage] else []) \<and>
     last (route_calls s') = AnnounceRouteAll \<and> established s' = established s + 1 \<and>
     (t_holdtime s' \<noteq> None \<longleftrightarrow> v_holdtime s \<noteq> 0) \<and> (t_keepalive s' \<noteq> None \<longleftrightarrow> v_holdtime s \<noteq> 0)"
  using assms by (rule handshake_run)

theorem handshake_establishes_witness:
  "\<exists>s'. run_events sample_instance sample_session [(sample_env, BGP_Start), (sample_env, TCP_connection_open),
       (sample_env, Receive_OPEN_message), (sample_env, Receive_KEEPALIVE_message)] = Inr s' \<and> status s' = Established \<and> fd s' = 7 \<and>
     obuf s' = [OpenMessage 65000 180 1, KeepaliveMessage, KeepaliveMessage] \<and> t_holdtime s' \<noteq> None"
  using handshake_establishes[OF sample_session_fields(1) sample_not_suppressed sample_env_ok,
    of sample_instance sample_env sample_env sample_env]
  by (auto simp: sample_session_fields sample_env_fields open_message_def CHECK_FLAG_def sample_instance_def
      BGP_AS_MAX_def Let_def)

text \<open>C35: the start time of a session never exceeds 120 seconds, however many errors double it, and a start timer
  armed by an event is set to between half and one and a half times the start time, both rounded up.\<close>

theorem bgp_event_backoff:
  assumes "bgp_event b env e s = Inr (ret, s')" "v_start s \<le> 120"
  shows "v_start s' \<le> 120 \<and>
    (\<forall>t. t_start s = None \<and> t_start s' = Some t \<longrightarrow>
       uint (v_start s') - uint (v_start s') div 2 \<le> uint t \<and> uint t \<le> 2 * uint (v_start s') - uint (v_start s') div 2)"
proof -
  have v: "v_start s' \<le> 120" using bgp_event_v_start[OF assms] .
  then show ?thesis using start_time_bounds[OF v bgp_event_t_start[OF assms(1)]] by blast
qed

theorem bgp_event_backoff_witness:
  "\<exists>ret s'. bgp_event sample_instance sample_env Receive_NOTIFICATION_message (sample_session\<lparr>status := OpenSent, v_start := 100, t_start := None\<rparr>)
      = Inr (ret, s') \<and> v_start s' \<le> 120 \<and> (\<forall>t. t_start s' = Some t \<longrightarrow> uint t \<le> 180)"
proof -
  let ?s = "sample_session\<lparr>status := OpenSent, v_start := 100, t_start := None\<rparr>"
  obtain ret s' where e: "bgp_event sample_instance sample_env Receive_NOTIFICATION_message ?s = Inr (ret, s')"
    using bgp_event_total by blast
  have "v_start ?s \<le> 120" "t_start ?s = None" by simp_all
  note b = bgp_event_backoff[OF e this(1)] and t = this(2)
  have "uint (v_start s') \<le> 120" using b by (simp add: word_le_def)
  then have "\<forall>t. t_start s' = Some t \<longrightarrow> uint t \<le> 180" using b t by fastforce
  then show ?thesis using e b by blast
qed

lemma event_ignored_idle:
  assumes "bgp_event b env e s = Inr (ret, s')" "FSM (status s) e = (Fignore, Idle)"
  shows "status s' = Idle \<and> fd s' = fd s \<and> open_fds s' = open_fds s"
  using assms by (auto simp: bgp_event_def fsm_frame split: if_splits)

lemma event_fds_ok:
  assumes "bgp_event b env e s = Inr (ret, s')" "fds_ok s"
  shows "fds_ok s' \<longleftrightarrow> \<not> (fd s \<ge> 0 \<and> FSM (status s) e = (Fignore, Idle))"
proof -
  let ?f = "fst (FSM (status s) e)" and ?n = "snd (FSM (status s) e)"
  obtain s1 where r: "run_func b env ?f s = Inr (ret, s1)"
    and p: "ret \<ge> 0 \<Longrightarrow> s' = bgp_timer_set env (if ?n \<noteq> status s1 then bgp_fsm_change_status env ?n s1 else s1)"
    and n: "ret < 0 \<Longrightarrow> s' = s1"
    using assms(1) by (auto elim: bgp_event_split)
  have st: "ret \<ge> 0 \<Longrightarrow> status s' = ?n" using bgp_event_next(1)[OF assms(1)] .
  have fds: "fd s' = fd s1" "open_fds s' = open_fds s1" using p n by (cases "ret \<ge> 0"; simp add: fsm_frame)+
  consider (cl) "closes ?f" | (op) "opens ?f" | (keep) "\<not> closes ?f" "\<not> opens ?f" by blast
  then show ?thesis
  proof cases
    case cl
    then have "fds_ok s'" using run_func_closes[OF r FSM_holdtime] assms(2) fds by (auto simp: fds_ok_def split: if_splits)
    moreover have "FSM (status s) e \<noteq> (Fignore, Idle)" using cl ignore_class by auto
    ultimately show ?thesis by blast
  next
    case op
    have "FSM (status s) e \<noteq> (Fignore, Idle)" using op ignore_class by auto
    moreover have "fds_ok s'"
    proof (cases "ret \<ge> 0")
      case True
      have "?f = Freconnect \<or> ?f = Fstart \<and> fd s < 0" using op FSM_opens[of "status s" e] assms(2) by (auto simp: opens_def fds_ok_def)
      then have "set (open_fds s1) = (if fd s1 \<ge> 0 then {fd s1} else {})"
        using run_func_opens[OF r] assms(2) by (simp add: fds_ok_def)
      then show ?thesis using st[OF True] FSM_opens[of "status s" e] op fds by (simp add: fds_ok_def)
    next
      case False
      then have "s' = s" using run_func_status[OF r FSM_holdtime] op n by (auto simp: opens_def)
      then show ?thesis using assms(2) by simp
    qed
    ultimately show ?thesis by blast
  next
    case keep
    have k: "fd s' = fd s" "open_fds s' = open_fds s" using run_func_keeps[OF r keep] fds by simp_all
    show ?thesis
    proof (cases "fd s \<ge> 0")
      case False
      then show ?thesis using assms(2) k by (simp add: fds_ok_def)
    next
      case True
      have "ret \<ge> 0" using run_func_status[OF r FSM_holdtime] True keep by (auto simp: closes_def opens_def)
      then have "status s' = ?n" by (rule st)
      moreover have "fds_ok s' \<longleftrightarrow> status s' \<in> {Connect, OpenSent, OpenConfirm, Established}"
        using True k assms(2) by (simp add: fds_ok_def)
      moreover have "status s \<in> {Connect, OpenSent, OpenConfirm, Established}" using True assms(2) by (simp add: fds_ok_def)
      then have "?n \<in> {Connect, OpenSent, OpenConfirm, Established} \<longleftrightarrow> FSM (status s) e \<noteq> (Fignore, Idle)"
        using FSM_keeps_socket[of "status s" e] keep by blast
      ultimately show ?thesis using True by simp
    qed
  qed
qed

text \<open>C18: in a session whose only open socket is its own and that has a socket only in the states
  that use one, an event keeps this so unless it is one the machine ignores and answers by going to Idle. Exactly then
  it fails, and it fails in this way: the session is Idle and its socket is still open and still its own.\<close>

theorem bgp_event_sockets:
  assumes "bgp_event b env e s = Inr (ret, s')" "fds_ok s"
  shows "(fds_ok s' \<longleftrightarrow> \<not> (fd s \<ge> 0 \<and> FSM (status s) e = (Fignore, Idle))) \<and>
    (\<not> fds_ok s' \<longrightarrow> status s' = Idle \<and> fd s' = fd s \<and> fd s' \<in> set (open_fds s'))"
  using event_fds_ok[OF assms] event_ignored_idle[OF assms(1)] assms(2) by (auto simp: fds_ok_def)

theorem bgp_event_sockets_witness:
  "\<exists>ret s'. bgp_event sample_instance sample_env Receive_KEEPALIVE_message (sample_session\<lparr>status := OpenSent, fd := 7, open_fds := [7]\<rparr>)
      = Inr (ret, s') \<and> \<not> fds_ok s' \<and> status s' = Idle \<and> 7 \<in> set (open_fds s')"
proof -
  let ?s = "sample_session\<lparr>status := OpenSent, fd := 7, open_fds := [7]\<rparr>"
  obtain ret s' where e: "bgp_event sample_instance sample_env Receive_KEEPALIVE_message ?s = Inr (ret, s')"
    using bgp_event_total by blast
  have "fds_ok ?s" by (simp add: fds_ok_def)
  then show ?thesis using bgp_event_sockets[OF e] e by (auto simp: FSM_def)
qed

subsection \<open>Leaving Established\<close>






end
