(* ===== verification/Spec2Isabelle.thy ===== *)
theory Spec2Isabelle
  imports Bgp_Intern Route_Table Ospf_Spf Bgp_Decision Bgp_Fsm
begin

text \<open>
  A verification library for the routing suite under \<^verbatim>\<open>src/Distributedquagga-0.99.21\<close>, a distribution of
  Quagga. Paths below are relative to that directory.

  \<^bold>\<open>The program.\<close> Quagga is a set of daemons, one for each routing protocol, over a common library. The
  library \<^verbatim>\<open>lib/\<close> holds the address prefixes, the byte buffers that messages are built in and parsed from, the
  routing table, the priority queue and the hash table. The OSPF daemon keeps a link state database and
  computes shortest paths over it with the priority queue. The BGP daemon runs one state machine per
  neighbour; once a session is established, routes arrive as UPDATE messages whose AS paths are parsed out of
  a buffer, stored once in a hash table, and attached to the entries of a routing table node, among which the
  decision process selects the best one.

  \<^bold>\<open>Theories.\<close>
  \<^item> \<open>Prelude\<close>: machine words, faults, the error monad, memory reads and writes, big-endian encodings.
  \<^item> \<open>Prefix\<close>: \<^verbatim>\<open>lib/prefix.c\<close>, \<^verbatim>\<open>lib/prefix.h\<close>. A prefix is a record of family, length and the bytes of its
    address; the operations are those of the same names (\<^verbatim>\<open>prefix_match\<close>, \<^verbatim>\<open>apply_mask\<close>, \<^verbatim>\<open>str2prefix\<close>, ...).
    The lemmas relate the byte and mask code to the bits of a prefix and give the round trip of the text form.
  \<^item> \<open>Stream_Buf\<close>: \<^verbatim>\<open>lib/stream.c\<close>, \<^verbatim>\<open>lib/stream.h\<close>, \<^verbatim>\<open>readn\<close> of \<^verbatim>\<open>lib/network.c\<close>. Every operation on the buffer, and
    the stream FIFO over an explicit store of linked cells. The lemmas show that sequences of
    operations called within their contracts stay inside the buffer, that fields are read back as they were written (locales \<open>byte_queue\<close>
    and \<open>wire_field\<close>, interpreted for the fields of 8 to 64 bits), and that the FIFO is a queue.
  \<^item> \<open>Route_Table\<close>: \<^verbatim>\<open>lib/table.c\<close>. The path-compressed trie with reference counts. The lemmas give
    longest-prefix match, exact lookup, what insertion and release do to the nodes and counts
    (locale \<open>counted_table\<close>), and the traversal and freeing of a table.
  \<^item> \<open>Pqueue\<close>: \<^verbatim>\<open>lib/pqueue.c\<close>. The array heap with its comparison and position callbacks; the locale
    \<open>queue_order\<close> states what it asks of a comparison, and its lemmas give the heap invariant.
  \<^item> \<open>Ospf_Spf\<close>: \<^verbatim>\<open>ospfd/ospf_spf.c\<close>. The shortest-path calculation of an area on the heap of \<open>Pqueue\<close>
    (an interpretation of \<open>queue_order\<close>). The lemmas show that it ends with exactly the reachable vertices,
    at their shortest distances, with the parents of shortest paths.
  \<^item> \<open>Bgp_Aspath\<close>: \<^verbatim>\<open>bgpd/bgp_aspath.c\<close>. Segments, their normal form, the text and wire forms on the
    buffers of \<open>Stream_Buf\<close>, and the operations on paths. The lemmas give round trips, the safety of the
    parser on every input, the normal form, and what prepending, aggregation and reconciliation compute.
  \<^item> \<open>Hash\<close>: \<^verbatim>\<open>lib/hash.c\<close>, \<^verbatim>\<open>lib/jhash.c\<close>. The chained table over client callbacks; the locale
    \<open>hash_callbacks\<close> states what it asks of a client.
  \<^item> \<open>Bgp_Intern\<close>: the table of shared AS paths of \<^verbatim>\<open>bgpd/bgp_aspath.c\<close>, a client of \<open>Hash\<close> and \<open>Bgp_Aspath\<close>
    (an interpretation of \<open>hash_callbacks\<close>). In every reachable state two references are one pointer exactly when
    their segments and the hash keys of their strings are equal, which for paths that carry the text of their
    segments is the equality of paths; the counts are exact; no operation faults.
  \<^item> \<open>Bgp_Peer\<close>: the fields of \<^verbatim>\<open>struct bgp\<close> and \<^verbatim>\<open>struct peer\<close> (\<^verbatim>\<open>bgpd/bgpd.h\<close>) that the next two theories share,
    \<^verbatim>\<open>peer_sort\<close> and \<^verbatim>\<open>sockunion_cmp\<close>.
  \<^item> \<open>Bgp_Decision\<close>: \<^verbatim>\<open>bgpd/bgp_route.c\<close>, from \<^verbatim>\<open>bgp_info_cmp\<close> to \<^verbatim>\<open>bgp_process\<close>, with the references of a node of
    \<^verbatim>\<open>bgpd/bgp_table.c\<close>. The locale \<open>path_order\<close> proves the
    selection correct for any comparison that follows a key, and is interpreted on \<^verbatim>\<open>bgp_info_cmp\<close> with
    always-compare-med and compare-routerid set. Further lemmas give the flags and references
    after a node is processed, when the node is freed, and the prefix counts.
  \<^item> \<open>Bgp_Fsm\<close>: \<^verbatim>\<open>bgpd/bgp_fsm.c\<close> with the functions of \<^verbatim>\<open>bgp_packet.c\<close>, \<^verbatim>\<open>bgp_network.c\<close> and \<^verbatim>\<open>bgpd.c\<close> its table calls.
    Every event in every state returns; the order of events before Established; the handshake; the bounds
    of the start timer; the sockets a session holds; the way from Clearing back to Idle.

  \<^bold>\<open>Conventions.\<close> A C function that may fail an assertion, leave its object or follow a bad pointer returns
  a value of \<open>'a res\<close>, and each of the three is a fault. Machine integers are words where their wrap-around
  can be reached and naturals where it cannot. Pointers are addresses of an explicit store where sharing
  matters (FIFO cells, AS path structures, entries of a node) and positions or keys where an object has one
  owner. Callbacks, system calls and the conversions of the C library (\<^verbatim>\<open>inet_pton\<close> and the like) are arguments.

  \<^bold>\<open>Loops.\<close> Loops are recursive functions with termination proofs, with four exceptions. The loop that empties a
  stream FIFO runs forever on a cyclic list and is a partial function; it is shown to end on every FIFO that
  represents a list. Three loops take fuel and return \<open>None\<close> when it runs out. The main loop of the shortest-path
  calculation needs as much fuel as the area has LSAs, since each round adds one vertex to the tree. Walking a table
  needs more fuel than it has nodes, and freeing one twice the number of nodes. The theorems about them state that
  this fuel gives a result.

  \<^bold>\<open>Not modelled.\<close>
  \<^item> The daemons for OSPFv3, RIP, RIPng, IS-IS and Babel, and zebra, the routing manager: programs of their own
    whose core is input from and output to the kernel or to sockets.
  \<^item> In the BGP daemon: the parsers of messages and attributes other than AS_PATH, communities, policy
    and filters, route flap damping (floating point), multipath, route reflection and server tables, and accepted
    connections, whose socket \<^verbatim>\<open>bgp_open_receive\<close> hands to the configured peer outside the state machine.
  \<^item> In the OSPF daemon: interfaces, neighbours, flooding, LSA origination, and the routes derived from the
    tree; the vertices handed to them are recorded. LSAs with TOS metrics are outside the model.
  \<^item> In the library: threads and timers (a thread is the value it was armed with), memory accounting, logging,
    the command line and terminals, the imported regular expression and MD5 sources.
  \<^item> \<^verbatim>\<open>src/accessServerFirmware\<close> and the OpenWRT packaging: register access of a microcontroller and build scripts.
\<close>

end
